theory Spec2Isabelle
  imports Complex_Main
begin

section \<open>The expression tape (libfive/src/eval/tape.cpp)\<close>

subsection \<open>Data model\<close>

text \<open>
  Opcodes. The enumeration itself lives in a header that is not part of the sources at hand;
  the constructors below are the ones the tape code and the specification name, and
  \<open>OP_OTHER\<close> stands for the remaining arithmetic opcodes.
\<close>

datatype Opcode =
    VAR_X | VAR_Y | VAR_Z | VAR_FREE | CONSTANT | ORACLE
  | OP_ADD | OP_SUB | OP_MUL | OP_DIV | OP_MIN | OP_MAX
  | OP_NEG | OP_ABS | OP_SQRT | OP_SIN | OP_COS | OP_OTHER nat

text \<open>
  A clause is the 4-tuple \<open>{op, id, a, b}\<close>. The fields carry the prefix \<open>c_\<close>
  because \<open>id\<close> is a constant of HOL. Clause ids are natural numbers.
\<close>

record Clause =
  c_op :: Opcode
  c_id :: nat
  c_a :: nat
  c_b :: nat

datatype Keep = KEEP_BOTH | KEEP_A | KEEP_B | KEEP_ALWAYS

datatype Type = Type_BASE | INTERVAL | SPECIALIZED

text \<open>
  A region box as stored by \<open>push\<close> in \<open>tape->X\<close>, \<open>tape->Y\<close> and \<open>tape->Z\<close>:
  three (lower, upper) pairs. The bounds are only stored and later compared, never
  computed with; they are kept as real numbers.
\<close>

type_synonym Box = "(real \<times> real) \<times> (real \<times> real) \<times> (real \<times> real)"

text \<open>
  A Subtape: the clause vector \<open>t\<close>, the \<open>type\<close>, the \<open>dummy\<close> counter, the slot map
  \<open>m\<close> and the stored box. The counter is modelled as an unbounded natural number.
\<close>

record Subtape =
  st_t :: "Clause list"
  st_type :: Type
  dummy :: nat
  st_m :: "nat list"
  st_box :: Box

definition Subtape_new :: Subtape where
  "Subtape_new =
     \<lparr> st_t = [], st_type = Type_BASE, dummy = 0, st_m = [],
       st_box = ((0, 0), (0, 0), (0, 0)) \<rparr>"

text \<open>
  The Tape. \<open>tapes\<close> is the stack of Subtapes (a \<open>std::list\<close>) and \<open>tape\<close> the cursor into
  it, modelled as the position of the iterator: \<open>tape = 0\<close> is \<open>tapes.begin()\<close> and
  \<open>tape = length tapes\<close> would be \<open>tapes.end()\<close>.
\<close>

record Tape =
  constants :: "real list"
  vars :: "nat list"
  oracles :: "nat list"
  tapes :: "Subtape list"
  tape :: nat
  num_clauses :: nat
  disabled :: "bool list"
  remap :: "nat list"

text \<open>
  Failures of the C++ code are values of the model: a failed \<open>assert\<close>, an access
  outside a container (\<open>std::out_of_range\<close> for \<open>at\<close>, undefined behaviour for
  \<open>operator[]\<close>), and the use of a null pointer.
\<close>

datatype error = AssertionFailed | OutOfRange | NullPointer

definition cur :: "Tape \<Rightarrow> Subtape" where
  "cur s = tapes s ! tape s"

definition set_cur :: "Subtape \<Rightarrow> Tape \<Rightarrow> Tape" where
  "set_cur st s = s \<lparr> tapes := (tapes s)[tape s := st] \<rparr>"

subsection \<open>pop\<close>

definition pop :: "Tape \<Rightarrow> error + Tape" where
  "pop s =
     (if tape s = 0 then Inl AssertionFailed
      else if dummy (cur s) > 1
        then Inr (set_cur ((cur s) \<lparr> dummy := dummy (cur s) - 1 \<rparr>) s)
        else Inr (s \<lparr> tape := tape s - 1 \<rparr>))"

subsection \<open>push\<close>

text \<open>
  The caller's keep-classifier \<open>fn(op, id, a, b)\<close>.
\<close>

type_synonym Classifier = "Opcode \<Rightarrow> nat \<Rightarrow> nat \<Rightarrow> nat \<Rightarrow> Keep"

definition hasDummyChildren :: "Opcode \<Rightarrow> bool" where
  "hasDummyChildren opc = (opc = CONSTANT \<or> opc = VAR_FREE \<or> opc = ORACLE)"

text \<open>
  Reads and writes of the scratch vectors \<open>disabled\<close> and \<open>remap\<close> go through
  \<open>operator[]\<close>; an index outside the vector is a failure of the model.
\<close>

definition rd :: "'a list \<Rightarrow> nat \<Rightarrow> error + 'a" where
  "rd xs i = (if i < length xs then Inr (xs ! i) else Inl OutOfRange)"

definition wr :: "'a list \<Rightarrow> nat \<Rightarrow> 'a \<Rightarrow> error + 'a list" where
  "wr xs i v = (if i < length xs then Inr (xs[i := v]) else Inl OutOfRange)"

definition and_then :: "error + 'a \<Rightarrow> ('a \<Rightarrow> error + 'b) \<Rightarrow> error + 'b" where
  "and_then x f = (case x of Inl e \<Rightarrow> Inl e | Inr v \<Rightarrow> f v)"

text \<open>
  The body of the first loop of \<open>push\<close> for one clause \<open>c\<close>: the state is
  \<open>(disabled, remap, has_choices)\<close>.
\<close>

definition keep_switch ::
  "Classifier \<Rightarrow> Clause \<Rightarrow> bool list \<times> nat list \<times> bool \<Rightarrow> error + (bool list \<times> nat list \<times> bool)"
where
  "keep_switch fn c = (\<lambda>(d, r, h).
     case fn (c_op c) (c_id c) (c_a c) (c_b c) of
       KEEP_A \<Rightarrow>
         and_then (wr d (c_a c) False) (\<lambda>d1.
         and_then (wr r (c_id c) (c_a c)) (\<lambda>r1. Inr (d1, r1, h)))
     | KEEP_B \<Rightarrow>
         and_then (wr d (c_b c) False) (\<lambda>d1.
         and_then (wr r (c_id c) (c_b c)) (\<lambda>r1. Inr (d1, r1, h)))
     | KEEP_BOTH \<Rightarrow> Inr (d, r, True)
     | KEEP_ALWAYS \<Rightarrow> Inr (d, r, h))"

definition mark_clause ::
  "Classifier \<Rightarrow> Clause \<Rightarrow> bool list \<times> nat list \<times> bool \<Rightarrow> error + (bool list \<times> nat list \<times> bool)"
where
  "mark_clause fn c = (\<lambda>(d, r, h).
     and_then (rd d (c_id c)) (\<lambda>dis.
       if dis then Inr (d, r, h)
       else
         and_then (keep_switch fn c (d, r, h)) (\<lambda>(d1, r1, h1).
         and_then (rd r1 (c_id c)) (\<lambda>rm.
           if rm \<noteq> 0 then and_then (wr d1 (c_id c) True) (\<lambda>d2. Inr (d2, r1, h1))
           else if \<not> hasDummyChildren (c_op c) then
             and_then (wr d1 (c_a c) False) (\<lambda>d2.
             and_then (wr d2 (c_b c) False) (\<lambda>d3. Inr (d3, r1, h1)))
           else Inr (d1, r1, h1)))))"

fun mark_all ::
  "Classifier \<Rightarrow> Clause list \<Rightarrow> bool list \<times> nat list \<times> bool \<Rightarrow> error + (bool list \<times> nat list \<times> bool)"
where
  "mark_all fn [] st = Inr st"
| "mark_all fn (c # cs) st = and_then (mark_clause fn c st) (mark_all fn cs)"

text \<open>
  The operand-rewriting loop \<open>for (ra = c.a; remap[ra]; ra = remap[ra]);\<close>. Nothing in
  the loop itself bounds the number of iterations, so it is a partial function: \<open>None\<close>
  means that the loop does not return.
\<close>

partial_function (option) follow :: "nat list \<Rightarrow> nat \<Rightarrow> (error + nat) option" where
  "follow r ra =
     (if ra < length r
      then (if r ! ra \<noteq> 0 then follow r (r ! ra) else Some (Inr ra))
      else Some (Inl OutOfRange))"

declare follow.simps [code]

text \<open>
  The second loop of \<open>push\<close>: the clauses of the previous Subtape that are not disabled
  are appended to the new one, operands rewritten along the remap chain (oracle clauses are
  copied as they are).
\<close>

definition prepend :: "Clause \<Rightarrow> (error + Clause list) option \<Rightarrow> (error + Clause list) option" where
  "prepend c x = (case x of None \<Rightarrow> None | Some (Inl e) \<Rightarrow> Some (Inl e) | Some (Inr cs) \<Rightarrow> Some (Inr (c # cs)))"

fun emit :: "bool list \<Rightarrow> nat list \<Rightarrow> Clause list \<Rightarrow> (error + Clause list) option" where
  "emit d r [] = Some (Inr [])"
| "emit d r (c # cs) =
     (case rd d (c_id c) of
        Inl e \<Rightarrow> Some (Inl e)
      | Inr dis \<Rightarrow>
          if dis then emit d r cs
          else if c_op c = ORACLE then
            prepend \<lparr> c_op = c_op c, c_id = c_id c, c_a = c_a c, c_b = c_b c \<rparr> (emit d r cs)
          else
            (case follow r (c_a c) of
               None \<Rightarrow> None
             | Some (Inl e) \<Rightarrow> Some (Inl e)
             | Some (Inr ra) \<Rightarrow>
                 (case follow r (c_b c) of
                    None \<Rightarrow> None
                  | Some (Inl e) \<Rightarrow> Some (Inl e)
                  | Some (Inr rb) \<Rightarrow>
                      prepend \<lparr> c_op = c_op c, c_id = c_id c, c_a = ra, c_b = rb \<rparr>
                        (emit d r cs))))"

text \<open>
  \<open>push\<close> itself, as a transformer of the Tape. The result is \<open>None\<close> when a remap
  loop does not return, \<open>Some (Inl e)\<close> when an assertion fails or a vector is indexed
  out of range, and \<open>Some (Inr s')\<close> with the new Tape otherwise. The capacity of the
  clause vectors (\<open>reserve\<close>, and the assertion on \<open>capacity()\<close>) is not modelled.
  The Handle that \<open>push\<close> returns is always \<open>Handle(this)\<close>, see \<open>Handle_push\<close> below.
\<close>

definition push :: "Classifier \<Rightarrow> Type \<Rightarrow> Box \<Rightarrow> Tape \<Rightarrow> (error + Tape) option" where
  "push fn t r s =
     (if dummy (cur s) \<noteq> 0
      then Some (Inr (set_cur ((cur s) \<lparr> dummy := dummy (cur s) + 1 \<rparr>) s))
      else
        (case st_t (cur s) of
           [] \<Rightarrow> Some (Inl AssertionFailed)
         | c0 # _ \<Rightarrow>
            (case and_then (wr (replicate (length (disabled s)) True) (c_id c0) False)
                    (\<lambda>d1. mark_all fn (st_t (cur s))
                             (d1, replicate (length (remap s)) 0, False)) of
               Inl e \<Rightarrow> Some (Inl e)
             | Inr (d, rm, has_choices) \<Rightarrow>
                (case emit d rm (st_t (cur s)) of
                   None \<Rightarrow> None
                 | Some (Inl e) \<Rightarrow> Some (Inl e)
                 | Some (Inr cs) \<Rightarrow>
                    if length cs > length (st_t (cur s)) then Some (Inl AssertionFailed)
                    else
                      let nxt = tape s + 1;
                          fresh = (nxt = length (tapes s));
                          old = (if fresh then Subtape_new else tapes s ! nxt);
                          new = old \<lparr> st_t := cs, st_type := t,
                                      dummy := (if has_choices then 0 else 1), st_box := r \<rparr>;
                          tapes' = (if fresh then tapes s @ [new] else (tapes s)[nxt := new])
                      in Some (Inr (s \<lparr> tapes := tapes', tape := nxt,
                                       disabled := d, remap := rm \<rparr>))))))"

subsection \<open>Handles and getBase\<close>

text \<open>
  A Handle holds the pointer to its Tape, the kind of disposal and the saved cursor. The
  model has one Tape, passed explicitly; \<open>h_tape\<close> records whether the pointer is
  non-null (the destructor asserts it). A Handle made by \<open>push\<close> never reads its
  \<open>prev\<close> field, which the model fills with \<open>0\<close>.
\<close>

datatype Handle_Type = NONE | BASE | PUSH

record Handle =
  h_tape :: bool
  h_type :: Handle_Type
  h_prev :: nat


definition Handle_base :: "nat \<Rightarrow> Handle" where
  "Handle_base prev = \<lparr> h_tape = True, h_type = BASE, h_prev = prev \<rparr>"

text \<open>The destructor \<open>~Handle()\<close>.\<close>

definition Handle_dtor :: "Handle \<Rightarrow> Tape \<Rightarrow> error + Tape" where
  "Handle_dtor h s =
     (case h_type h of
        NONE \<Rightarrow> Inr s
      | BASE \<Rightarrow> if h_tape h then Inr (s \<lparr> tape := h_prev h \<rparr>) else Inl AssertionFailed
      | PUSH \<Rightarrow> if h_tape h then pop s else Inl AssertionFailed)"

text \<open>
  Handles are objects, and \<open>operator=\<close> may be called with \<open>this\<close> and \<open>other\<close> the same
  object. So the Handles live in a store, addressed by natural numbers. The move
  constructor \<open>Handle(Handle&& other)\<close> initialises the new object \<open>self\<close> from \<open>other\<close> and
  then sets the type of \<open>other\<close>; the move assignment \<open>operator=(Handle&& other)\<close> runs its
  four assignments in the order of the source.
\<close>

type_synonym Handles = "nat \<Rightarrow> Handle"

definition Handle_move :: "nat \<Rightarrow> nat \<Rightarrow> Handles \<Rightarrow> Handles" where
  "Handle_move self other hs =
     (let hs1 = hs(self := \<lparr> h_tape = h_tape (hs other), h_type = h_type (hs other),
                             h_prev = h_prev (hs other) \<rparr>)
      in hs1(other := (hs1 other) \<lparr> h_type := NONE \<rparr>))"

definition Handle_assign :: "nat \<Rightarrow> nat \<Rightarrow> Handles \<Rightarrow> Handles" where
  "Handle_assign self other hs =
     (let hs1 = hs(self := (hs self) \<lparr> h_tape := h_tape (hs other) \<rparr>);
          hs2 = hs1(self := (hs1 self) \<lparr> h_type := h_type (hs1 other) \<rparr>);
          hs3 = hs2(self := (hs2 self) \<lparr> h_prev := h_prev (hs2 other) \<rparr>)
      in hs3(other := (hs3 other) \<lparr> h_type := NONE \<rparr>))"

definition in_box :: "real \<times> real \<times> real \<Rightarrow> Subtape \<Rightarrow> bool" where
  "in_box p st =
     (case (p, st_box st) of ((x, y, z), ((xl, xu), (yl, yu), (zl, zu))) \<Rightarrow>
        x \<ge> xl \<and> x \<le> xu \<and> y \<ge> yl \<and> y \<le> yu \<and> z \<ge> zl \<and> z \<le> zu)"

fun getBase_walk :: "real \<times> real \<times> real \<Rightarrow> Subtape list \<Rightarrow> nat \<Rightarrow> nat" where
  "getBase_walk p ts 0 = 0"
| "getBase_walk p ts (Suc n) =
     (if st_type (ts ! Suc n) = INTERVAL \<and> in_box p (ts ! Suc n) then Suc n
      else getBase_walk p ts n)"

definition getBase :: "real \<times> real \<times> real \<Rightarrow> Tape \<Rightarrow> Handle \<times> Tape" where
  "getBase p s = (Handle_base (tape s), s \<lparr> tape := getBase_walk p (tapes s) (tape s) \<rparr>)"

subsection \<open>Register allocation: assignSlots\<close>

text \<open>
  \<open>ranges\<close> maps a clause id to the pair \<open>(first, second)\<close>. It is an association list;
  \<open>insert\<close> of the standard maps keeps an existing entry.
\<close>

type_synonym Ranges = "(nat \<times> (nat \<times> nat)) list"

definition insert_new :: "nat \<Rightarrow> 'v \<Rightarrow> (nat \<times> 'v) list \<Rightarrow> (nat \<times> 'v) list" where
  "insert_new k v m = (case map_of m k of None \<Rightarrow> m @ [(k, v)] | Some _ \<Rightarrow> m)"

definition set_second :: "nat \<Rightarrow> nat \<Rightarrow> Ranges \<Rightarrow> error + Ranges" where
  "set_second ptr e rs =
     (case map_of rs ptr of
        None \<Rightarrow> Inl AssertionFailed
      | Some _ \<Rightarrow> Inr (map (\<lambda>(k, p). if k = ptr then (k, (fst p, e)) else (k, p)) rs))"

text \<open>
  The first loop of \<open>assignSlots\<close>, over the clauses from \<open>rbegin\<close> to \<open>rend\<close>, with the
  position counter \<open>i\<close>.
\<close>

fun find_ranges :: "Clause list \<Rightarrow> nat \<Rightarrow> Ranges \<Rightarrow> error + Ranges" where
  "find_ranges [] i rs = Inr rs"
| "find_ranges (c # cs) i rs =
     (if c_id c = 0 then Inl AssertionFailed
      else
        if \<not> hasDummyChildren (c_op c) then
          and_then (set_second (c_a c) (i + 1) (insert_new (c_id c) (i, i + 1) rs)) (\<lambda>rs2.
          and_then (set_second (c_b c) (i + 1) rs2) (\<lambda>rs3.
          find_ranges cs (i + 1) rs3))
        else find_ranges cs (i + 1) (insert_new (c_id c) (i, i + 1) rs))"

text \<open>
  \<open>reg_ops\<close> is a multimap keyed by \<open>(position, RegOp)\<close>; the enumeration puts \<open>DROP\<close>
  before \<open>LOAD\<close>. It is kept as a list ordered by key; an insertion goes behind the
  entries of equal key. The order in which the unordered map \<open>ranges\<close> is traversed is
  not defined by the language: the model uses the order of the association list.
\<close>

datatype RegOp = DROP | LOAD

type_synonym RegEvent = "(nat \<times> RegOp) \<times> nat"

definition key_less :: "nat \<times> RegOp \<Rightarrow> nat \<times> RegOp \<Rightarrow> bool" where
  "key_less k1 k2 = (fst k1 < fst k2 \<or> (fst k1 = fst k2 \<and> snd k1 = DROP \<and> snd k2 = LOAD))"

fun mm_insert :: "RegEvent \<Rightarrow> RegEvent list \<Rightarrow> RegEvent list" where
  "mm_insert x [] = [x]"
| "mm_insert x (y # ys) =
     (if key_less (fst x) (fst y) then x # y # ys else y # mm_insert x ys)"

fun make_reg_ops :: "Ranges \<Rightarrow> RegEvent list \<Rightarrow> RegEvent list" where
  "make_reg_ops [] ev = ev"
| "make_reg_ops (r # rs) ev =
     make_reg_ops rs
       (mm_insert ((snd (snd r), DROP), fst r) (mm_insert ((fst (snd r), LOAD), fst r) ev))"

text \<open>
  The walk over the LOAD/DROP tape with the maps \<open>active\<close> and \<open>assigned\<close> and the set
  \<open>inactive\<close> of free slots.
\<close>

record Regs =
  active :: "(nat \<times> nat) list"
  assigned :: "(nat \<times> nat) list"
  inactive :: "nat set"

definition reg_step :: "RegEvent \<Rightarrow> Regs \<Rightarrow> error + Regs" where
  "reg_step ev st =
     (if snd ev = 0 then Inr st
      else if snd (fst ev) = DROP then
        (case map_of (active st) (snd ev) of
           None \<Rightarrow> Inl AssertionFailed
         | Some slot \<Rightarrow>
             Inr (st \<lparr> active := filter (\<lambda>p. fst p \<noteq> snd ev) (active st),
                       inactive := insert slot (inactive st) \<rparr>))
      else
        (if inactive st \<noteq> {}
         then Inr (st \<lparr> active := insert_new (snd ev) (Min (inactive st)) (active st),
                        assigned := insert_new (snd ev) (Min (inactive st)) (assigned st),
                        inactive := inactive st - {Min (inactive st)} \<rparr>)
         else Inr (st \<lparr> active := insert_new (snd ev) (length (active st)) (active st),
                        assigned := insert_new (snd ev) (length (active st)) (assigned st) \<rparr>)))"

fun run_reg_ops :: "RegEvent list \<Rightarrow> Regs \<Rightarrow> error + Regs" where
  "run_reg_ops [] st = Inr st"
| "run_reg_ops (ev # evs) st = and_then (reg_step ev st) (run_reg_ops evs)"

definition resize :: "nat \<Rightarrow> 'a \<Rightarrow> 'a list \<Rightarrow> 'a list" where
  "resize n v xs = take n xs @ replicate (n - length xs) v"

fun store_slots :: "(nat \<times> nat) list \<Rightarrow> nat list \<Rightarrow> error + nat list" where
  "store_slots [] m = Inr m"
| "store_slots (p # ps) m = and_then (wr m (fst p) (snd p)) (store_slots ps)"

definition slot_ranges :: "Tape \<Rightarrow> error + Ranges" where
  "slot_ranges s = find_ranges (rev (st_t (cur s))) 0 [(0, (0, 0))]"

definition slot_regs :: "Tape \<Rightarrow> error + Regs" where
  "slot_regs s =
     and_then (slot_ranges s) (\<lambda>ranges.
       run_reg_ops (make_reg_ops ranges [])
         \<lparr> active = [], assigned = [], inactive = {} \<rparr>)"

definition assignSlots :: "Tape \<Rightarrow> error + Tape" where
  "assignSlots s =
     and_then (slot_regs s) (\<lambda>regs.
     and_then (store_slots (assigned regs) (resize (num_clauses s) 0 (st_m (cur s)))) (\<lambda>m.
       Inr (set_cur ((cur s) \<lparr> st_m := m \<rparr>) s)))"

subsection \<open>The constructor\<close>

text \<open>
  The constructor reads the list \<open>root.ordered()\<close> of tree nodes. The tree classes are not
  part of the sources at hand; a node is modelled by the members the constructor reads:
  its identity \<open>id()\<close> (an address, \<open>0\<close> for the null pointer), \<open>op\<close>, \<open>rank\<close>, the
  identities of \<open>lhs\<close> and \<open>rhs\<close> (\<open>0\<close> when absent), \<open>value\<close> and \<open>oracle\<close>.
\<close>

record Node =
  n_id :: nat
  n_op :: Opcode
  n_rank :: nat
  n_lhs :: nat
  n_rhs :: nat
  n_value :: real
  n_oracle :: "nat option"

text \<open>
  The state of the first loop: the provisional list \<open>tape_\<close>, the map \<open>ids\<close>, and the
  vectors \<open>constants\<close>, \<open>vars\<close> and \<open>oracles\<close>.
\<close>

record Flat =
  f_tape :: "Clause list"
  f_ids :: "(nat \<times> nat) list"
  f_constants :: "real list"
  f_vars :: "nat list"
  f_oracles :: "nat list"

definition ids_at :: "(nat \<times> nat) list \<Rightarrow> nat \<Rightarrow> error + nat" where
  "ids_at ids k = (case map_of ids k of None \<Rightarrow> Inl OutOfRange | Some v \<Rightarrow> Inr v)"

definition write_node :: "Node \<Rightarrow> Flat \<Rightarrow> error + Flat" where
  "write_node m st =
     (let i = length (f_ids st);
          st1 = st \<lparr> f_ids := insert_new (n_id m) i (f_ids st) \<rparr>
      in
        if n_rank m > 0 then
          and_then (ids_at (f_ids st1) (n_lhs m)) (\<lambda>l.
          and_then (ids_at (f_ids st1) (n_rhs m)) (\<lambda>r.
            Inr (st1 \<lparr> f_tape := \<lparr> c_op = n_op m, c_id = i, c_a = l, c_b = r \<rparr> # f_tape st1 \<rparr>)))
        else if n_op m = CONSTANT then
          Inr (st1 \<lparr> f_tape := \<lparr> c_op = n_op m, c_id = i,
                                  c_a = length (f_constants st1), c_b = 0 \<rparr> # f_tape st1,
                     f_constants := f_constants st1 @ [n_value m] \<rparr>)
        else if n_op m = VAR_FREE then
          Inr (st1 \<lparr> f_tape := \<lparr> c_op = n_op m, c_id = i,
                                  c_a = length (f_vars st1), c_b = 0 \<rparr> # f_tape st1,
                     f_vars := f_vars st1 @ [n_id m] \<rparr>)
        else if n_op m = ORACLE then
          (case n_oracle m of
             None \<Rightarrow> Inl AssertionFailed
           | Some orc \<Rightarrow>
               Inr (st1 \<lparr> f_tape := \<lparr> c_op = ORACLE, c_id = i,
                                       c_a = length (f_oracles st1), c_b = 0 \<rparr> # f_tape st1,
                          f_oracles := f_oracles st1 @ [orc] \<rparr>))
        else if n_op m = VAR_X \<or> n_op m = VAR_Y \<or> n_op m = VAR_Z then
          Inr (st1 \<lparr> f_tape := \<lparr> c_op = n_op m, c_id = i, c_a = 0, c_b = 0 \<rparr> # f_tape st1 \<rparr>)
        else Inl AssertionFailed)"

fun write_flat :: "Node list \<Rightarrow> Flat \<Rightarrow> error + Flat" where
  "write_flat [] st = Inr st"
| "write_flat (m # ms) st = and_then (write_node m st) (write_flat ms)"

definition Flat_init :: Flat where
  "Flat_init = \<lparr> f_tape = [], f_ids = [(0, 0)], f_constants = [], f_vars = [], f_oracles = [] \<rparr>"

definition Tape_new :: "Node list \<Rightarrow> error + Tape" where
  "Tape_new flat =
     and_then (write_flat flat Flat_init) (\<lambda>st.
     and_then (assignSlots
         \<lparr> constants = f_constants st, vars = f_vars st, oracles = f_oracles st,
           tapes = [Subtape_new \<lparr> st_t := f_tape st \<rparr>], tape = 0,
           num_clauses = length (f_ids st), disabled = [], remap = [] \<rparr>) (\<lambda>s.
       Inr (s \<lparr> disabled := resize (num_clauses s) False (disabled s),
                remap := resize (num_clauses s) 0 (remap s) \<rparr>)))"

section \<open>The simplex tree (libfive/src/render/brep/simplex/simplex_tree.cpp)\<close>

subsection \<open>Data model\<close>

text \<open>
  The state of a cell, \<open>Interval::State\<close>.
\<close>

datatype State = EMPTY | FILLED | AMBIGUOUS | UNKNOWN

text \<open>
  A \<open>SimplexLeafSubspace\<close>. The QEF accumulator and the vertex are floating-point data;
  of the accumulator the model keeps that it is a sum (a real number stands for the
  matrices), the vertex is left out. Subspace objects are shared between leaves, so they
  live in a heap, addressed by natural numbers, \<open>0\<close> being the null pointer.
\<close>

record Sub =
  inside :: bool
  index :: nat
  refcount :: int
  qef :: real

definition Sub_reset :: Sub where
  "Sub_reset = \<lparr> inside = False, index = 0, refcount = 0, qef = 0 \<rparr>"

text \<open>
  A \<open>SimplexLeaf\<close>: \<open>level\<close>, the \<open>tape\<close> handle (the identity of a shared Tape), and the
  array \<open>sub\<close> of \<open>3^N\<close> pointers to subspace objects.
\<close>

record Leaf =
  level :: nat
  l_tape :: "nat option"
  sub :: "nat list"

definition Leaf_reset :: "nat \<Rightarrow> Leaf" where
  "Leaf_reset N = \<lparr> level = 0, l_tape = None, sub = replicate (3 ^ N) 0 \<rparr>"

text \<open>
  A cell of the tree. The base class \<open>XTree\<close> is not part of the sources at hand; the
  model keeps the members that \<open>simplex_tree.cpp\<close> uses: \<open>type\<close>, \<open>leaf\<close> (\<open>None\<close> is the
  null pointer), the children (the empty list when all child pointers are null) and the
  counter \<open>pending\<close>. \<open>finished\<close> records that \<open>done()\<close> has been called.
\<close>

datatype SimplexTree =
  SimplexTree (type: State) (leaf: "Leaf option") (children: "SimplexTree list")
    (pending: int) (finished: bool)

definition set_type :: "State \<Rightarrow> SimplexTree \<Rightarrow> SimplexTree" where
  "set_type ty t = SimplexTree ty (leaf t) (children t) (pending t) (finished t)"

definition set_leaf :: "Leaf option \<Rightarrow> SimplexTree \<Rightarrow> SimplexTree" where
  "set_leaf lf t = SimplexTree (type t) lf (children t) (pending t) (finished t)"

definition set_children :: "SimplexTree list \<Rightarrow> SimplexTree \<Rightarrow> SimplexTree" where
  "set_children cs t = SimplexTree (type t) (leaf t) cs (pending t) (finished t)"

definition set_pending :: "int \<Rightarrow> SimplexTree \<Rightarrow> SimplexTree" where
  "set_pending n t = SimplexTree (type t) (leaf t) (children t) n (finished t)"

text \<open>
  Modelled from the spec: \<open>XTree::isBranch\<close> and \<open>XTree::done\<close>, which are not in the
  sources at hand. A cell is either a branch, with its child pointers set, or a leaf;
  \<open>done\<close> (here \<open>done_cell\<close>) finishes the cell.
\<close>

definition isBranch :: "SimplexTree \<Rightarrow> bool" where
  "isBranch t = (children t \<noteq> [])"

definition done_cell :: "SimplexTree \<Rightarrow> SimplexTree" where
  "done_cell t = SimplexTree (type t) (leaf t) (children t) (pending t) True"

subsection \<open>Object pools\<close>

text \<open>
  Modelled from the spec: the object pools (\<open>object_pool.hpp\<close> is not in the sources at
  hand). \<open>get\<close> hands out an object in its reset state, a pooled one when there is one and a
  new one otherwise; \<open>put\<close> returns an object to the pool. Subspace objects are addresses of
  the heap; of leaves and tree nodes, which are held by value, the pool keeps the count.
\<close>

record Pools =
  heap :: "nat \<Rightarrow> Sub"
  free_subs :: "nat list"
  next_sub :: nat
  free_leaves :: nat
  free_trees :: nat

definition get_sub :: "Pools \<Rightarrow> nat \<times> Pools" where
  "get_sub p =
     (case free_subs p of
        [] \<Rightarrow> (next_sub p, p \<lparr> heap := (heap p)(next_sub p := Sub_reset),
                                 next_sub := next_sub p + 1 \<rparr>)
      | a # as \<Rightarrow> (a, p \<lparr> heap := (heap p)(a := Sub_reset), free_subs := as \<rparr>))"

definition put_sub :: "nat \<Rightarrow> Pools \<Rightarrow> Pools" where
  "put_sub a p = p \<lparr> free_subs := a # free_subs p \<rparr>"

definition get_leaf :: "nat \<Rightarrow> Pools \<Rightarrow> Leaf \<times> Pools" where
  "get_leaf N p = (Leaf_reset N, p \<lparr> free_leaves := free_leaves p - 1 \<rparr>)"

definition put_leaf :: "Pools \<Rightarrow> Pools" where
  "put_leaf p = p \<lparr> free_leaves := free_leaves p + 1 \<rparr>"

definition put_tree :: "Pools \<Rightarrow> Pools" where
  "put_tree p = p \<lparr> free_trees := free_trees p + 1 \<rparr>"

definition upd_sub :: "nat \<Rightarrow> (Sub \<Rightarrow> Sub) \<Rightarrow> Pools \<Rightarrow> Pools" where
  "upd_sub a f p = p \<lparr> heap := (heap p)(a := f (heap p a)) \<rparr>"

subsection \<open>Releasing leaves and cells\<close>

text \<open>
  \<open>SimplexLeaf::releaseTo\<close>: every subspace loses one reference and goes back to the pool
  when none is left; then the leaf goes back.
\<close>

definition release_sub :: "nat \<Rightarrow> Pools \<Rightarrow> Pools" where
  "release_sub a p =
     (let p1 = upd_sub a (\<lambda>s. s \<lparr> refcount := refcount s - 1 \<rparr>) p
      in if refcount (heap p1 a) = 0 then put_sub a p1 else p1)"

definition Leaf_releaseTo :: "Leaf \<Rightarrow> Pools \<Rightarrow> Pools" where
  "Leaf_releaseTo lf p = put_leaf (fold release_sub (sub lf) p)"

text \<open>
  \<open>SimplexTree::releaseTo\<close>, and, modelled from the spec, \<open>XTree::releaseChildren\<close> (not in
  the sources at hand): every child is released and the child pointers are cleared.
\<close>

definition Tree_releaseTo :: "SimplexTree \<Rightarrow> Pools \<Rightarrow> Pools" where
  "Tree_releaseTo t p =
     put_tree (case leaf t of None \<Rightarrow> p | Some lf \<Rightarrow> Leaf_releaseTo lf p)"

definition releaseChildren :: "SimplexTree \<Rightarrow> Pools \<Rightarrow> SimplexTree \<times> Pools" where
  "releaseChildren t p = (set_children [] t, fold Tree_releaseTo (children t) p)"

subsection \<open>Placing the vertices of a leaf\<close>

text \<open>
  What the evaluators compute during one call is floating-point work on code that is not
  in the sources at hand. The model takes the results as given: the state of the interval
  result, the safety flag and the handle of the pushed tape (\<open>evalAndPush\<close>, \<open>isSafe\<close>),
  what the samples of a corner add to the QEF of its subspace, the largest residual
  error that the unrolled solver returns, and the sign that \<open>saveVertexSigns\<close> finds at the
  vertex of a subspace.
\<close>

record Eval =
  ev_state :: State
  ev_safe :: bool
  ev_pushed :: nat
  ev_sample :: "nat \<Rightarrow> real"
  ev_error :: real
  ev_inside :: "nat \<Rightarrow> bool"

text \<open>
  The first loop of \<open>findLeafVertices\<close>, for subspace \<open>i\<close>. \<open>check i\<close> is the subspace
  object that \<open>neighbors.check\<close> finds (\<open>c.first->sub[c.second.i]\<close>), if any. The state is
  the array \<open>sub\<close>, the array \<open>already_solved\<close> and the pools.
\<close>

definition borrow :: "(nat \<Rightarrow> nat option) \<Rightarrow> nat \<Rightarrow> nat list \<times> bool list \<times> Pools \<Rightarrow> nat list \<times> bool list \<times> Pools" where
  "borrow check i = (\<lambda>(sb, solved, p).
     case check i of
       Some a \<Rightarrow>
         (sb[i := a], solved[i := True],
          upd_sub a (\<lambda>s. s \<lparr> refcount := refcount s + 1 \<rparr>) p)
     | None \<Rightarrow>
         (sb[i := fst (get_sub p)], solved,
          upd_sub (fst (get_sub p)) (\<lambda>s. s \<lparr> refcount := refcount s + 1 \<rparr>) (snd (get_sub p))))"

text \<open>
  The corner loops: corner \<open>i\<close> belongs to subspace \<open>corner_sub i\<close>
  (\<open>CornerIndex(i).neighbor()\<close>, not in the sources at hand); unless that subspace was
  borrowed, the samples of the corner are added to its QEF.
\<close>

definition corner_qef :: "(nat \<Rightarrow> nat) \<Rightarrow> Eval \<Rightarrow> nat list \<Rightarrow> bool list \<Rightarrow> nat \<Rightarrow> Pools \<Rightarrow> Pools" where
  "corner_qef corner_sub ev sb solved i p =
     (if \<not> solved ! corner_sub i
      then upd_sub (sb ! corner_sub i) (\<lambda>s. s \<lparr> qef := qef s + ev_sample ev i \<rparr>) p
      else p)"

text \<open>\<open>saveVertexSigns\<close>, on the leaf \<open>lf\<close> of a cell of type \<open>ty\<close>.\<close>

definition save_sign :: "Eval \<Rightarrow> nat list \<Rightarrow> bool list \<Rightarrow> nat \<Rightarrow> Pools \<Rightarrow> Pools" where
  "save_sign ev sb solved i p =
     (if solved ! i then p
      else upd_sub (sb ! i) (\<lambda>s. s \<lparr> inside := ev_inside ev i \<rparr>) p)"

definition saveVertexSigns :: "nat \<Rightarrow> Eval \<Rightarrow> bool list \<Rightarrow> SimplexTree \<Rightarrow> Pools \<Rightarrow> error + Pools" where
  "saveVertexSigns N ev solved t p =
     (case leaf t of
        None \<Rightarrow> Inl AssertionFailed
      | Some lf \<Rightarrow>
          if type t \<noteq> AMBIGUOUS then Inl AssertionFailed
          else Inr (fold (save_sign ev (sub lf) solved) [0 ..< 3 ^ N] p))"

definition findLeafVertices ::
  "nat \<Rightarrow> (nat \<Rightarrow> nat) \<Rightarrow> Eval \<Rightarrow> (nat \<Rightarrow> nat option) \<Rightarrow> SimplexTree \<Rightarrow> Pools \<Rightarrow> error + SimplexTree \<times> Pools"
where
  "findLeafVertices N corner_sub ev check t p =
     (case leaf t of
        None \<Rightarrow> Inl AssertionFailed
      | Some lf \<Rightarrow>
          (case fold (borrow check) [0 ..< 3 ^ N] (sub lf, replicate (3 ^ N) False, p) of
             (sb, solved, p1) \<Rightarrow>
               let t1 = set_leaf (Some (lf \<lparr> sub := sb \<rparr>)) t;
                   p2 = fold (corner_qef corner_sub ev sb solved) [0 ..< 2 ^ N] p1
               in
                 if type t = AMBIGUOUS then
                   (case saveVertexSigns N ev solved t1 p2 of
                      Inl e \<Rightarrow> Inl e
                    | Inr p3 \<Rightarrow> Inr (t1, p3))
                 else if type t = FILLED \<or> type t = EMPTY then
                   Inr (t1, fold (\<lambda>a. upd_sub a (\<lambda>s. s \<lparr> inside := (type t = FILLED) \<rparr>)) sb p2)
                 else Inl AssertionFailed))"

text \<open>\<open>checkVertexSigns\<close>.\<close>

definition checkVertexSigns :: "SimplexTree \<Rightarrow> Pools \<Rightarrow> error + SimplexTree" where
  "checkVertexSigns t p =
     (case leaf t of
        None \<Rightarrow> Inl NullPointer
      | Some lf \<Rightarrow>
          let all_inside = list_all (\<lambda>a. inside (heap p a)) (sub lf);
              all_outside = list_all (\<lambda>a. \<not> inside (heap p a)) (sub lf)
          in
            if all_inside then
              (if all_outside then Inl AssertionFailed else Inr (set_type FILLED t))
            else if all_outside then Inr (set_type EMPTY t)
            else Inr (set_type AMBIGUOUS t))"

subsection \<open>evalInterval and evalLeaf\<close>

text \<open>
  \<open>evalInterval\<close> returns the cell, the pools and the handle that the caller recurses
  with. \<open>tape_h\<close> is the caller's handle \<open>tape\<close> and \<open>lvl\<close> is \<open>region.level\<close>.
\<close>

definition evalInterval ::
  "nat \<Rightarrow> (nat \<Rightarrow> nat) \<Rightarrow> Eval \<Rightarrow> nat \<Rightarrow> nat \<Rightarrow> SimplexTree \<Rightarrow> Pools \<Rightarrow> error + SimplexTree \<times> Pools \<times> nat"
where
  "evalInterval N corner_sub ev tape_h lvl t p =
     (let ty = (if \<not> ev_safe ev then AMBIGUOUS else ev_state ev);
          o_second = (if \<not> ev_safe ev then tape_h else ev_pushed ev);
          t1 = set_type ty t
      in
        if ty = FILLED \<or> ty = EMPTY then
          (case get_leaf N p of
             (lf, p1) \<Rightarrow>
               (case findLeafVertices N corner_sub ev (\<lambda>i. None)
                       (set_leaf (Some (lf \<lparr> level := lvl \<rparr>)) t1) p1 of
                  Inl e \<Rightarrow> Inl e
                | Inr (t2, p2) \<Rightarrow> Inr (done_cell t2, p2, o_second)))
        else Inr (t1, p, o_second))"

definition evalLeaf ::
  "nat \<Rightarrow> (nat \<Rightarrow> nat) \<Rightarrow> Eval \<Rightarrow> (nat \<Rightarrow> nat option) \<Rightarrow> nat \<Rightarrow> nat \<Rightarrow> SimplexTree \<Rightarrow> Pools \<Rightarrow> error + SimplexTree \<times> Pools"
where
  "evalLeaf N corner_sub ev check tape_h lvl t p =
     (case get_leaf N p of
        (lf, p1) \<Rightarrow>
          if lvl \<noteq> 0 then Inl AssertionFailed
          else
            (case findLeafVertices N corner_sub ev check
                    (set_type AMBIGUOUS (set_leaf (Some (lf \<lparr> l_tape := Some tape_h, level := lvl \<rparr>)) t)) p1 of
               Inl e \<Rightarrow> Inl e
             | Inr (t1, p2) \<Rightarrow>
                 (case checkVertexSigns t1 p2 of
                    Inl e \<Rightarrow> Inl e
                  | Inr t2 \<Rightarrow> Inr (done_cell t2, p2))))"

subsection \<open>The step of the build\<close>

text \<open>
  Modelled from the spec: the step that the build takes for one cell (section 4.6 of the
  spec; the loop of the workers, which calls \<open>evalInterval\<close> and \<open>evalLeaf\<close>, is not in the
  sources at hand). At level 0 the cell is evaluated as a leaf by \<open>evalLeaf\<close>,
  unconditionally: no interval is evaluated. At a level above 0 the interval prune
  \<open>evalInterval\<close> runs; a cell that it finds \<open>EMPTY\<close> or \<open>FILLED\<close> is a finished leaf, and
  any other cell is subdivided into \<open>2^N\<close> children, into which the build recurses one
  level down, with the handle that \<open>evalInterval\<close> returned. \<open>Recurse t p h l\<close> stands for
  that: the cell with its children, the pools, and the handle and the level that the
  children are built with. \<open>new\<close> is a cell as the constructor makes it.
\<close>

datatype Step = Done SimplexTree Pools | Recurse SimplexTree Pools nat nat

definition build_step ::
  "nat \<Rightarrow> (nat \<Rightarrow> nat) \<Rightarrow> Eval \<Rightarrow> (nat \<Rightarrow> nat option) \<Rightarrow> SimplexTree \<Rightarrow> nat \<Rightarrow> nat \<Rightarrow> SimplexTree \<Rightarrow> Pools
     \<Rightarrow> error + Step"
where
  "build_step N corner_sub ev check new tape_h lvl t p =
     (if lvl = 0 then
        (case evalLeaf N corner_sub ev check tape_h lvl t p of
           Inl e \<Rightarrow> Inl e
         | Inr (t', p') \<Rightarrow> Inr (Done t' p'))
      else
        (case evalInterval N corner_sub ev tape_h lvl t p of
           Inl e \<Rightarrow> Inl e
         | Inr (t', p', h) \<Rightarrow>
             if type t' = EMPTY \<or> type t' = FILLED then Inr (Done t' p')
             else Inr (Recurse (set_children (replicate (2 ^ N) new) t') p' h (lvl - 1))))"

subsection \<open>collectChildren\<close>

text \<open>
  The index classes \<open>NeighborIndex\<close> and \<open>CornerIndex\<close> are not in the sources at hand. The
  model takes what \<open>collectChildren\<close> reads of a subspace index as parameters: the bit masks
  \<open>fixed\<close>, \<open>floating\<close> and \<open>pos\<close>, and the index \<open>fromPosAndFloating\<close> builds.
\<close>

record Indexing =
  ix_fixed :: "nat \<Rightarrow> nat"
  ix_floating :: "nat \<Rightarrow> nat"
  ix_pos :: "nat \<Rightarrow> nat"
  ix_fromPosAndFloating :: "nat \<Rightarrow> nat \<Rightarrow> nat"
  ix_corner_sub :: "nat \<Rightarrow> nat"
  ix_isCorner :: "nat \<Rightarrow> bool"

text \<open>
  For child \<open>i\<close> and its subspace \<open>j\<close>: whether the subspace takes part in the sum, and the
  subspace of the parent that it is added to.
\<close>

definition valid_sub :: "nat \<Rightarrow> Indexing \<Rightarrow> nat \<Rightarrow> nat \<Rightarrow> bool" where
  "valid_sub N ix i j =
     list_all (\<lambda>d. bit (ix_fixed ix j) d \<longrightarrow> bit (ix_pos ix j) d \<or> \<not> bit i d) [0 ..< N]"

definition floating_out :: "nat \<Rightarrow> Indexing \<Rightarrow> nat \<Rightarrow> nat \<Rightarrow> nat" where
  "floating_out N ix i j =
     fold (\<lambda>d acc. if bit (ix_floating ix j) d \<or> bit (ix_pos ix j) d \<noteq> bit i d
                    then set_bit d acc else acc) [0 ..< N] 0"

definition pos_out :: "nat \<Rightarrow> Indexing \<Rightarrow> nat \<Rightarrow> nat \<Rightarrow> nat" where
  "pos_out N ix i j =
     fold (\<lambda>d acc. if bit (ix_floating ix j) d \<or> bit (ix_pos ix j) d \<noteq> bit i d
                    then acc
                    else (if bit (ix_pos ix j) d then set_bit d acc else acc)) [0 ..< N] 0"

definition target_sub :: "nat \<Rightarrow> Indexing \<Rightarrow> nat \<Rightarrow> nat \<Rightarrow> nat" where
  "target_sub N ix i j = ix_fromPosAndFloating ix (pos_out N ix i j) (floating_out N ix i j)"

text \<open>
  One step of the double loop that sums the QEFs: \<open>sb\<close> is the array \<open>sub\<close> of the parent's
  leaf and \<open>cs\<close> the children.
\<close>

definition add_child_qef ::
  "nat \<Rightarrow> Indexing \<Rightarrow> nat list \<Rightarrow> SimplexTree list \<Rightarrow> nat \<times> nat \<Rightarrow> Pools \<Rightarrow> error + Pools" where
  "add_child_qef N ix sb cs = (\<lambda>(i, j) p.
     case leaf (cs ! i) of
       None \<Rightarrow> Inl AssertionFailed
     | Some cl \<Rightarrow>
         if sub cl ! j = 0 then Inl AssertionFailed
         else if \<not> valid_sub N ix i j then Inr p
         else Inr (upd_sub (sb ! target_sub N ix i j)
                     (\<lambda>s. s \<lparr> qef := qef s + qef (heap p (sub cl ! j)) \<rparr>) p))"

fun sum_qefs ::
  "nat \<Rightarrow> Indexing \<Rightarrow> nat list \<Rightarrow> SimplexTree list \<Rightarrow> (nat \<times> nat) list \<Rightarrow> Pools \<Rightarrow> error + Pools" where
  "sum_qefs N ix sb cs [] p = Inr p"
| "sum_qefs N ix sb cs (ij # ijs) p =
     (case add_child_qef N ix sb cs ij p of
        Inl e \<Rightarrow> Inl e
      | Inr p1 \<Rightarrow> sum_qefs N ix sb cs ijs p1)"

definition alloc_sub :: "nat \<Rightarrow> nat list \<times> Pools \<Rightarrow> nat list \<times> Pools" where
  "alloc_sub i = (\<lambda>(sb, p). (sb[i := fst (get_sub p)], snd (get_sub p)))"

text \<open>
  \<open>collectChildren\<close> returns its boolean result, the cell and the pools. The children are
  read through \<open>2^N\<close> child pointers; a cell without children has null pointers there.
\<close>

definition collectChildren ::
  "nat \<Rightarrow> Indexing \<Rightarrow> Eval \<Rightarrow> nat \<Rightarrow> nat \<Rightarrow> real \<Rightarrow> SimplexTree \<Rightarrow> Pools \<Rightarrow> error + bool \<times> SimplexTree \<times> Pools"
where
  "collectChildren N ix ev tape_h lvl max_err t p =
     (if pending t \<noteq> 0 then Inr (False, set_pending (pending t - 1) t, p)
      else
        let t0 = set_pending (pending t - 1) t in
        if length (children t0) \<noteq> 2 ^ N then Inl NullPointer
        else if list_ex isBranch (children t0) then Inr (True, done_cell t0, p)
        else if leaf t0 \<noteq> None then Inl AssertionFailed
        else
          (case get_leaf N p of
             (lf, p1) \<Rightarrow>
               let lf1 = lf \<lparr> level := lvl, l_tape := Some tape_h \<rparr>;
                   all_empty = list_all (\<lambda>c. type c = EMPTY) (children t0);
                   all_full = list_all (\<lambda>c. type c = FILLED) (children t0);
                   ty = (if all_empty then EMPTY else if all_full then FILLED else AMBIGUOUS);
                   t1 = set_type ty (set_leaf (Some lf1) t0)
               in
                 if ty = EMPTY \<or> ty = FILLED then
                   (case releaseChildren t1 p1 of
                      (t2, p2) \<Rightarrow>
                        (case findLeafVertices N (ix_corner_sub ix) ev (\<lambda>i. None) t2 p2 of
                           Inl e \<Rightarrow> Inl e
                         | Inr (t3, p3) \<Rightarrow> Inr (True, done_cell t3, p3)))
                 else
                   (case fold alloc_sub [0 ..< 3 ^ N] (sub lf1, p1) of
                      (sb, p2) \<Rightarrow>
                        let t2 = set_leaf (Some (lf1 \<lparr> sub := sb \<rparr>)) t1 in
                        (case sum_qefs N ix sb (children t0)
                                (List.product [0 ..< 2 ^ N] [0 ..< 3 ^ N]) p2 of
                           Inl e \<Rightarrow> Inl e
                         | Inr p3 \<Rightarrow>
                             if ev_error ev < max_err then
                               (case saveVertexSigns N ev (replicate (3 ^ N) False) t2 p3 of
                                  Inl e \<Rightarrow> Inl e
                                | Inr p4 \<Rightarrow>
                                    (case checkVertexSigns t2 p4 of
                                       Inl e \<Rightarrow> Inl e
                                     | Inr t3 \<Rightarrow>
                                         (case releaseChildren t3 p4 of
                                            (t4, p5) \<Rightarrow> Inr (True, done_cell t4, p5))))
                             else
                               Inr (True, done_cell (set_leaf None t2),
                                    Leaf_releaseTo (lf1 \<lparr> sub := sb \<rparr>) p3)))))"


subsection \<open>assignIndices\<close>

text \<open>
  \<open>SimplexNeighbors\<close> is not part of the sources at hand. The model takes its three
  operations as parameters, over a type \<open>'n\<close> of neighbour tables: the empty table, \<open>push\<close>
  (the table of child \<open>i\<close> among the given children) and \<open>getIndex\<close>, which looks a subspace
  up in the neighbouring cells and so reads the \<open>index\<close> fields of the heap; it returns \<open>0\<close>
  when it finds nothing.
\<close>

record 'n Neighbors =
  nb_empty :: 'n
  nb_push :: "'n \<Rightarrow> nat \<Rightarrow> SimplexTree list \<Rightarrow> 'n"
  nb_getIndex :: "'n \<Rightarrow> (nat \<Rightarrow> Sub) \<Rightarrow> nat \<Rightarrow> nat"

text \<open>
  The state of the pass: the counter \<open>index\<close>, a 64-bit unsigned integer, and the heap of
  subspace objects. The model also keeps the list of the assignments to \<open>index\<close> fields that
  the pass has made, in the order of execution. An entry names the cell by its chain of
  \<open>parent_index\<close> values (nearest first, up to the cell the pass started from), the subspace
  \<open>i\<close>, the object \<open>sub[i]\<close>, the value, and which of the three assignments of the source
  it is: the one after the lookup in the neighbours of the cell itself, the one inside the
  loop over the ancestors (with the number of levels walked up), or the one from the
  counter. It also keeps what the two lookups had returned when the assignment was made:
  \<open>w_seen\<close> is \<open>n\<close> of the lookup in the neighbours of the cell itself, \<open>w_found\<close> is the index
  that the loop over the ancestors found, \<open>0\<close> when it found none or was not entered.
\<close>

datatype Origin = FromNeighbor | FromAncestor nat | Fresh

record Write =
  w_path :: "nat list"
  w_slot :: nat
  w_addr :: nat
  w_seen :: nat
  w_found :: nat
  w_origin :: Origin
  w_value :: nat

record Walk =
  counter :: nat
  w_heap :: "nat \<Rightarrow> Sub"
  writes :: "Write list"

definition set_index :: "Write \<Rightarrow> Walk \<Rightarrow> Walk" where
  "set_index w s =
     s \<lparr> w_heap := (w_heap s)(w_addr w := (w_heap s (w_addr w)) \<lparr> index := w_value w \<rparr>),
         writes := writes s @ [w] \<rparr>"

definition fresh_index :: "nat list \<Rightarrow> nat \<Rightarrow> nat \<Rightarrow> nat \<Rightarrow> nat \<Rightarrow> Walk \<Rightarrow> Walk" where
  "fresh_index up i a n n' s =
     (set_index \<lparr> w_path = up, w_slot = i, w_addr = a, w_seen = n, w_found = n',
                   w_origin = Fresh, w_value = counter s \<rparr> s)
       \<lparr> counter := (counter s + 1) mod 2 ^ 64 \<rparr>"

text \<open>
  The loop over the ancestors, for the corner \<open>i\<close> with position \<open>ps\<close>. \<open>up\<close> is the chain of
  \<open>parent_index\<close> values from \<open>target\<close> upwards; it is empty when \<open>target\<close> has no parent.
  \<open>below\<close> holds the entries of \<open>neighbor_stack\<close> under \<open>stack_index\<close>, the nearest first; when
  there is none, \<open>neighbor_stack.at\<close> throws. The result is the index found, or \<open>0\<close>, and the
  number of levels walked up.
\<close>

fun walk_up ::
  "('n \<Rightarrow> (nat \<Rightarrow> Sub) \<Rightarrow> nat \<Rightarrow> nat) \<Rightarrow> (nat \<Rightarrow> Sub) \<Rightarrow> nat \<Rightarrow> nat \<Rightarrow> nat list \<Rightarrow> 'n list \<Rightarrow> nat
     \<Rightarrow> error + nat \<times> nat" where
  "walk_up gi h i ps [] below k = Inr (0, k)"
| "walk_up gi h i ps (q # up) below k =
     (if q \<noteq> ps then Inr (0, k)
      else
        (case below of
           [] \<Rightarrow> Inl OutOfRange
         | nb # below' \<Rightarrow>
             if gi nb h i \<noteq> 0 then Inr (gi nb h i, k + 1)
             else walk_up gi h i ps up below' (k + 1)))"

text \<open>
  One round of the loop over the subspaces of a leaf, for subspace \<open>i\<close>. The array \<open>sub\<close> has
  \<open>3^N\<close> entries; an entry that the list does not have is a null pointer. \<open>nbrs\<close> is the last
  entry of \<open>neighbor_stack\<close> (\<open>neighbors\<close> in the source).
\<close>

definition sub_at :: "Leaf \<Rightarrow> nat \<Rightarrow> nat" where
  "sub_at lf i = (if i < length (sub lf) then sub lf ! i else 0)"

definition assign_slot ::
  "Indexing \<Rightarrow> 'n Neighbors \<Rightarrow> nat list \<Rightarrow> 'n \<Rightarrow> 'n list \<Rightarrow> Leaf \<Rightarrow> nat \<Rightarrow> Walk \<Rightarrow> error + Walk" where
  "assign_slot ix nb up nbrs below lf i s =
     (let a = sub_at lf i;
          n = nb_getIndex nb nbrs (w_heap s) i
      in
        if n \<noteq> 0 then
          (if a = 0 then Inl NullPointer
           else Inr (set_index \<lparr> w_path = up, w_slot = i, w_addr = a, w_seen = n, w_found = 0,
                                 w_origin = FromNeighbor, w_value = n \<rparr> s))
        else if ix_isCorner ix i then
          (case walk_up (nb_getIndex nb) (w_heap s) i (ix_pos ix i) up below 0 of
             Inl e \<Rightarrow> Inl e
           | Inr (n', k) \<Rightarrow>
               if a = 0 then Inl NullPointer
               else
                 let s1 = (if n' \<noteq> 0
                           then set_index \<lparr> w_path = up, w_slot = i, w_addr = a,
                                            w_seen = n, w_found = n',
                                            w_origin = FromAncestor k, w_value = n' \<rparr> s
                           else s)
                 in if index (w_heap s1 a) \<noteq> 0 then Inr s1 else Inr (fresh_index up i a n n' s1))
        else if a = 0 then Inl NullPointer
        else Inr (fresh_index up i a n 0 s))"

fun assign_slots ::
  "Indexing \<Rightarrow> 'n Neighbors \<Rightarrow> nat list \<Rightarrow> 'n \<Rightarrow> 'n list \<Rightarrow> Leaf \<Rightarrow> nat list \<Rightarrow> Walk \<Rightarrow> error + Walk" where
  "assign_slots ix nb up nbrs below lf [] s = Inr s"
| "assign_slots ix nb up nbrs below lf (i # is) s =
     (case assign_slot ix nb up nbrs below lf i s of
        Inl e \<Rightarrow> Inl e
      | Inr s1 \<Rightarrow> assign_slots ix nb up nbrs below lf is s1)"

text \<open>
  \<open>assignIndices(index, neighbor_stack)\<close>, here \<open>assignIndices_rec\<close>. \<open>up\<close> is the chain of
  \<open>parent_index\<close> values of the cell (modelled from the spec: child \<open>i\<close> of a cell has
  \<open>parent_index = i\<close>; the constructor of \<open>XTree\<close> is not in the sources at hand). \<open>stack\<close> is
  \<open>neighbor_stack\<close> with its last entry first; the entry pushed for a child is popped after
  the call, so the child is called with the longer stack and the loop goes on with the
  stack as it was. \<open>assign_children\<close> is the loop over the \<open>2^N\<close> child pointers, from child \<open>i\<close>
  on; a child that the list does not have is a null pointer.
\<close>

fun assignIndices_rec ::
  "nat \<Rightarrow> Indexing \<Rightarrow> 'n Neighbors \<Rightarrow> nat list \<Rightarrow> 'n list \<Rightarrow> SimplexTree \<Rightarrow> Walk \<Rightarrow> error + Walk"
and assign_children ::
  "nat \<Rightarrow> Indexing \<Rightarrow> 'n Neighbors \<Rightarrow> nat list \<Rightarrow> 'n list \<Rightarrow> SimplexTree list \<Rightarrow> nat \<Rightarrow> SimplexTree list
     \<Rightarrow> Walk \<Rightarrow> error + Walk"
where
  "assignIndices_rec N ix nb up stack (SimplexTree ty lf cs pd fin) s =
     (if cs \<noteq> [] then
        (if lf \<noteq> None then Inl AssertionFailed
         else assign_children N ix nb up stack cs 0 cs s)
      else
        (case stack of
           [] \<Rightarrow> Inl OutOfRange
         | nbrs # below \<Rightarrow>
             (case lf of
                None \<Rightarrow> Inl AssertionFailed
              | Some l \<Rightarrow> assign_slots ix nb up nbrs below l [0 ..< 3 ^ N] s)))"
| "assign_children N ix nb up stack all i [] s =
     (if 2 ^ N \<le> i then Inr s
      else (case stack of [] \<Rightarrow> Inl OutOfRange | nbrs # below \<Rightarrow> Inl NullPointer))"
| "assign_children N ix nb up stack all i (c # rest) s =
     (if 2 ^ N \<le> i then Inr s
      else
        (case stack of
           [] \<Rightarrow> Inl OutOfRange
         | nbrs # below \<Rightarrow>
             (case assignIndices_rec N ix nb (i # up) (nb_push nb nbrs i all # stack) c s of
                Inl e \<Rightarrow> Inl e
              | Inr s1 \<Rightarrow> assign_children N ix nb up stack all (i + 1) rest s1)))"

text \<open>
  \<open>assignIndices()\<close>: the counter starts at \<open>1\<close> and the stack holds the empty table. \<open>up0\<close> is
  the chain of \<open>parent_index\<close> values of the cell that the pass is started on; for the root
  of a tree it is empty.
\<close>

definition assignIndices ::
  "nat \<Rightarrow> Indexing \<Rightarrow> 'n Neighbors \<Rightarrow> nat list \<Rightarrow> SimplexTree \<Rightarrow> (nat \<Rightarrow> Sub) \<Rightarrow> error + Walk" where
  "assignIndices N ix nb up0 t h =
     assignIndices_rec N ix nb up0 [nb_empty nb] t \<lparr> counter = 1, w_heap = h, writes = [] \<rparr>"


section \<open>Invariants and specification predicates\<close>

subsection \<open>Well-formed tapes\<close>

definition decreasing :: "nat list \<Rightarrow> bool" where
  "decreasing r = (\<forall>i < length r. r ! i = 0 \<or> r ! i < i)"

definition clause_ok :: "nat \<Rightarrow> Clause \<Rightarrow> bool" where
  "clause_ok n c = (0 < c_id c \<and> c_id c < n \<and> c_a c < c_id c \<and> c_b c < c_id c)"

definition kept_operand :: "Classifier \<Rightarrow> Clause \<Rightarrow> nat" where
  "kept_operand fn c =
     (case fn (c_op c) (c_id c) (c_a c) (c_b c) of
        KEEP_A \<Rightarrow> c_a c | KEEP_B \<Rightarrow> c_b c | KEEP_BOTH \<Rightarrow> 0 | KEEP_ALWAYS \<Rightarrow> 0)"

definition clauses_ok :: "nat \<Rightarrow> Clause list \<Rightarrow> bool" where
  "clauses_ok n cs = (sorted_wrt (>) (map c_id cs) \<and> (\<forall>c \<in> set cs. clause_ok n c))"

definition rewritten :: "nat list \<Rightarrow> Clause \<Rightarrow> Clause \<Rightarrow> bool" where
  "rewritten r c c' =
     (c_op c' = c_op c \<and> c_id c' = c_id c \<and>
      (if c_op c = ORACLE then c_a c' = c_a c \<and> c_b c' = c_b c
       else follow r (c_a c) = Some (Inr (c_a c')) \<and> follow r (c_b c) = Some (Inr (c_b c'))))"

definition tape_inv :: "Tape \<Rightarrow> bool" where
  "tape_inv s =
     (tape s < length (tapes s)
      \<and> length (disabled s) = num_clauses s \<and> length (remap s) = num_clauses s
      \<and> decreasing (remap s)
      \<and> (\<forall>st \<in> set (tapes s). clauses_ok (num_clauses s) (st_t st))
      \<and> (\<forall>i < length (tapes s). 0 < i \<longrightarrow> st_t (tapes s ! i) = [] \<longrightarrow> dummy (tapes s ! i) \<noteq> 0)
      \<and> st_t (tapes s ! 0) \<noteq> []
      \<and> dummy (tapes s ! 0) = 0
      \<and> (\<forall>i < tape s. dummy (tapes s ! i) = 0))"

definition pushed_subtape :: "Tape \<Rightarrow> Clause list \<Rightarrow> Type \<Rightarrow> bool \<Rightarrow> Box \<Rightarrow> Subtape" where
  "pushed_subtape s cs t h r =
     (if tape s + 1 = length (tapes s) then Subtape_new else tapes s ! (tape s + 1))
       \<lparr> st_t := cs, st_type := t, dummy := (if h then 0 else 1), st_box := r \<rparr>"

definition pushed_tapes :: "Tape \<Rightarrow> Subtape \<Rightarrow> Subtape list" where
  "pushed_tapes s new =
     (if tape s + 1 = length (tapes s) then tapes s @ [new] else (tapes s)[tape s + 1 := new])"

fun ordered_from :: "nat set \<Rightarrow> Node list \<Rightarrow> bool" where
  "ordered_from seen [] = True"
| "ordered_from seen (m # ms) =
     (n_id m \<notin> seen \<and> n_lhs m \<in> seen \<and> n_rhs m \<in> seen
      \<and> ordered_from (insert (n_id m) seen) ms)"

definition ordered_flat :: "Node list \<Rightarrow> bool" where
  "ordered_flat flat = (flat \<noteq> [] \<and> ordered_from {0} flat)"

definition flat_inv :: "Flat \<Rightarrow> bool" where
  "flat_inv st =
     (f_ids st \<noteq> [] \<and> (\<forall>p \<in> set (f_ids st). snd p < length (f_ids st))
      \<and> length (f_constants st) < length (f_ids st)
      \<and> length (f_vars st) < length (f_ids st)
      \<and> length (f_oracles st) < length (f_ids st)
      \<and> clauses_ok (length (f_ids st)) (f_tape st))"

subsection \<open>Sequences of pushes and pops\<close>

text \<open>
  A caller's sequence of \<open>push\<close> and \<open>pop\<close> calls, run from a given Tape. The nesting
  depth of a sequence is the number of pushes not yet popped; \<open>max_depth d ops\<close> is the
  largest depth reached by \<open>ops\<close> when started at depth \<open>d\<close>.
\<close>

datatype Tape_op = Push Classifier Type Box | Pop

fun run :: "Tape_op list \<Rightarrow> Tape \<Rightarrow> (error + Tape) option" where
  "run [] s = Some (Inr s)"
| "run (Push fn t r # ops) s =
     (case push fn t r s of
        None \<Rightarrow> None
      | Some (Inl e) \<Rightarrow> Some (Inl e)
      | Some (Inr s') \<Rightarrow> run ops s')"
| "run (Pop # ops) s = (case pop s of Inl e \<Rightarrow> Some (Inl e) | Inr s' \<Rightarrow> run ops s')"

fun max_depth :: "nat \<Rightarrow> Tape_op list \<Rightarrow> nat" where
  "max_depth d [] = d"
| "max_depth d (Push fn t r # ops) = max d (max_depth (Suc d) ops)"
| "max_depth d (Pop # ops) = max d (max_depth (d - 1) ops)"

definition depth_of :: "Tape \<Rightarrow> nat" where
  "depth_of s = tape s + (dummy (cur s) - 1)"

subsection \<open>Order of the clauses\<close>

text \<open>
  \<open>operands_later cs\<close>: every clause of \<open>cs\<close> whose opcode has no dummy children has
  each operand field either \<open>0\<close> (the sentinel: no operand) or the id of a clause further
  along in \<open>cs\<close>. \<open>operands_earlier\<close> is the same with the operands before the clause.
  \<open>respects_dummy\<close> is the contract on classifiers stated in the comment of \<open>push\<close>:
  constants, free variables and oracles are answered with \<open>KEEP_BOTH\<close> or
  \<open>KEEP_ALWAYS\<close>.
\<close>

definition operand_in :: "nat \<Rightarrow> Clause list \<Rightarrow> bool" where
  "operand_in x cs = (x = 0 \<or> x \<in> c_id ` set cs)"

fun operands_later :: "Clause list \<Rightarrow> bool" where
  "operands_later [] = True"
| "operands_later (c # cs) =
     ((hasDummyChildren (c_op c) \<or> (operand_in (c_a c) cs \<and> operand_in (c_b c) cs))
      \<and> operands_later cs)"

definition operands_earlier :: "Clause list \<Rightarrow> bool" where
  "operands_earlier cs = operands_later (rev cs)"

definition respects_dummy :: "Classifier \<Rightarrow> bool" where
  "respects_dummy fn =
     (\<forall>opc i a b. hasDummyChildren opc \<longrightarrow> fn opc i a b = KEEP_BOTH \<or> fn opc i a b = KEEP_ALWAYS)"

fun ops_respect :: "Tape_op list \<Rightarrow> bool" where
  "ops_respect [] = True"
| "ops_respect (Push fn t r # ops) = (respects_dummy fn \<and> ops_respect ops)"
| "ops_respect (Pop # ops) = ops_respect ops"

definition closed_ops :: "Clause list \<Rightarrow> bool" where
  "closed_ops cs =
     (\<forall>c \<in> set cs. \<not> hasDummyChildren (c_op c) \<longrightarrow> operand_in (c_a c) cs \<and> operand_in (c_b c) cs)"

definition flat_closed :: "Flat \<Rightarrow> bool" where
  "flat_closed st =
     (closed_ops (f_tape st) \<and> snd ` set (f_ids st) \<subseteq> insert 0 (c_id ` set (f_tape st)))"

definition tape_closed :: "Tape \<Rightarrow> bool" where
  "tape_closed s = (\<forall>st \<in> set (tapes s). closed_ops (st_t st))"

definition resolved :: "bool list \<Rightarrow> Clause list \<Rightarrow> nat \<Rightarrow> bool" where
  "resolved d cs y = (y = 0 \<or> (y \<in> c_id ` set cs \<and> \<not> d ! y))"

subsection \<open>Register allocation\<close>

text \<open>
  \<open>regs_inv\<close> is the invariant of the walk over the LOAD/DROP tape: the active clauses
  hold pairwise different slots, no active slot is free, the active and the free slots
  together are the slots \<open>0, \<dots>, file_size - 1\<close>, and every active clause is recorded in
  \<open>assigned\<close> with its slot. \<open>loads_while i j evs\<close>: in \<open>evs\<close>, clause \<open>j\<close> is loaded
  before clause \<open>i\<close> is dropped; \<open>overlap_in i j evs\<close>: one of the two clauses is loaded
  and the other one is loaded before the first is dropped. Two ranges \<open>(first, second)\<close>
  overlap as closed intervals when they share a position, the end points included, and
  as half-open intervals when they share a position before either \<open>second\<close>.
\<close>

definition regs_inv :: "Regs \<Rightarrow> bool" where
  "regs_inv st =
     (distinct (map fst (active st)) \<and> distinct (map snd (active st))
      \<and> finite (inactive st)
      \<and> snd ` set (active st) \<inter> inactive st = {}
      \<and> snd ` set (active st) \<union> inactive st = {0 ..< length (active st) + card (inactive st)}
      \<and> distinct (map fst (assigned st))
      \<and> set (active st) \<subseteq> set (assigned st))"

definition is_load :: "RegEvent \<Rightarrow> nat \<Rightarrow> bool" where
  "is_load ev k = (snd ev = k \<and> snd (fst ev) = LOAD)"

definition is_drop :: "RegEvent \<Rightarrow> nat \<Rightarrow> bool" where
  "is_drop ev k = (snd ev = k \<and> snd (fst ev) = DROP)"

definition load_ids :: "RegEvent list \<Rightarrow> nat list" where
  "load_ids evs = map snd (filter (\<lambda>ev. snd ev \<noteq> 0 \<and> snd (fst ev) = LOAD) evs)"

fun loads_while :: "nat \<Rightarrow> nat \<Rightarrow> RegEvent list \<Rightarrow> bool" where
  "loads_while i j [] = False"
| "loads_while i j (ev # evs) =
     (if is_load ev j then True else if is_drop ev i then False else loads_while i j evs)"

fun overlap_in :: "nat \<Rightarrow> nat \<Rightarrow> RegEvent list \<Rightarrow> bool" where
  "overlap_in i j [] = False"
| "overlap_in i j (ev # evs) =
     (if is_load ev i then loads_while i j evs
      else if is_load ev j then loads_while j i evs
      else overlap_in i j evs)"

definition sorted_events :: "RegEvent list \<Rightarrow> bool" where
  "sorted_events evs = sorted_wrt (\<lambda>x y. \<not> key_less (fst y) (fst x)) evs"

definition events_of :: "Ranges \<Rightarrow> RegEvent set" where
  "events_of rs = (\<lambda>r. ((fst (snd r), LOAD), fst r)) ` set rs \<union> (\<lambda>r. ((snd (snd r), DROP), fst r)) ` set rs"

definition overlap_closed :: "nat \<times> nat \<Rightarrow> nat \<times> nat \<Rightarrow> bool" where
  "overlap_closed p q = (fst p \<le> snd q \<and> fst q \<le> snd p)"

definition overlap_halfopen :: "nat \<times> nat \<Rightarrow> nat \<times> nat \<Rightarrow> bool" where
  "overlap_halfopen p q = (fst p < snd q \<and> fst q < snd p)"

definition regs_init :: Regs where
  "regs_init = \<lparr> active = [], assigned = [], inactive = {} \<rparr>"

definition file_size :: "Regs \<Rightarrow> nat" where
  "file_size st = length (active st) + card (inactive st)"

text \<open>
  The live range of a clause, in the words of the claim. The clauses are taken in the
  order of evaluation (the reverse walk), numbered from \<open>0\<close>. A clause uses \<open>k\<close> when it is
  clause \<open>k\<close> itself, which writes the value, or when it reads clause \<open>k\<close> as an operand
  (the operand fields of \<open>CONSTANT\<close>, \<open>VAR_FREE\<close> and \<open>ORACLE\<close> are no clause ids).
  \<open>first_use\<close> and \<open>last_use\<close> are the first and the last position that uses \<open>k\<close>, and
  the live range is the pair \<open>(first_use, last_use + 1)\<close>. \<open>last_or\<close> is an auxiliary
  notion of the proofs.
\<close>

definition uses :: "Clause \<Rightarrow> nat \<Rightarrow> bool" where
  "uses c k = (c_id c = k \<or> (\<not> hasDummyChildren (c_op c) \<and> (c_a c = k \<or> c_b c = k)))"

fun use_positions :: "nat \<Rightarrow> Clause list \<Rightarrow> nat \<Rightarrow> nat list" where
  "use_positions i [] k = []"
| "use_positions i (c # cs) k = (if uses c k then [i] else []) @ use_positions (i + 1) cs k"

definition first_use :: "Clause list \<Rightarrow> nat \<Rightarrow> nat" where
  "first_use xs k = hd (use_positions 0 xs k)"

definition last_use :: "Clause list \<Rightarrow> nat \<Rightarrow> nat" where
  "last_use xs k = last (use_positions 0 xs k)"

definition live_range :: "Clause list \<Rightarrow> nat \<Rightarrow> nat \<times> nat" where
  "live_range xs k = (first_use xs k, last_use xs k + 1)"

definition last_or :: "nat \<Rightarrow> nat list \<Rightarrow> nat" where
  "last_or l ps = (if ps = [] then l else last ps + 1)"

subsection \<open>Example tapes\<close>

text \<open>
  The tape of \<open>min(x, y)\<close>, two classifiers, and a short sequence of calls.
\<close>

definition ex_x :: Node where
  "ex_x = \<lparr> n_id = 10, n_op = VAR_X, n_rank = 0, n_lhs = 0, n_rhs = 0, n_value = 0, n_oracle = None \<rparr>"

definition ex_y :: Node where
  "ex_y = \<lparr> n_id = 20, n_op = VAR_Y, n_rank = 0, n_lhs = 0, n_rhs = 0, n_value = 0, n_oracle = None \<rparr>"

definition ex_min :: Node where
  "ex_min = \<lparr> n_id = 30, n_op = OP_MIN, n_rank = 1, n_lhs = 10, n_rhs = 20, n_value = 0, n_oracle = None \<rparr>"

definition ex_flat :: "Node list" where
  "ex_flat = [ex_x, ex_y, ex_min]"

definition ex_tape :: Tape where
  "ex_tape = projr (Tape_new ex_flat)"

definition keep_a :: Classifier where
  "keep_a = (\<lambda>opc i a b. KEEP_A)"

definition keep_both :: Classifier where
  "keep_both = (\<lambda>opc i a b. KEEP_BOTH)"

definition unit_box :: Box where
  "unit_box = ((0, 1), (0, 1), (0, 1))"

definition ex_ops :: "Tape_op list" where
  "ex_ops = [Push keep_both INTERVAL unit_box, Push keep_a INTERVAL unit_box, Pop]"

definition ex_mid :: Tape where
  "ex_mid = projr (the (run ex_ops ex_tape))"









definition keep_min_a :: Classifier where
  "keep_min_a = (\<lambda>opc i a b. if opc = OP_MIN then KEEP_A else KEEP_ALWAYS)"

definition ex_ops3 :: "Tape_op list" where
  "ex_ops3 = [Push keep_min_a INTERVAL unit_box]"

definition ex_pruned :: Tape where
  "ex_pruned = projr (the (run ex_ops3 ex_tape))"

text \<open>
  The tape of \<open>-min(x, y)\<close>, and states of the register walk on it: before \<open>min\<close> is
  loaded, before the slot of \<open>x\<close> is dropped, and before the negation is loaded.
\<close>

definition ex_nmin_node :: Node where
  "ex_nmin_node = \<lparr> n_id = 60, n_op = OP_NEG, n_rank = 2, n_lhs = 30, n_rhs = 0, n_value = 0, n_oracle = None \<rparr>"

definition ex_nmin_flat :: "Node list" where
  "ex_nmin_flat = [ex_x, ex_y, ex_min, ex_nmin_node]"

definition ex_nmin :: Tape where
  "ex_nmin = projr (Tape_new ex_nmin_flat)"

definition ex_regs1 :: Regs where
  "ex_regs1 = \<lparr> active = [(1, 0), (2, 1)], assigned = [(1, 0), (2, 1)], inactive = {} \<rparr>"

definition ex_regs3 :: Regs where
  "ex_regs3 = \<lparr> active = [(1, 0), (2, 1), (3, 2)], assigned = [(1, 0), (2, 1), (3, 2)], inactive = {} \<rparr>"

definition ex_regs4 :: Regs where
  "ex_regs4 = \<lparr> active = [(3, 2)], assigned = [(1, 0), (2, 1), (3, 2)], inactive = {0, 1} \<rparr>"

section \<open>Properties of the simplex tree\<close>

subsection \<open>Signs and pool counters\<close>

text \<open>
  \<open>uniform_signs v lf p\<close>: every subspace of the leaf \<open>lf\<close> has the flag \<open>inside = v\<close>.
  \<open>has_leaf N t\<close>: the cell has a leaf, with \<open>3^N\<close> subspaces. \<open>signs_agree t p\<close>: if the
  cell has a leaf and is \<open>FILLED\<close>, all flags are true, and if it is \<open>EMPTY\<close>, all are false.
\<close>

definition uniform_signs :: "bool \<Rightarrow> Leaf \<Rightarrow> Pools \<Rightarrow> bool" where
  "uniform_signs v lf p = list_all (\<lambda>a. inside (heap p a) = v) (sub lf)"

definition has_leaf :: "nat \<Rightarrow> SimplexTree \<Rightarrow> bool" where
  "has_leaf N t = (case leaf t of None \<Rightarrow> False | Some lf \<Rightarrow> length (sub lf) = 3 ^ N)"

definition signs_agree :: "SimplexTree \<Rightarrow> Pools \<Rightarrow> bool" where
  "signs_agree t p =
     (case leaf t of
        None \<Rightarrow> True
      | Some lf \<Rightarrow>
          (type t = FILLED \<longrightarrow> uniform_signs True lf p)
          \<and> (type t = EMPTY \<longrightarrow> uniform_signs False lf p))"

text \<open>The number of pooled leaves and of pooled cells.\<close>

definition counts :: "Pools \<Rightarrow> nat \<times> nat" where
  "counts p = (free_leaves p, free_trees p)"

subsection \<open>Merging the leaves of the children\<close>

text \<open>
  The children that \<open>collectChildren\<close> can merge: each has a leaf with \<open>3^N\<close> non-null
  subspace pointers. \<open>live cs\<close> is the set of their subspace objects. \<open>pure_children\<close>:
  all children are \<open>EMPTY\<close>, or all are \<open>FILLED\<close>.
\<close>

definition leaves_ok :: "nat \<Rightarrow> SimplexTree list \<Rightarrow> bool" where
  "leaves_ok N cs =
     list_all (\<lambda>c. case leaf c of
                      None \<Rightarrow> False
                    | Some cl \<Rightarrow> length (sub cl) = 3 ^ N \<and> 0 \<notin> set (sub cl)) cs"

definition live :: "SimplexTree list \<Rightarrow> nat set" where
  "live cs = (\<Union>c \<in> set cs. case leaf c of None \<Rightarrow> {} | Some cl \<Rightarrow> set (sub cl))"

definition pure_children :: "SimplexTree list \<Rightarrow> bool" where
  "pure_children cs = (list_all (\<lambda>c. type c = EMPTY) cs \<or> list_all (\<lambda>c. type c = FILLED) cs)"

text \<open>
  A pool of subspace objects is in order, with respect to a set \<open>L\<close> of objects in use, when
  no object is pooled twice, no pooled object is in use, and every object at hand has been
  allocated (its address is below \<open>next_sub\<close>).
\<close>

definition pool_ok :: "nat set \<Rightarrow> Pools \<Rightarrow> bool" where
  "pool_ok L p =
     (distinct (free_subs p) \<and> set (free_subs p) \<inter> L = {}
      \<and> (\<forall>a \<in> set (free_subs p) \<union> L. a < next_sub p))"

text \<open>
  The subspace indices that \<open>fromPosAndFloating\<close> returns are indices of the array \<open>sub\<close>.
\<close>

definition targets_ok :: "nat \<Rightarrow> Indexing \<Rightarrow> bool" where
  "targets_ok N ix =
     list_all (\<lambda>(i, j). valid_sub N ix i j \<longrightarrow> target_sub N ix i j < 3 ^ N)
       (List.product [0 ..< 2 ^ N] [0 ..< 3 ^ N])"

text \<open>
  The sum that the merged leaf is to hold, as the comment in \<open>collectChildren\<close> describes it:
  the QEF of subspace \<open>k\<close> of the parent is the sum of the QEFs of the subspaces \<open>j\<close> of the
  children \<open>i\<close> that take part and are mapped to \<open>k\<close>.
\<close>

definition child_sub :: "SimplexTree list \<Rightarrow> nat \<Rightarrow> nat \<Rightarrow> nat" where
  "child_sub cs i j = (case leaf (cs ! i) of None \<Rightarrow> 0 | Some cl \<Rightarrow> sub cl ! j)"

definition contribution :: "nat \<Rightarrow> Indexing \<Rightarrow> SimplexTree list \<Rightarrow> Pools \<Rightarrow> nat \<Rightarrow> nat \<times> nat \<Rightarrow> real" where
  "contribution N ix cs p k =
     (\<lambda>(i, j). if valid_sub N ix i j \<and> target_sub N ix i j = k
               then qef (heap p (child_sub cs i j)) else 0)"

definition qef_sum :: "nat \<Rightarrow> Indexing \<Rightarrow> SimplexTree list \<Rightarrow> Pools \<Rightarrow> nat \<Rightarrow> real" where
  "qef_sum N ix cs p k =
     sum_list (map (contribution N ix cs p k) (List.product [0 ..< 2 ^ N] [0 ..< 3 ^ N]))"

text \<open>
  \<open>sign_type t p\<close>: the cell has a leaf and its type is the one that \<open>checkVertexSigns\<close>
  reads off the flags. \<open>merged N ix ev cs p t' p'\<close>: the leaf of \<open>t'\<close> consists of distinct
  subspace objects that hold, in the pools \<open>p'\<close>, the sums of the QEFs that the children \<open>cs\<close>
  had in \<open>p\<close>, and the signs that the evaluator finds.
\<close>

definition sign_type :: "SimplexTree \<Rightarrow> Pools \<Rightarrow> bool" where
  "sign_type t p =
     (case leaf t of
        None \<Rightarrow> False
      | Some lf \<Rightarrow>
          (type t = FILLED) = uniform_signs True lf p
          \<and> (type t = EMPTY) = uniform_signs False lf p
          \<and> (type t = FILLED \<or> type t = EMPTY \<or> type t = AMBIGUOUS))"

definition merged :: "nat \<Rightarrow> Indexing \<Rightarrow> Eval \<Rightarrow> SimplexTree list \<Rightarrow> Pools \<Rightarrow> SimplexTree \<Rightarrow> Pools \<Rightarrow> bool" where
  "merged N ix ev cs p t' p' =
     (case leaf t' of
        None \<Rightarrow> False
      | Some lf \<Rightarrow>
          distinct (sub lf)
          \<and> list_all (\<lambda>k. qef (heap p' (sub lf ! k)) = qef_sum N ix cs p k
                          \<and> inside (heap p' (sub lf ! k)) = ev_inside ev k) [0 ..< 3 ^ N])"

subsection \<open>Example cells\<close>

text \<open>
  An empty pool and a fresh cell; an evaluator whose interval result is \<open>FILLED\<close> but not
  safe, and the same with a safe result.
\<close>

definition ex_pools :: Pools where
  "ex_pools = \<lparr> heap = (\<lambda>a. Sub_reset), free_subs = [], next_sub = 1, free_leaves = 0, free_trees = 0 \<rparr>"

definition ex_cell :: SimplexTree where
  "ex_cell = SimplexTree UNKNOWN None [] 0 False"

definition ex_unsafe :: Eval where
  "ex_unsafe = \<lparr> ev_state = FILLED, ev_safe = False, ev_pushed = 2, ev_sample = (\<lambda>i. 1),
                 ev_error = 0, ev_inside = (\<lambda>i. True) \<rparr>"

definition ex_filled :: Eval where
  "ex_filled = ex_unsafe \<lparr> ev_safe := True \<rparr>"

text \<open>
  The subspaces of a one-dimensional cell: \<open>0\<close> is the low corner, \<open>1\<close> the high corner and
  \<open>2\<close> the interior.
\<close>

definition ex_ix :: Indexing where
  "ex_ix = \<lparr> ix_fixed = (\<lambda>j. if j < 2 then 1 else 0),
             ix_floating = (\<lambda>j. if j = 2 then 1 else 0),
             ix_pos = (\<lambda>j. if j = 1 then 1 else 0),
             ix_fromPosAndFloating = (\<lambda>ps fl. if fl = 1 then 2 else ps),
             ix_corner_sub = (\<lambda>i. i),
             ix_isCorner = (\<lambda>j. j < 2) \<rparr>"

text \<open>
  Leaf cells over the subspace objects \<open>1, 2, 3\<close> and \<open>4, 5, 6\<close>, a heap in which object
  \<open>a\<close> has the QEF \<open>a\<close>, and parents of two such cells.
\<close>

definition ex_lo :: SimplexTree where
  "ex_lo = SimplexTree EMPTY (Some \<lparr> level = 0, l_tape = Some 1, sub = [1, 2, 3] \<rparr>) [] 0 True"

definition ex_hi :: SimplexTree where
  "ex_hi = SimplexTree FILLED (Some \<lparr> level = 0, l_tape = Some 1, sub = [4, 5, 6] \<rparr>) [] 0 True"

definition ex_lo2 :: SimplexTree where
  "ex_lo2 = SimplexTree EMPTY (Some \<lparr> level = 0, l_tape = Some 1, sub = [4, 5, 6] \<rparr>) [] 0 True"

definition ex_heap :: "nat \<Rightarrow> Sub" where
  "ex_heap a = \<lparr> inside = (4 \<le> a), index = 0, refcount = 1, qef = real a \<rparr>"

definition ex_pools2 :: Pools where
  "ex_pools2 = \<lparr> heap = ex_heap, free_subs = [], next_sub = 7, free_leaves = 0, free_trees = 0 \<rparr>"

definition ex_parent :: SimplexTree where
  "ex_parent = SimplexTree AMBIGUOUS None [ex_lo, ex_hi] 0 False"

definition ex_parent_empty :: SimplexTree where
  "ex_parent_empty = SimplexTree AMBIGUOUS None [ex_lo, ex_lo2] 0 False"

text \<open>A cell one level higher, whose first child is a branch.\<close>

definition ex_grand :: SimplexTree where
  "ex_grand = SimplexTree AMBIGUOUS None [ex_parent, ex_lo] 0 False"

section \<open>Properties of the tape\<close>

subsection \<open>The loops of push\<close>

lemma mark_clause_disabled:
  assumes "c_id c < length d" "d ! c_id c"
  shows "mark_clause fn c (d, r, h) = Inr (d, r, h)"
  using assms by (simp add: mark_clause_def and_then_def rd_def)

lemma mark_clause_remapped:
  assumes "length d = n" "length r = n" "clause_ok n c" "\<not> d ! c_id c" "kept_operand fn c \<noteq> 0"
  shows "mark_clause fn c (d, r, h) =
           Inr (d[kept_operand fn c := False, c_id c := True], r[c_id c := kept_operand fn c], h)"
  using assms
  by (auto simp: mark_clause_def keep_switch_def and_then_def rd_def wr_def clause_ok_def
      kept_operand_def split: Keep.splits)

lemma list_update_same: "r ! i = v \<Longrightarrow> r[i := v] = r"
  by auto

lemma mark_clause_kept:
  assumes "length d = n" "length r = n" "clause_ok n c" "\<not> d ! c_id c" "kept_operand fn c = 0"
    "r ! c_id c = 0"
  shows "\<exists>d'. mark_clause fn c (d, r, h) =
           Inr (d', r, h \<or> fn (c_op c) (c_id c) (c_a c) (c_b c) = KEEP_BOTH)
         \<and> length d' = n \<and> \<not> d' ! c_id c
         \<and> (\<forall>i. d' ! i \<longrightarrow> d ! i)
         \<and> (\<forall>i. i \<noteq> 0 \<and> i \<noteq> c_a c \<and> i \<noteq> c_b c \<longrightarrow> d' ! i = d ! i)
         \<and> (\<not> hasDummyChildren (c_op c) \<longrightarrow> \<not> d' ! c_a c \<and> \<not> d' ! c_b c)"
  using assms
  apply (cases "fn (c_op c) (c_id c) (c_a c) (c_b c)")
  apply (auto simp: mark_clause_def keep_switch_def and_then_def rd_def wr_def clause_ok_def
      kept_operand_def nth_list_update list_update_same)
  done

lemma follow_terminates:
  assumes "decreasing r"
  shows "x < length r \<Longrightarrow> \<exists>y. follow r x = Some (Inr y) \<and> y \<le> x \<and> r ! y = 0"
proof (induction x rule: less_induct)
  case (less x)
  show ?case
  proof (cases "r ! x = 0")
    case True
    with less.prems show ?thesis by (subst follow.simps) simp
  next
    case False
    with assms less.prems have lt: "r ! x < x" by (auto simp: decreasing_def)
    with less.prems have "r ! x < length r" by simp
    from less.IH[OF lt this] obtain y where "follow r (r ! x) = Some (Inr y)" "y \<le> r ! x" "r ! y = 0"
      by blast
    with False lt less.prems show ?thesis by (subst follow.simps) auto
  qed
qed

lemma decreasing_update:
  "decreasing r \<Longrightarrow> v < i \<Longrightarrow> decreasing (r[i := v])"
  unfolding decreasing_def
proof (intro allI impI)
  fix j assume a: "\<forall>i<length r. r ! i = 0 \<or> r ! i < i" "v < i" "j < length (r[i := v])"
  show "r[i := v] ! j = 0 \<or> r[i := v] ! j < j"
  proof (cases "j = i")
    case True
    with a show ?thesis by simp
  next
    case False
    with a show ?thesis by simp
  qed
qed

lemma mark_all_basic:
  assumes "clauses_ok n cs" "length d = n" "length r = n" "decreasing r"
    "\<forall>c \<in> set cs. r ! c_id c = 0"
  shows "\<exists>d' r' h'. mark_all fn cs (d, r, h) = Inr (d', r', h')
      \<and> length d' = n \<and> length r' = n \<and> decreasing r'
      \<and> (\<forall>i. (\<forall>c \<in> set cs. c_id c < i) \<longrightarrow> d' ! i = d ! i \<and> r' ! i = r ! i)
      \<and> (\<forall>i. r ! i \<noteq> 0 \<longrightarrow> r' ! i = r ! i)
      \<and> (h' \<longrightarrow> h \<or> (\<exists>c \<in> set cs. \<not> d' ! c_id c))
      \<and> ((\<forall>c \<in> set cs. fn (c_op c) (c_id c) (c_a c) (c_b c) \<noteq> KEEP_BOTH) \<longrightarrow> h' = h)
      \<and> (\<forall>c \<in> set cs. r' ! c_id c = 0 \<or> r' ! c_id c = c_a c \<or> r' ! c_id c = c_b c)"
  using assms
proof (induction cs arbitrary: d r h)
  case Nil
  then show ?case by simp
next
  case (Cons c cs)
  have ok: "clause_ok n c" and oks: "clauses_ok n cs" and lt: "\<forall>c' \<in> set cs. c_id c' < c_id c"
    using Cons.prems(1) by (auto simp: clauses_ok_def)
  have r0: "r ! c_id c = 0" and rs0: "\<forall>c' \<in> set cs. r ! c_id c' = 0" using Cons.prems(5) by auto
  have step: "\<exists>d1 r1 h1. mark_clause fn c (d, r, h) = Inr (d1, r1, h1) \<and> length d1 = n \<and> length r1 = n
      \<and> decreasing r1 \<and> (\<forall>c' \<in> set cs. r1 ! c_id c' = 0)
      \<and> (\<forall>i. c_id c < i \<longrightarrow> d1 ! i = d ! i \<and> r1 ! i = r ! i)
      \<and> (\<forall>i. r ! i \<noteq> 0 \<longrightarrow> r1 ! i = r ! i)
      \<and> (h1 \<longrightarrow> h \<or> \<not> d1 ! c_id c)
      \<and> (fn (c_op c) (c_id c) (c_a c) (c_b c) \<noteq> KEEP_BOTH \<longrightarrow> h1 = h)
      \<and> (r1 ! c_id c = 0 \<or> r1 ! c_id c = c_a c \<or> r1 ! c_id c = c_b c)"
  proof (cases "d ! c_id c")
    case True
    then show ?thesis
      using mark_clause_disabled[of c d fn r h] ok Cons.prems rs0 r0 by (auto simp: clause_ok_def)
  next
    case en: False
    show ?thesis
    proof (cases "kept_operand fn c = 0")
      case True
      from mark_clause_kept[OF Cons.prems(2,3) ok en True r0, of h] obtain d' where
        "mark_clause fn c (d, r, h) = Inr (d', r, h \<or> fn (c_op c) (c_id c) (c_a c) (c_b c) = KEEP_BOTH)"
        "length d' = n" "\<not> d' ! c_id c"
        "\<forall>i. i \<noteq> 0 \<and> i \<noteq> c_a c \<and> i \<noteq> c_b c \<longrightarrow> d' ! i = d ! i" by blast
      then show ?thesis using Cons.prems rs0 r0 ok by (auto simp: clause_ok_def)
    next
      case False
      have klt: "kept_operand fn c < c_id c" using ok
        by (auto simp: kept_operand_def clause_ok_def split: Keep.splits)
      have "mark_clause fn c (d, r, h) =
           Inr (d[kept_operand fn c := False, c_id c := True], r[c_id c := kept_operand fn c], h)"
        by (rule mark_clause_remapped[OF Cons.prems(2,3) ok en False])
      moreover have "decreasing (r[c_id c := kept_operand fn c])"
        using decreasing_update[OF Cons.prems(4) klt] .
      moreover have "\<forall>c' \<in> set cs. (r[c_id c := kept_operand fn c]) ! c_id c' = 0"
        using rs0 lt by (auto simp: nth_list_update)
      moreover have "\<forall>i. r ! i \<noteq> 0 \<longrightarrow> (r[c_id c := kept_operand fn c]) ! i = r ! i"
        using r0 by (metis nth_list_update_neq)
      moreover have "kept_operand fn c = c_a c \<or> kept_operand fn c = c_b c"
        using False by (auto simp: kept_operand_def split: Keep.splits)
      ultimately show ?thesis using Cons.prems(2,3) klt ok
        by (auto simp: nth_list_update clause_ok_def)
    qed
  qed
  then obtain d1 r1 h1 where s1: "mark_clause fn c (d, r, h) = Inr (d1, r1, h1)"
    and l1: "length d1 = n" "length r1 = n" and dec1: "decreasing r1"
    and z1: "\<forall>c' \<in> set cs. r1 ! c_id c' = 0"
    and fr1: "\<forall>i. c_id c < i \<longrightarrow> d1 ! i = d ! i \<and> r1 ! i = r ! i"
    and nz1: "\<forall>i. r ! i \<noteq> 0 \<longrightarrow> r1 ! i = r ! i"
    and h1: "h1 \<longrightarrow> h \<or> \<not> d1 ! c_id c"
    and kb1: "fn (c_op c) (c_id c) (c_a c) (c_b c) \<noteq> KEEP_BOTH \<longrightarrow> h1 = h"
    and ab1: "r1 ! c_id c = 0 \<or> r1 ! c_id c = c_a c \<or> r1 ! c_id c = c_b c" by blast
  from Cons.IH[OF oks l1 dec1 z1, of h1] obtain d' r' h' where
    s2: "mark_all fn cs (d1, r1, h1) = Inr (d', r', h')" and l2: "length d' = n" "length r' = n"
    and dec2: "decreasing r'"
    and fr2: "\<forall>i. (\<forall>c \<in> set cs. c_id c < i) \<longrightarrow> d' ! i = d1 ! i \<and> r' ! i = r1 ! i"
    and nz2: "\<forall>i. r1 ! i \<noteq> 0 \<longrightarrow> r' ! i = r1 ! i"
    and h2: "h' \<longrightarrow> h1 \<or> (\<exists>c \<in> set cs. \<not> d' ! c_id c)"
    and kb2: "(\<forall>c \<in> set cs. fn (c_op c) (c_id c) (c_a c) (c_b c) \<noteq> KEEP_BOTH) \<longrightarrow> h' = h1"
    and ab2: "\<forall>c \<in> set cs. r' ! c_id c = 0 \<or> r' ! c_id c = c_a c \<or> r' ! c_id c = c_b c"
    by blast
  have dc: "d' ! c_id c = d1 ! c_id c" and rc: "r' ! c_id c = r1 ! c_id c" using fr2 lt by blast+
  have ab: "\<forall>c' \<in> set (c # cs). r' ! c_id c' = 0 \<or> r' ! c_id c' = c_a c' \<or> r' ! c_id c' = c_b c'"
    using ab1 ab2 rc by auto
  have "mark_all fn (c # cs) (d, r, h) = Inr (d', r', h')" using s1 s2 by (simp add: and_then_def)
  moreover have "\<forall>i. (\<forall>c' \<in> set (c # cs). c_id c' < i) \<longrightarrow> d' ! i = d ! i \<and> r' ! i = r ! i"
    using fr1 fr2 by auto
  moreover have "\<forall>i. r ! i \<noteq> 0 \<longrightarrow> r' ! i = r ! i" using nz1 nz2 by metis
  moreover have "h' \<longrightarrow> h \<or> (\<exists>c' \<in> set (c # cs). \<not> d' ! c_id c')" using h1 h2 dc by auto
  moreover have "(\<forall>c' \<in> set (c # cs). fn (c_op c') (c_id c') (c_a c') (c_b c') \<noteq> KEEP_BOTH) \<longrightarrow> h' = h"
    using kb1 kb2 by auto
  ultimately show ?case using l2 dec2 ab by blast
qed

lemma emit_ok:
  assumes "length d = n" "length r = n" "decreasing r" "\<forall>c \<in> set cs. clause_ok n c"
  shows "\<exists>cs'. emit d r cs = Some (Inr cs')
           \<and> list_all2 (rewritten r) (filter (\<lambda>c. \<not> d ! c_id c) cs) cs'"
  using assms(4)
proof (induction cs)
  case Nil
  then show ?case by simp
next
  case (Cons c cs)
  then obtain cs' where e: "emit d r cs = Some (Inr cs')"
    and l: "list_all2 (rewritten r) (filter (\<lambda>c. \<not> d ! c_id c) cs) cs'" by auto
  have ok: "clause_ok n c" using Cons.prems by simp
  then have rdc: "rd d (c_id c) = Inr (d ! c_id c)" using assms(1) by (simp add: rd_def clause_ok_def)
  have "c_a c < length r" "c_b c < length r" using ok assms(2) by (auto simp: clause_ok_def)
  then obtain ra rb where fa: "follow r (c_a c) = Some (Inr ra)" and fb: "follow r (c_b c) = Some (Inr rb)"
    using follow_terminates[OF assms(3)] by blast
  show ?case
  proof (cases "d ! c_id c")
    case True
    then show ?thesis using e l rdc by simp
  next
    case en: False
    show ?thesis
    proof (cases "c_op c = ORACLE")
      case True
      have "rewritten r c \<lparr> c_op = c_op c, c_id = c_id c, c_a = c_a c, c_b = c_b c \<rparr>"
        using True by (simp add: rewritten_def)
      then show ?thesis using en True e l rdc by (simp add: prepend_def)
    next
      case False
      have "rewritten r c \<lparr> c_op = c_op c, c_id = c_id c, c_a = ra, c_b = rb \<rparr>"
        using False fa fb by (simp add: rewritten_def)
      then show ?thesis using en False e l rdc fa fb by (simp add: prepend_def)
    qed
  qed
qed

lemma rewritten_ok:
  assumes "decreasing r" "length r = n" "clause_ok n c" "rewritten r c c'"
  shows "clause_ok n c'"
proof -
  have la: "c_a c < length r" and lb: "c_b c < length r" using assms by (auto simp: clause_ok_def)
  have "c_a c' \<le> c_a c \<and> c_b c' \<le> c_b c"
    using follow_terminates[OF assms(1) la] follow_terminates[OF assms(1) lb] assms(4)
    by (auto simp: rewritten_def split: if_splits)
  then show ?thesis using assms(3,4) by (auto simp: clause_ok_def rewritten_def)
qed

lemma emitted_ids:
  "list_all2 (rewritten r) xs cs' \<Longrightarrow> map c_id cs' = map c_id xs"
  by (induction rule: list_all2_induct) (auto simp: rewritten_def)

lemma emitted_clauses_ok:
  assumes "clauses_ok n cs" "decreasing r" "length r = n"
    "list_all2 (rewritten r) (filter P cs) cs'"
  shows "clauses_ok n cs'"
proof -
  have "map c_id cs' = map c_id (filter P cs)" using emitted_ids[OF assms(4)] .
  moreover have "sorted_wrt (>) (map c_id (filter P cs))"
    using assms(1) by (auto simp: clauses_ok_def sorted_wrt_map intro: sorted_wrt_filter)
  moreover have "\<forall>c' \<in> set cs'. clause_ok n c'"
  proof
    fix c' assume "c' \<in> set cs'"
    then obtain c where "c \<in> set (filter P cs)" "rewritten r c c'"
      using assms(4) by (metis in_set_conv_nth list_all2_conv_all_nth)
    then show "clause_ok n c'" using rewritten_ok[OF assms(2,3)] assms(1) by (auto simp: clauses_ok_def)
  qed
  ultimately show ?thesis by (simp add: clauses_ok_def)
qed

lemma push_dummy:
  "dummy (cur s) \<noteq> 0 \<Longrightarrow>
     push fn t r s = Some (Inr (set_cur ((cur s) \<lparr> dummy := dummy (cur s) + 1 \<rparr>) s))"
  by (simp add: push_def)

lemma push_walk:
  assumes inv: "tape_inv s" and nd: "dummy (cur s) = 0"
  shows "\<exists>d rm h cs.
      mark_all fn (st_t (cur s))
        ((replicate (length (disabled s)) True)[c_id (hd (st_t (cur s))) := False],
         replicate (length (remap s)) 0, False) = Inr (d, rm, h)
      \<and> length d = num_clauses s \<and> length rm = num_clauses s \<and> decreasing rm
      \<and> (\<forall>c \<in> set (st_t (cur s)). rm ! c_id c = 0 \<or> rm ! c_id c = c_a c \<or> rm ! c_id c = c_b c)
      \<and> ((\<forall>c \<in> set (st_t (cur s)). fn (c_op c) (c_id c) (c_a c) (c_b c) \<noteq> KEEP_BOTH) \<longrightarrow> \<not> h)
      \<and> emit d rm (st_t (cur s)) = Some (Inr cs)
      \<and> list_all2 (rewritten rm) (filter (\<lambda>c. \<not> d ! c_id c) (st_t (cur s))) cs
      \<and> (h \<longrightarrow> cs \<noteq> [])
      \<and> push fn t r s =
          Some (Inr (s \<lparr> tapes := pushed_tapes s (pushed_subtape s cs t h r),
                          tape := tape s + 1, disabled := d, remap := rm \<rparr>))"
proof -
  let ?n = "num_clauses s"
  let ?cs = "st_t (cur s)"
  have cin: "cur s \<in> set (tapes s)" using inv by (simp add: tape_inv_def cur_def)
  then have oks: "clauses_ok ?n ?cs" using inv by (simp add: tape_inv_def)
  have ne: "?cs \<noteq> []"
  proof (cases "tape s = 0")
    case True
    then show ?thesis using inv by (simp add: tape_inv_def cur_def)
  next
    case False
    then show ?thesis using inv nd unfolding tape_inv_def cur_def by blast
  qed
  then obtain c0 rest where c0: "?cs = c0 # rest" by (cases ?cs) auto
  have ok0: "clause_ok ?n c0" using oks c0 by (simp add: clauses_ok_def)
  let ?d0 = "(replicate (length (disabled s)) True)[c_id c0 := False]"
  let ?r0 = "replicate (length (remap s)) (0::nat)"
  have ld: "length ?d0 = ?n" and lr: "length ?r0 = ?n" using inv by (simp_all add: tape_inv_def)
  have dec0: "decreasing ?r0" by (simp add: decreasing_def)
  have z0: "\<forall>c \<in> set ?cs. ?r0 ! c_id c = 0"
    using oks inv by (auto simp: clauses_ok_def clause_ok_def tape_inv_def)
  from mark_all_basic[OF oks ld lr dec0 z0, of fn False] obtain d rm h where
    m: "mark_all fn ?cs (?d0, ?r0, False) = Inr (d, rm, h)"
    and l: "length d = ?n" "length rm = ?n" and dec: "decreasing rm"
    and hh: "h \<longrightarrow> False \<or> (\<exists>c \<in> set ?cs. \<not> d ! c_id c)"
    and kb: "(\<forall>c \<in> set ?cs. fn (c_op c) (c_id c) (c_a c) (c_b c) \<noteq> KEEP_BOTH) \<longrightarrow> h = False"
    and ab: "\<forall>c \<in> set ?cs. rm ! c_id c = 0 \<or> rm ! c_id c = c_a c \<or> rm ! c_id c = c_b c"
    by blast
  have cok: "\<forall>c \<in> set ?cs. clause_ok ?n c" using oks by (simp add: clauses_ok_def)
  from emit_ok[OF l dec cok] obtain cs where
    e: "emit d rm ?cs = Some (Inr cs)"
    and la: "list_all2 (rewritten rm) (filter (\<lambda>c. \<not> d ! c_id c) ?cs) cs" by blast
  have len: "length cs = length (filter (\<lambda>c. \<not> d ! c_id c) ?cs)"
    using la by (simp add: list_all2_lengthD)
  then have le: "length cs \<le> length ?cs" by (metis length_filter_le)
  have hne: "h \<longrightarrow> cs \<noteq> []"
  proof
    assume h
    then obtain c where "c \<in> set ?cs" "\<not> d ! c_id c" using hh by blast
    then have "filter (\<lambda>c. \<not> d ! c_id c) ?cs \<noteq> []" by (metis (mono_tags, lifting) filter_empty_conv)
    then show "cs \<noteq> []" using len by auto
  qed
  have w: "wr (replicate (length (disabled s)) True) (c_id c0) False = Inr ?d0"
    using ok0 inv by (simp add: wr_def clause_ok_def tape_inv_def)
  have "push fn t r s =
          Some (Inr (s \<lparr> tapes := pushed_tapes s (pushed_subtape s cs t h r),
                          tape := tape s + 1, disabled := d, remap := rm \<rparr>))"
    using nd c0 w m e le
    by (simp add: push_def and_then_def pushed_tapes_def pushed_subtape_def Let_def)
  then show ?thesis using m l dec kb e la hne c0 ab by auto
qed

lemma tape_inv_bump:
  assumes inv: "tape_inv s" and k: "k \<noteq> 0" and nb: "tape s \<noteq> 0"
  shows "tape_inv (set_cur ((cur s) \<lparr> dummy := k \<rparr>) s)"
proof -
  let ?new = "(cur s) \<lparr> dummy := k \<rparr>"
  have lt: "tape s < length (tapes s)" using inv by (simp add: tape_inv_def)
  have nth: "\<And>i. i < length (tapes s) \<Longrightarrow>
      (tapes s)[tape s := ?new] ! i = (if i = tape s then ?new else tapes s ! i)"
    by (simp add: nth_list_update)
  have "\<forall>st \<in> set ((tapes s)[tape s := ?new]). clauses_ok (num_clauses s) (st_t st)"
  proof
    fix st assume "st \<in> set ((tapes s)[tape s := ?new])"
    then have "st = ?new \<or> st \<in> set (tapes s)" by (metis insert_iff set_update_subset_insert subsetD)
    moreover have "cur s \<in> set (tapes s)" using lt by (simp add: cur_def)
    ultimately show "clauses_ok (num_clauses s) (st_t st)" using inv by (auto simp: tape_inv_def)
  qed
  then have a1: "\<forall>st \<in> set ((tapes s)[tape s := ?new]). clauses_ok (num_clauses s) (st_t st)" .
  have a2: "\<forall>i < length (tapes s). 0 < i \<longrightarrow> st_t ((tapes s)[tape s := ?new] ! i) = []
      \<longrightarrow> dummy ((tapes s)[tape s := ?new] ! i) \<noteq> 0"
  proof (intro allI impI)
    fix i assume i: "i < length (tapes s)" "0 < i" "st_t ((tapes s)[tape s := ?new] ! i) = []"
    show "dummy ((tapes s)[tape s := ?new] ! i) \<noteq> 0"
    proof (cases "i = tape s")
      case True
      then show ?thesis using nth[OF i(1)] k by simp
    next
      case False
      then show ?thesis using nth[OF i(1)] i inv by (auto simp: tape_inv_def)
    qed
  qed
  have a3: "st_t ((tapes s)[tape s := ?new] ! 0) \<noteq> []" "dummy ((tapes s)[tape s := ?new] ! 0) = 0"
    using nb inv by (auto simp: tape_inv_def)
  have a4: "\<forall>i < tape s. dummy ((tapes s)[tape s := ?new] ! i) = 0"
    using inv by (auto simp: tape_inv_def)
  show ?thesis unfolding tape_inv_def set_cur_def using inv a1 a2 a3 a4 lt
    by (simp add: tape_inv_def)
qed

lemma pop_cases:
  assumes "tape s \<noteq> 0"
  shows "pop s = Inr (if dummy (cur s) > 1 then set_cur ((cur s) \<lparr> dummy := dummy (cur s) - 1 \<rparr>) s
                      else s \<lparr> tape := tape s - 1 \<rparr>)"
  using assms by (simp add: pop_def)

lemma pop_inv:
  assumes inv: "tape_inv s" and p: "pop s = Inr s'"
  shows "tape_inv s'"
proof -
  have nb: "tape s \<noteq> 0" using p by (auto simp: pop_def split: if_splits)
  show ?thesis
  proof (cases "dummy (cur s) > 1")
    case True
    then have "s' = set_cur ((cur s) \<lparr> dummy := dummy (cur s) - 1 \<rparr>) s"
      using p nb by (simp add: pop_def)
    then show ?thesis using tape_inv_bump[OF inv _ nb, of "dummy (cur s) - 1"] True by simp
  next
    case False
    then have "s' = s \<lparr> tape := tape s - 1 \<rparr>" using p nb by (simp add: pop_def)
    then show ?thesis using inv nb by (auto simp: tape_inv_def)
  qed
qed

lemma push_inv_total:
  assumes inv: "tape_inv s"
  shows "\<exists>s'. push fn t r s = Some (Inr s') \<and> tape_inv s' \<and> num_clauses s' = num_clauses s"
proof (cases "dummy (cur s) = 0")
  case False
  have nb: "tape s \<noteq> 0"
  proof
    assume "tape s = 0"
    then show False using inv False by (simp add: tape_inv_def cur_def)
  qed
  show ?thesis using push_dummy[OF False] tape_inv_bump[OF inv _ nb, of "dummy (cur s) + 1"]
    by (simp add: set_cur_def)
next
  case nd: True
  from push_walk[OF inv nd, of fn t r] obtain d rm h cs where
    l: "length d = num_clauses s" "length rm = num_clauses s" and dec: "decreasing rm"
    and la: "list_all2 (rewritten rm) (filter (\<lambda>c. \<not> d ! c_id c) (st_t (cur s))) cs"
    and hne: "h \<longrightarrow> cs \<noteq> []"
    and p: "push fn t r s =
          Some (Inr (s \<lparr> tapes := pushed_tapes s (pushed_subtape s cs t h r),
                          tape := tape s + 1, disabled := d, remap := rm \<rparr>))" by blast
  let ?new = "pushed_subtape s cs t h r"
  let ?ts = "pushed_tapes s ?new"
  have lt: "tape s < length (tapes s)" using inv by (simp add: tape_inv_def)
  have cin: "cur s \<in> set (tapes s)" using lt by (simp add: cur_def)
  then have oks: "clauses_ok (num_clauses s) (st_t (cur s))" using inv by (simp add: tape_inv_def)
  have newt: "st_t ?new = cs" and newd: "dummy ?new = (if h then 0 else 1)"
    by (simp_all add: pushed_subtape_def)
  have newok: "clauses_ok (num_clauses s) (st_t ?new)"
    using emitted_clauses_ok[OF oks dec l(2) la] newt by simp
  have len: "tape s + 1 < length ?ts" using lt by (auto simp: pushed_tapes_def)
  have nth: "\<And>i. i < length ?ts \<Longrightarrow> ?ts ! i = (if i = tape s + 1 then ?new else tapes s ! i)"
    using lt by (auto simp: pushed_tapes_def nth_append nth_list_update)
  have lens: "length ?ts = (if tape s + 1 = length (tapes s) then length (tapes s) + 1 else length (tapes s))"
    by (simp add: pushed_tapes_def)
  have sub: "set ?ts \<subseteq> insert ?new (set (tapes s))"
    using set_update_subset_insert[of "tapes s" "tape s + 1" ?new] by (auto simp: pushed_tapes_def)
  have a1: "\<forall>st \<in> set ?ts. clauses_ok (num_clauses s) (st_t st)"
    using sub newok inv by (auto simp: tape_inv_def)
  have a2: "\<forall>i < length ?ts. 0 < i \<longrightarrow> st_t (?ts ! i) = [] \<longrightarrow> dummy (?ts ! i) \<noteq> 0"
  proof (intro allI impI)
    fix i assume i: "i < length ?ts" "0 < i" "st_t (?ts ! i) = []"
    show "dummy (?ts ! i) \<noteq> 0"
    proof (cases "i = tape s + 1")
      case True
      then show ?thesis using i nth[OF i(1)] newt newd hne by auto
    next
      case False
      then have "i < length (tapes s)" using i(1) lens by (auto split: if_splits)
      then show ?thesis using i nth[OF i(1)] False inv by (auto simp: tape_inv_def)
    qed
  qed
  have "0 < length ?ts" using len by (cases ?ts) auto
  then have "?ts ! 0 = tapes s ! 0" using nth[of 0] by simp
  then have a3: "st_t (?ts ! 0) \<noteq> []" "dummy (?ts ! 0) = 0"
    using inv by (simp_all add: tape_inv_def)
  have a4: "\<forall>i < tape s + 1. dummy (?ts ! i) = 0"
  proof (intro allI impI)
    fix i assume i: "i < tape s + 1"
    then have "?ts ! i = tapes s ! i" using nth[of i] len by auto
    moreover have "dummy (tapes s ! i) = 0"
    proof (cases "i = tape s")
      case True
      then show ?thesis using nd by (simp add: cur_def)
    next
      case False
      then show ?thesis using i inv by (auto simp: tape_inv_def)
    qed
    ultimately show "dummy (?ts ! i) = 0" by simp
  qed
  have "tape_inv (s \<lparr> tapes := ?ts, tape := tape s + 1, disabled := d, remap := rm \<rparr>)"
    unfolding tape_inv_def using len l dec a1 a2 a3 a4 by simp
  then show ?thesis using p by simp
qed

lemma clauses_ok_mono: "clauses_ok n cs \<Longrightarrow> n \<le> n' \<Longrightarrow> clauses_ok n' cs"
  by (auto simp: clauses_ok_def clause_ok_def)

lemma clauses_ok_Cons:
  assumes "clauses_ok n cs" "c_id c = n" "0 < n" "c_a c < n" "c_b c < n"
  shows "clauses_ok (Suc n) (c # cs)"
  using assms by (auto simp: clauses_ok_def clause_ok_def)

lemma map_of_snd_in: "map_of xs k = Some v \<Longrightarrow> v \<in> snd ` set xs"
  by (metis image_eqI map_of_SomeD snd_conv)

lemma write_node_inv:
  assumes inv: "flat_inv st" and fresh: "n_id m \<notin> fst ` set (f_ids st)"
    and l: "n_lhs m \<in> fst ` set (f_ids st)" and r: "n_rhs m \<in> fst ` set (f_ids st)"
    and w: "write_node m st = Inr st'"
  shows "flat_inv st' \<and> fst ` set (f_ids st') = insert (n_id m) (fst ` set (f_ids st))
         \<and> f_tape st' \<noteq> []"
proof -
  let ?i = "length (f_ids st)"
  have none: "map_of (f_ids st) (n_id m) = None" using fresh by (simp add: map_of_eq_None_iff)
  have ins: "insert_new (n_id m) ?i (f_ids st) = f_ids st @ [(n_id m, ?i)]"
    using none by (simp add: insert_new_def)
  have pos: "0 < ?i" using inv by (simp add: flat_inv_def)
  have ok: "clauses_ok ?i (f_tape st)" using inv by (simp add: flat_inv_def)
  have look: "\<And>k. k \<in> fst ` set (f_ids st) \<Longrightarrow>
      \<exists>v. ids_at (f_ids st @ [(n_id m, ?i)]) k = Inr v \<and> v < ?i"
  proof -
    fix k assume "k \<in> fst ` set (f_ids st)"
    then obtain v where v: "map_of (f_ids st) k = Some v"
      by (metis map_of_eq_None_iff not_Some_eq)
    then have "v \<in> snd ` set (f_ids st)" by (rule map_of_snd_in)
    then have "v < ?i" using inv by (auto simp: flat_inv_def)
    then show "\<exists>v. ids_at (f_ids st @ [(n_id m, ?i)]) k = Inr v \<and> v < ?i"
      using v by (auto simp: ids_at_def)
  qed
  obtain la where la: "ids_at (f_ids st @ [(n_id m, ?i)]) (n_lhs m) = Inr la" "la < ?i"
    using look[OF l] by blast
  obtain ra where ra: "ids_at (f_ids st @ [(n_id m, ?i)]) (n_rhs m) = Inr ra" "ra < ?i"
    using look[OF r] by blast
  have vals: "\<forall>p \<in> set (f_ids st @ [(n_id m, ?i)]). snd p < Suc ?i"
    using inv by (auto simp: flat_inv_def less_Suc_eq)
  have sz: "length (f_constants st) < ?i" "length (f_vars st) < ?i" "length (f_oracles st) < ?i"
    using inv by (simp_all add: flat_inv_def)
  obtain c where c: "f_tape st' = c # f_tape st" "c_id c = ?i" "c_a c < ?i" "c_b c < ?i"
    and ids: "f_ids st' = f_ids st @ [(n_id m, ?i)]"
    and sz': "length (f_constants st') \<le> Suc (length (f_constants st))"
      "length (f_vars st') \<le> Suc (length (f_vars st))"
      "length (f_oracles st') \<le> Suc (length (f_oracles st))"
    using w ins la ra pos sz
    by (auto simp: write_node_def Let_def and_then_def split: if_splits option.splits)
  have "clauses_ok (Suc ?i) (f_tape st')"
    using clauses_ok_Cons[OF ok c(2) pos c(3,4)] c(1) by simp
  then show ?thesis using ids vals c(1) sz sz' by (auto simp: flat_inv_def)
qed

lemma write_flat_inv:
  assumes "flat_inv st" "ordered_from (fst ` set (f_ids st)) ms" "write_flat ms st = Inr st'"
  shows "flat_inv st' \<and> (ms \<noteq> [] \<longrightarrow> f_tape st' \<noteq> [])
         \<and> (f_tape st \<noteq> [] \<longrightarrow> f_tape st' \<noteq> [])"
  using assms
proof (induction ms arbitrary: st)
  case Nil
  then show ?case by simp
next
  case (Cons m ms)
  from Cons.prems(3) obtain st1 where w1: "write_node m st = Inr st1"
    and w2: "write_flat ms st1 = Inr st'"
    by (auto simp: and_then_def split: sum.splits)
  have o: "n_id m \<notin> fst ` set (f_ids st)" "n_lhs m \<in> fst ` set (f_ids st)"
    "n_rhs m \<in> fst ` set (f_ids st)" "ordered_from (insert (n_id m) (fst ` set (f_ids st))) ms"
    using Cons.prems(2) by auto
  from write_node_inv[OF Cons.prems(1) o(1,2,3) w1]
  have i1: "flat_inv st1" and k1: "fst ` set (f_ids st1) = insert (n_id m) (fst ` set (f_ids st))"
    and t1: "f_tape st1 \<noteq> []" by auto
  from Cons.IH[OF i1 _ w2] o(4) k1 t1 show ?case by simp
qed

lemma Tape_new_inv:
  assumes of: "ordered_flat flat" and t: "Tape_new flat = Inr s"
  shows "tape_inv s \<and> tape s = 0 \<and> length (tapes s) = 1"
proof -
  from t obtain st m where w: "write_flat flat Flat_init = Inr st"
    and s: "s = \<lparr> constants = f_constants st, vars = f_vars st, oracles = f_oracles st,
           tapes = [Subtape_new \<lparr> st_t := f_tape st, st_m := m \<rparr>], tape = 0,
           num_clauses = length (f_ids st),
           disabled = resize (length (f_ids st)) False [],
           remap = resize (length (f_ids st)) 0 [] \<rparr>"
    by (auto simp: Tape_new_def assignSlots_def and_then_def cur_def set_cur_def
        split: sum.splits)
  have i0: "flat_inv Flat_init" by (simp add: flat_inv_def Flat_init_def clauses_ok_def)
  have ne: "flat \<noteq> []" using of by (simp add: ordered_flat_def)
  have o0: "ordered_from (fst ` set (f_ids Flat_init)) flat"
    using of by (simp add: ordered_flat_def Flat_init_def)
  from write_flat_inv[OF i0 o0 w] ne have "flat_inv st" "f_tape st \<noteq> []" by auto
  then show ?thesis unfolding s
    by (simp add: tape_inv_def flat_inv_def resize_def Subtape_new_def decreasing_def)
qed

subsection \<open>Shape of push and pop, runs\<close>

lemma push_shape:
  assumes inv: "tape_inv s"
  shows "\<exists>s'. push fn t r s = Some (Inr s') \<and> tape_inv s'
     \<and> (if dummy (cur s) \<noteq> 0
         then tape s' = tape s \<and> length (tapes s') = length (tapes s)
              \<and> cur s' = (cur s) \<lparr> dummy := dummy (cur s) + 1 \<rparr>
              \<and> disabled s' = disabled s \<and> remap s' = remap s
         else tape s' = tape s + 1 \<and> length (tapes s') = max (length (tapes s)) (tape s + 2)
              \<and> dummy (cur s') \<le> 1 \<and> tapes s' ! tape s = cur s
              \<and> emit (disabled s') (remap s') (st_t (cur s)) = Some (Inr (st_t (cur s')))
              \<and> ((\<forall>c \<in> set (st_t (cur s)). fn (c_op c) (c_id c) (c_a c) (c_b c) \<noteq> KEEP_BOTH)
                    \<longrightarrow> dummy (cur s') = 1)
              \<and> decreasing (remap s')
              \<and> (\<forall>c \<in> set (st_t (cur s)). remap s' ! c_id c = 0 \<or> remap s' ! c_id c = c_a c
                     \<or> remap s' ! c_id c = c_b c))"
proof -
  obtain s' where p: "push fn t r s = Some (Inr s')" and inv': "tape_inv s'"
    using push_inv_total[OF inv] by blast
  have lt: "tape s < length (tapes s)" using inv by (simp add: tape_inv_def)
  show ?thesis
  proof (cases "dummy (cur s) = 0")
    case False
    have "s' = set_cur ((cur s) \<lparr> dummy := dummy (cur s) + 1 \<rparr>) s"
      using push_dummy[OF False, of fn t r] p by simp
    then show ?thesis using p inv' False lt by (simp add: set_cur_def cur_def)
  next
    case nd: True
    from push_walk[OF inv nd, of fn t r] obtain d rm h cs where
      dec: "decreasing rm"
      and ab: "\<forall>c \<in> set (st_t (cur s)). rm ! c_id c = 0 \<or> rm ! c_id c = c_a c \<or> rm ! c_id c = c_b c"
      and kb: "(\<forall>c \<in> set (st_t (cur s)). fn (c_op c) (c_id c) (c_a c) (c_b c) \<noteq> KEEP_BOTH) \<longrightarrow> \<not> h"
      and e: "emit d rm (st_t (cur s)) = Some (Inr cs)"
      and p': "push fn t r s =
          Some (Inr (s \<lparr> tapes := pushed_tapes s (pushed_subtape s cs t h r),
                          tape := tape s + 1, disabled := d, remap := rm \<rparr>))" by blast
    have s': "s' = s \<lparr> tapes := pushed_tapes s (pushed_subtape s cs t h r),
                          tape := tape s + 1, disabled := d, remap := rm \<rparr>"
      using p p' by simp
    let ?new = "pushed_subtape s cs t h r"
    have c': "cur s' = ?new" using lt by (auto simp: s' cur_def pushed_tapes_def nth_append)
    have old: "tapes s' ! tape s = cur s"
      using lt by (auto simp: s' cur_def pushed_tapes_def nth_append)
    have len: "length (tapes s') = max (length (tapes s)) (tape s + 2)"
      using lt by (auto simp: s' pushed_tapes_def)
    have "st_t ?new = cs" "dummy ?new = (if h then 0 else 1)" by (simp_all add: pushed_subtape_def)
    then have f1: "st_t (cur s') = cs" and f2: "dummy (cur s') \<le> 1"
      and f3: "\<not> h \<longrightarrow> dummy (cur s') = 1" using c' by auto
    have f4: "disabled s' = d" "remap s' = rm" "tape s' = tape s + 1" by (simp_all add: s')
    show ?thesis using p inv' nd old len dec ab kb e f1 f2 f3 f4 by auto
  qed
qed

lemma max_depth_ge: "d \<le> max_depth d ops"
  by (induction d ops rule: max_depth.induct) auto

lemma pop_shape:
  assumes inv: "tape_inv s" and nb: "tape s \<noteq> 0"
  shows "\<exists>s'. pop s = Inr s' \<and> tape_inv s' \<and> length (tapes s') = length (tapes s)
     \<and> (if dummy (cur s) > 1
         then tape s' = tape s \<and> cur s' = (cur s) \<lparr> dummy := dummy (cur s) - 1 \<rparr>
         else tape s' = tape s - 1 \<and> tapes s' = tapes s)"
proof -
  have lt: "tape s < length (tapes s)" using inv by (simp add: tape_inv_def)
  obtain s' where p: "pop s = Inr s'" using pop_cases[OF nb] by blast
  then have "tape_inv s'" using pop_inv[OF inv] by blast
  then show ?thesis using p pop_cases[OF nb] lt by (auto simp: set_cur_def cur_def)
qed

lemma push_depth:
  assumes inv: "tape_inv s" and p: "push fn t r s = Some (Inr s')"
  shows "depth_of s' = Suc (depth_of s)"
proof -
  from push_shape[OF inv, of fn t r] p show ?thesis
    by (auto simp: depth_of_def split: if_splits)
qed

lemma pop_depth:
  assumes inv: "tape_inv s" and p: "pop s = Inr s'"
  shows "depth_of s' = depth_of s - 1"
proof -
  have nb: "tape s \<noteq> 0" using p by (auto simp: pop_def split: if_splits)
  have z: "dummy (tapes s ! (tape s - 1)) = 0" using inv nb by (simp add: tape_inv_def)
  from pop_shape[OF inv nb] p z show ?thesis
    by (auto simp: depth_of_def cur_def split: if_splits)
qed

lemma depth_zero: "tape_inv s \<Longrightarrow> depth_of s = 0 \<longleftrightarrow> tape s = 0"
  by (auto simp: depth_of_def tape_inv_def cur_def)

lemma run_inv:
  assumes "tape_inv s" "run ops s = Some (Inr s')"
  shows "tape_inv s' \<and> length (tapes s) \<le> length (tapes s')
         \<and> length (tapes s') \<le> max (length (tapes s)) (max_depth (depth_of s) ops + 1)"
  using assms
proof (induction ops arbitrary: s)
  case Nil
  then show ?case by simp
next
  case (Cons opn ops)
  show ?case
  proof (cases opn)
    case (Push fn t r)
    from push_shape[OF Cons.prems(1), of fn t r] obtain s1 where
      p: "push fn t r s = Some (Inr s1)" and i1: "tape_inv s1"
      and len: "length (tapes s1) = length (tapes s) \<or> length (tapes s1) = max (length (tapes s)) (tape s + 2) \<and> dummy (cur s) = 0"
      by (auto split: if_splits)
    have r1: "run ops s1 = Some (Inr s')" using Cons.prems(2) Push p by simp
    have d1: "depth_of s1 = Suc (depth_of s)" using push_depth[OF Cons.prems(1) p] .
    from Cons.IH[OF i1 r1] have ih: "tape_inv s'" "length (tapes s1) \<le> length (tapes s')"
      "length (tapes s') \<le> max (length (tapes s1)) (max_depth (Suc (depth_of s)) ops + 1)"
      using d1 by auto
    have "length (tapes s1) \<le> max (length (tapes s)) (max_depth (Suc (depth_of s)) ops + 1)"
    proof -
      have "Suc (depth_of s) \<le> max_depth (Suc (depth_of s)) ops" by (rule max_depth_ge)
      moreover have "dummy (cur s) = 0 \<Longrightarrow> depth_of s = tape s" by (simp add: depth_of_def)
      ultimately show ?thesis using len by auto
    qed
    then show ?thesis using ih len Push by auto
  next
    case Pop
    from Cons.prems(2) Pop obtain s1 where p: "pop s = Inr s1" and r1: "run ops s1 = Some (Inr s')"
      by (auto split: sum.splits)
    have nb: "tape s \<noteq> 0" using p by (auto simp: pop_def split: if_splits)
    from pop_shape[OF Cons.prems(1) nb] p have i1: "tape_inv s1"
      and len: "length (tapes s1) = length (tapes s)" by auto
    have d1: "depth_of s1 = depth_of s - 1" using pop_depth[OF Cons.prems(1) p] .
    from Cons.IH[OF i1 r1] show ?thesis using len d1 Pop by auto
  qed
qed

lemma ex_flat_ordered: "ordered_flat ex_flat"
  by (simp add: ordered_flat_def ex_flat_def ex_x_def ex_y_def ex_min_def)

lemma ex_tape_new: "Tape_new ex_flat = Inr ex_tape"
  by code_simp

lemma ex_run: "run ex_ops ex_tape = Some (Inr ex_mid)"
  by code_simp

lemma ex_run_nil: "run [] ex_tape = Some (Inr ex_tape)"
  by simp



lemma reachable_inv:
  assumes "ordered_flat flat" "Tape_new flat = Inr s0" "run ops s0 = Some (Inr s)"
  shows "tape_inv s"
  using run_inv[OF _ assms(3)] Tape_new_inv[OF assms(1,2)] by blast

lemma push_fresh:
  assumes "tape_inv s" "dummy (cur s) = 0"
  shows "\<exists>s'. push fn t r s = Some (Inr s') \<and> tape_inv s'
           \<and> tape s' = tape s + 1 \<and> length (tapes s') = max (length (tapes s)) (tape s + 2)
           \<and> dummy (cur s') \<le> 1 \<and> tapes s' ! tape s = cur s
           \<and> emit (disabled s') (remap s') (st_t (cur s)) = Some (Inr (st_t (cur s')))
           \<and> ((\<forall>c \<in> set (st_t (cur s)). fn (c_op c) (c_id c) (c_a c) (c_b c) \<noteq> KEEP_BOTH)
                 \<longrightarrow> dummy (cur s') = 1)
           \<and> (\<forall>c \<in> set (st_t (cur s)). remap s' ! c_id c = 0 \<or> remap s' ! c_id c = c_a c
                  \<or> remap s' ! c_id c = c_b c)"
  using push_shape[OF assms(1), of fn t r] assms(2) by simp blast


subsection \<open>Operands of the clauses of a Subtape\<close>

lemma closed_ops_tail:
  assumes "clauses_ok n (c # cs)" "closed_ops (c # cs)"
  shows "closed_ops cs"
    and "\<not> hasDummyChildren (c_op c) \<Longrightarrow> operand_in (c_a c) cs \<and> operand_in (c_b c) cs"
proof -
  have lt: "\<forall>c' \<in> set cs. c_id c' < c_id c" and ok: "\<forall>c' \<in> set (c # cs). clause_ok n c'"
    using assms(1) by (auto simp: clauses_ok_def)
  show "closed_ops cs"
    unfolding closed_ops_def
  proof (intro ballI impI)
    fix c' assume c': "c' \<in> set cs" "\<not> hasDummyChildren (c_op c')"
    then have "operand_in (c_a c') (c # cs)" "operand_in (c_b c') (c # cs)"
      using assms(2) by (auto simp: closed_ops_def)
    moreover have "c_a c' < c_id c" "c_b c' < c_id c"
      using lt ok c'(1) by (auto simp: clause_ok_def intro: less_trans)
    ultimately show "operand_in (c_a c') cs \<and> operand_in (c_b c') cs"
      by (auto simp: operand_in_def)
  qed
  show "\<not> hasDummyChildren (c_op c) \<Longrightarrow> operand_in (c_a c) cs \<and> operand_in (c_b c) cs"
  proof -
    assume "\<not> hasDummyChildren (c_op c)"
    then have "operand_in (c_a c) (c # cs)" "operand_in (c_b c) (c # cs)"
      using assms(2) by (auto simp: closed_ops_def)
    moreover have "c_a c < c_id c" "c_b c < c_id c" using ok by (auto simp: clause_ok_def)
    ultimately show ?thesis by (auto simp: operand_in_def)
  qed
qed

lemma closed_operands_later:
  "clauses_ok n cs \<Longrightarrow> closed_ops cs \<Longrightarrow> operands_later cs"
proof (induction cs)
  case Nil
  then show ?case by simp
next
  case (Cons c cs)
  have "clauses_ok n cs" using Cons.prems(1) by (auto simp: clauses_ok_def)
  then show ?case using Cons.IH closed_ops_tail[OF Cons.prems] by auto
qed

lemma write_node_closed:
  assumes cl: "flat_closed st" and fresh: "n_id m \<notin> fst ` set (f_ids st)"
    and w: "write_node m st = Inr st'"
  shows "flat_closed st'"
proof -
  let ?i = "length (f_ids st)"
  have none: "map_of (f_ids st) (n_id m) = None" using fresh by (simp add: map_of_eq_None_iff)
  have ins: "insert_new (n_id m) ?i (f_ids st) = f_ids st @ [(n_id m, ?i)]"
    using none by (simp add: insert_new_def)
  have vals: "\<And>k v. ids_at (f_ids st @ [(n_id m, ?i)]) k = Inr v \<Longrightarrow>
                v = ?i \<or> v = 0 \<or> v \<in> c_id ` set (f_tape st)"
  proof -
    fix k v assume "ids_at (f_ids st @ [(n_id m, ?i)]) k = Inr v"
    then have "map_of (f_ids st @ [(n_id m, ?i)]) k = Some v"
      by (auto simp: ids_at_def split: option.splits)
    then have "v \<in> snd ` set (f_ids st @ [(n_id m, ?i)])" by (rule map_of_snd_in)
    then show "v = ?i \<or> v = 0 \<or> v \<in> c_id ` set (f_tape st)"
      using cl by (auto simp: flat_closed_def)
  qed
  obtain c where c: "f_tape st' = c # f_tape st" "c_id c = ?i"
    "\<not> hasDummyChildren (c_op c) \<longrightarrow> operand_in (c_a c) (c # f_tape st) \<and> operand_in (c_b c) (c # f_tape st)"
    and ids: "f_ids st' = f_ids st @ [(n_id m, ?i)]"
    using w ins vals
    by (fastforce simp: write_node_def Let_def and_then_def operand_in_def hasDummyChildren_def
        split: if_splits option.splits sum.splits)
  have "closed_ops (c # f_tape st)"
    using c(3) cl by (auto simp: closed_ops_def flat_closed_def operand_in_def)
  then show ?thesis using c(1,2) ids cl by (auto simp: flat_closed_def)
qed

lemma write_flat_closed:
  assumes "flat_closed st" "ordered_from (fst ` set (f_ids st)) ms" "flat_inv st"
    "write_flat ms st = Inr st'"
  shows "flat_closed st'"
  using assms
proof (induction ms arbitrary: st)
  case Nil
  then show ?case by simp
next
  case (Cons m ms)
  from Cons.prems(4) obtain st1 where w1: "write_node m st = Inr st1"
    and w2: "write_flat ms st1 = Inr st'"
    by (auto simp: and_then_def split: sum.splits)
  have o: "n_id m \<notin> fst ` set (f_ids st)" "n_lhs m \<in> fst ` set (f_ids st)"
    "n_rhs m \<in> fst ` set (f_ids st)" "ordered_from (insert (n_id m) (fst ` set (f_ids st))) ms"
    using Cons.prems(2) by auto
  from write_node_inv[OF Cons.prems(3) o(1,2,3) w1]
  have i1: "flat_inv st1" and k1: "fst ` set (f_ids st1) = insert (n_id m) (fst ` set (f_ids st))"
    by auto
  have c1: "flat_closed st1" using write_node_closed[OF Cons.prems(1) o(1) w1] .
  show ?case using Cons.IH[OF c1 _ i1 w2] o(4) k1 by simp
qed

lemma Tape_new_closed:
  assumes of: "ordered_flat flat" and t: "Tape_new flat = Inr s"
  shows "tape_closed s"
proof -
  from t obtain st m where w: "write_flat flat Flat_init = Inr st"
    and s: "tapes s = [Subtape_new \<lparr> st_t := f_tape st, st_m := m \<rparr>]"
    by (auto simp: Tape_new_def assignSlots_def and_then_def cur_def set_cur_def
        split: sum.splits)
  have i0: "flat_inv Flat_init" by (simp add: flat_inv_def Flat_init_def clauses_ok_def)
  have c0: "flat_closed Flat_init" by (simp add: flat_closed_def Flat_init_def closed_ops_def)
  have o0: "ordered_from (fst ` set (f_ids Flat_init)) flat"
    using of by (simp add: ordered_flat_def Flat_init_def)
  from write_flat_closed[OF c0 o0 i0 w] show ?thesis
    by (simp add: tape_closed_def s flat_closed_def)
qed

lemma resolved_Cons: "resolved d cs y \<Longrightarrow> resolved d (c # cs) y"
  by (auto simp: resolved_def)

lemma follow_step: "x < length r \<Longrightarrow> r ! x \<noteq> 0 \<Longrightarrow> follow r x = follow r (r ! x)"
  by (subst follow.simps) simp

lemma follow_stop: "x < length r \<Longrightarrow> r ! x = 0 \<Longrightarrow> follow r x = Some (Inr x)"
  by (subst follow.simps) simp

lemma mark_all_closed:
  assumes "clauses_ok n cs" "closed_ops cs" "respects_dummy fn" "length d = n" "length r = n"
    "decreasing r" "\<forall>c \<in> set cs. r ! c_id c = 0" "0 < n"
    "mark_all fn cs (d, r, h) = Inr (d', r', h')"
  shows "(\<forall>x. operand_in x cs \<longrightarrow> (x = 0 \<or> \<not> d ! x) \<longrightarrow>
            (\<exists>y. follow r' x = Some (Inr y) \<and> resolved d' cs y))
       \<and> (\<forall>c \<in> set cs. \<not> d' ! c_id c \<longrightarrow> \<not> hasDummyChildren (c_op c) \<longrightarrow>
            (\<exists>y. follow r' (c_a c) = Some (Inr y) \<and> resolved d' cs y)
            \<and> (\<exists>y. follow r' (c_b c) = Some (Inr y) \<and> resolved d' cs y))"
  using assms
proof (induction cs arbitrary: d r h)
  case Nil
  from Nil.prems have "r' = r" "length r = n" "decreasing r" "0 < n" by auto
  then have "r' ! 0 = 0" "0 < length r'" by (auto simp: decreasing_def)
  then have "follow r' 0 = Some (Inr 0)" by (simp add: follow_stop)
  then show ?case by (auto simp: operand_in_def resolved_def)
next
  case (Cons c cs)
  have ok: "clause_ok n c" and oks: "clauses_ok n cs" and lt: "\<forall>c' \<in> set cs. c_id c' < c_id c"
    using Cons.prems(1) by (auto simp: clauses_ok_def)
  have cl: "closed_ops cs"
    and opc: "\<not> hasDummyChildren (c_op c) \<Longrightarrow> operand_in (c_a c) cs \<and> operand_in (c_b c) cs"
    using closed_ops_tail[OF Cons.prems(1,2)] by auto
  have r0: "r ! c_id c = 0" and rs0: "\<forall>c' \<in> set cs. r ! c_id c' = 0" using Cons.prems(7) by auto
  have cid: "c_id c < n" "0 < c_id c" using ok by (auto simp: clause_ok_def)
  from Cons.prems(9) obtain d1 r1 h1 where s1: "mark_clause fn c (d, r, h) = Inr (d1, r1, h1)"
    and s2: "mark_all fn cs (d1, r1, h1) = Inr (d', r', h')"
    by (auto simp: and_then_def split: sum.splits)
  \<comment> \<open>the three outcomes of the step\<close>
  have step: "length d1 = n \<and> length r1 = n \<and> decreasing r1 \<and> (\<forall>c' \<in> set cs. r1 ! c_id c' = 0)
      \<and> (\<forall>i. i \<noteq> c_id c \<longrightarrow> d1 ! i \<longrightarrow> d ! i)
      \<and> ((d ! c_id c \<and> d1 ! c_id c)
         \<or> (\<not> d ! c_id c \<and> \<not> d1 ! c_id c \<and> r1 ! c_id c = 0
             \<and> (\<not> hasDummyChildren (c_op c) \<longrightarrow> \<not> d1 ! c_a c \<and> \<not> d1 ! c_b c))
         \<or> (\<not> d ! c_id c \<and> d1 ! c_id c \<and> r1 ! c_id c \<noteq> 0 \<and> \<not> hasDummyChildren (c_op c)
             \<and> (r1 ! c_id c = c_a c \<or> r1 ! c_id c = c_b c) \<and> \<not> d1 ! (r1 ! c_id c)))"
  proof (cases "d ! c_id c")
    case True
    have "mark_clause fn c (d, r, h) = Inr (d, r, h)"
      using mark_clause_disabled[of c d fn r h] True cid Cons.prems(4) by simp
    then show ?thesis using s1 True Cons.prems rs0 by auto
  next
    case en: False
    show ?thesis
    proof (cases "kept_operand fn c = 0")
      case True
      from mark_clause_kept[OF Cons.prems(4,5) ok en True r0, of h] s1
      have "r1 = r" "length d1 = n" "\<not> d1 ! c_id c" "\<forall>i. d1 ! i \<longrightarrow> d ! i"
        "\<not> hasDummyChildren (c_op c) \<longrightarrow> \<not> d1 ! c_a c \<and> \<not> d1 ! c_b c" by auto
      then show ?thesis using en Cons.prems rs0 r0 by auto
    next
      case False
      let ?k = "kept_operand fn c"
      have klt: "?k < c_id c" using ok
        by (auto simp: kept_operand_def clause_ok_def split: Keep.splits)
      have kab: "?k = c_a c \<or> ?k = c_b c"
        using False by (auto simp: kept_operand_def split: Keep.splits)
      have nd: "\<not> hasDummyChildren (c_op c)"
      proof
        assume "hasDummyChildren (c_op c)"
        then have "fn (c_op c) (c_id c) (c_a c) (c_b c) = KEEP_BOTH
                 \<or> fn (c_op c) (c_id c) (c_a c) (c_b c) = KEEP_ALWAYS"
          using Cons.prems(3) by (simp add: respects_dummy_def)
        then show False using False by (auto simp: kept_operand_def)
      qed
      have eq: "d1 = d[?k := False, c_id c := True]" "r1 = r[c_id c := ?k]"
        using mark_clause_remapped[OF Cons.prems(4,5) ok en False, of h] s1 by auto
      have "decreasing r1" using decreasing_update[OF Cons.prems(6) klt] eq by simp
      moreover have "\<forall>c' \<in> set cs. r1 ! c_id c' = 0"
        using rs0 lt eq by (auto simp: nth_list_update)
      moreover have "\<forall>i. i \<noteq> c_id c \<longrightarrow> d1 ! i \<longrightarrow> d ! i"
        unfolding eq by (metis (full_types) length_list_update linorder_not_less nth_list_update_eq nth_list_update_neq list_update_beyond)
      moreover have "d1 ! c_id c" "r1 ! c_id c = ?k" "\<not> d1 ! ?k"
        using eq cid klt Cons.prems(4,5) by (auto simp: nth_list_update)
      ultimately show ?thesis using en False nd kab eq Cons.prems(4,5) by auto
    qed
  qed
  then have l1: "length d1 = n" "length r1 = n" and dec1: "decreasing r1"
    and z1: "\<forall>c' \<in> set cs. r1 ! c_id c' = 0"
    and mono: "\<forall>i. i \<noteq> c_id c \<longrightarrow> d1 ! i \<longrightarrow> d ! i" by auto
  from mark_all_basic[OF oks l1 dec1 z1, of fn h1] s2
  have l2: "length r' = n" and dec2: "decreasing r'"
    and fr: "\<forall>i. (\<forall>c \<in> set cs. c_id c < i) \<longrightarrow> d' ! i = d1 ! i \<and> r' ! i = r1 ! i"
    by auto
  have frc: "d' ! c_id c = d1 ! c_id c" "r' ! c_id c = r1 ! c_id c" using fr lt by auto
  note ih = Cons.IH[OF oks cl Cons.prems(3) l1 dec1 z1 Cons.prems(8) s2]
  have ih1: "\<And>x. operand_in x cs \<Longrightarrow> x = 0 \<or> \<not> d1 ! x \<Longrightarrow>
      \<exists>y. follow r' x = Some (Inr y) \<and> resolved d' (c # cs) y"
    using ih resolved_Cons by blast
  have ih2: "\<forall>c' \<in> set cs. \<not> d' ! c_id c' \<longrightarrow> \<not> hasDummyChildren (c_op c') \<longrightarrow>
            (\<exists>y. follow r' (c_a c') = Some (Inr y) \<and> resolved d' (c # cs) y)
            \<and> (\<exists>y. follow r' (c_b c') = Some (Inr y) \<and> resolved d' (c # cs) y)"
    using ih resolved_Cons by blast
  have g1: "\<forall>x. operand_in x (c # cs) \<longrightarrow> (x = 0 \<or> \<not> d ! x) \<longrightarrow>
            (\<exists>y. follow r' x = Some (Inr y) \<and> resolved d' (c # cs) y)"
  proof (intro allI impI)
    fix x assume x: "operand_in x (c # cs)" "x = 0 \<or> \<not> d ! x"
    show "\<exists>y. follow r' x = Some (Inr y) \<and> resolved d' (c # cs) y"
    proof (cases "x = c_id c")
      case False
      then have xin: "operand_in x cs" using x(1) by (auto simp: operand_in_def)
      have "x = 0 \<or> \<not> d1 ! x" using x(2) mono False by blast
      then show ?thesis using ih1[OF xin] by blast
    next
      case True
      then have en: "\<not> d ! c_id c" using x(2) cid by auto
      from step en have "(\<not> d1 ! c_id c \<and> r1 ! c_id c = 0)
         \<or> (r1 ! c_id c \<noteq> 0 \<and> \<not> hasDummyChildren (c_op c)
             \<and> (r1 ! c_id c = c_a c \<or> r1 ! c_id c = c_b c) \<and> \<not> d1 ! (r1 ! c_id c))" by auto
      then show ?thesis
      proof
        assume a: "\<not> d1 ! c_id c \<and> r1 ! c_id c = 0"
        then have "follow r' (c_id c) = Some (Inr (c_id c))"
          using frc cid l2 by (simp add: follow_stop)
        moreover have "resolved d' (c # cs) (c_id c)" using a frc by (simp add: resolved_def)
        ultimately show ?thesis using True by blast
      next
        assume a: "r1 ! c_id c \<noteq> 0 \<and> \<not> hasDummyChildren (c_op c)
             \<and> (r1 ! c_id c = c_a c \<or> r1 ! c_id c = c_b c) \<and> \<not> d1 ! (r1 ! c_id c)"
        let ?k = "r1 ! c_id c"
        have "operand_in ?k cs" using a opc by auto
        then obtain y where "follow r' ?k = Some (Inr y)" "resolved d' (c # cs) y"
          using ih1[of ?k] a by blast
        moreover have "follow r' (c_id c) = follow r' ?k"
          using follow_step[of "c_id c" r'] frc a cid l2 by simp
        ultimately show ?thesis using True by auto
      qed
    qed
  qed
  have g2: "\<not> d' ! c_id c \<longrightarrow> \<not> hasDummyChildren (c_op c) \<longrightarrow>
            (\<exists>y. follow r' (c_a c) = Some (Inr y) \<and> resolved d' (c # cs) y)
            \<and> (\<exists>y. follow r' (c_b c) = Some (Inr y) \<and> resolved d' (c # cs) y)"
  proof (intro impI)
    assume a: "\<not> d' ! c_id c" "\<not> hasDummyChildren (c_op c)"
    then have "\<not> d1 ! c_id c" using frc by simp
    then have "\<not> d1 ! c_a c \<and> \<not> d1 ! c_b c" using step a(2) by auto
    then show "(\<exists>y. follow r' (c_a c) = Some (Inr y) \<and> resolved d' (c # cs) y)
            \<and> (\<exists>y. follow r' (c_b c) = Some (Inr y) \<and> resolved d' (c # cs) y)"
      using ih1[of "c_a c"] ih1[of "c_b c"] opc[OF a(2)] by blast
  qed
  show ?case using g1 g2 ih2 by simp
qed

lemma emitted_closed:
  assumes oks: "clauses_ok n cs" and cl: "closed_ops cs" and rd: "respects_dummy fn"
    and l: "length d0 = n" "length r0 = n" and dec: "decreasing r0"
    and z: "\<forall>c \<in> set cs. r0 ! c_id c = 0" and n: "0 < n"
    and m: "mark_all fn cs (d0, r0, h0) = Inr (d, rm, h)"
    and la: "list_all2 (rewritten rm) (filter (\<lambda>c. \<not> d ! c_id c) cs) cs'"
  shows "closed_ops cs'"
  unfolding closed_ops_def
proof (intro ballI impI)
  fix c' assume c': "c' \<in> set cs'" "\<not> hasDummyChildren (c_op c')"
  from c'(1) la obtain c where c: "c \<in> set (filter (\<lambda>c. \<not> d ! c_id c) cs)" "rewritten rm c c'"
    by (metis in_set_conv_nth list_all2_conv_all_nth)
  then have cin: "c \<in> set cs" and en: "\<not> d ! c_id c" by auto
  have opeq: "c_op c' = c_op c" using c(2) by (simp add: rewritten_def)
  then have nd: "\<not> hasDummyChildren (c_op c)" using c'(2) by simp
  then have "c_op c \<noteq> ORACLE" by (auto simp: hasDummyChildren_def)
  then have fa: "follow rm (c_a c) = Some (Inr (c_a c'))" and fb: "follow rm (c_b c) = Some (Inr (c_b c'))"
    using c(2) by (auto simp: rewritten_def)
  from mark_all_closed[OF oks cl rd l dec z n m] cin en nd
  have "(\<exists>y. follow rm (c_a c) = Some (Inr y) \<and> resolved d cs y)
            \<and> (\<exists>y. follow rm (c_b c) = Some (Inr y) \<and> resolved d cs y)" by blast
  then have ra: "resolved d cs (c_a c')" and rb: "resolved d cs (c_b c')" using fa fb by auto
  have ids: "c_id ` set cs' = c_id ` set (filter (\<lambda>c. \<not> d ! c_id c) cs)"
    using emitted_ids[OF la] by (metis set_map)
  have "\<And>y. resolved d cs y \<Longrightarrow> operand_in y cs'"
    unfolding resolved_def operand_in_def ids by auto
  then show "operand_in (c_a c') cs' \<and> operand_in (c_b c') cs'" using ra rb by blast
qed

lemma push_closed:
  assumes inv: "tape_inv s" and cl: "tape_closed s" and rd: "respects_dummy fn"
    and p: "push fn t r s = Some (Inr s')"
  shows "tape_closed s'"
proof (cases "dummy (cur s) = 0")
  case False
  have "s' = set_cur ((cur s) \<lparr> dummy := dummy (cur s) + 1 \<rparr>) s"
    using push_dummy[OF False, of fn t r] p by simp
  moreover have "cur s \<in> set (tapes s)" using inv by (simp add: tape_inv_def cur_def)
  ultimately show ?thesis using cl
    by (auto simp: tape_closed_def set_cur_def dest!: set_update_subset_insert[THEN subsetD])
next
  case nd: True
  let ?cs = "st_t (cur s)"
  let ?d0 = "(replicate (length (disabled s)) True)[c_id (hd ?cs) := False]"
  let ?r0 = "replicate (length (remap s)) (0::nat)"
  from push_walk[OF inv nd, of fn t r] obtain d rm h cs where
    m: "mark_all fn ?cs (?d0, ?r0, False) = Inr (d, rm, h)"
    and la: "list_all2 (rewritten rm) (filter (\<lambda>c. \<not> d ! c_id c) ?cs) cs"
    and p': "push fn t r s =
          Some (Inr (s \<lparr> tapes := pushed_tapes s (pushed_subtape s cs t h r),
                          tape := tape s + 1, disabled := d, remap := rm \<rparr>))" by blast
  have cin: "cur s \<in> set (tapes s)" using inv by (simp add: tape_inv_def cur_def)
  then have oks: "clauses_ok (num_clauses s) ?cs" and clc: "closed_ops ?cs"
    using inv cl by (simp_all add: tape_inv_def tape_closed_def)
  have ld: "length ?d0 = num_clauses s" and lr: "length ?r0 = num_clauses s"
    using inv by (simp_all add: tape_inv_def)
  have dec0: "decreasing ?r0" by (simp add: decreasing_def)
  have z0: "\<forall>c \<in> set ?cs. ?r0 ! c_id c = 0"
    using oks inv by (auto simp: clauses_ok_def clause_ok_def tape_inv_def)
  have ne: "?cs \<noteq> []"
  proof (cases "tape s = 0")
    case True
    then show ?thesis using inv by (simp add: tape_inv_def cur_def)
  next
    case False
    then show ?thesis using inv nd unfolding tape_inv_def cur_def by blast
  qed
  then have n: "0 < num_clauses s" using oks by (cases ?cs) (auto simp: clauses_ok_def clause_ok_def)
  have new: "closed_ops cs" using emitted_closed[OF oks clc rd ld lr dec0 z0 n m la] .
  have "s' = s \<lparr> tapes := pushed_tapes s (pushed_subtape s cs t h r),
                          tape := tape s + 1, disabled := d, remap := rm \<rparr>" using p p' by simp
  then have s': "tapes s' = pushed_tapes s (pushed_subtape s cs t h r)" by simp
  have "set (tapes s') \<subseteq> insert (pushed_subtape s cs t h r) (set (tapes s))"
    unfolding s' using set_update_subset_insert[of "tapes s" "tape s + 1"]
    by (auto simp: pushed_tapes_def)
  moreover have "st_t (pushed_subtape s cs t h r) = cs" by (simp add: pushed_subtape_def)
  ultimately show ?thesis using cl new by (auto simp: tape_closed_def)
qed

lemma pop_closed:
  assumes inv: "tape_inv s" and cl: "tape_closed s" and p: "pop s = Inr s'"
  shows "tape_closed s'"
proof -
  have nb: "tape s \<noteq> 0" using p by (auto simp: pop_def split: if_splits)
  have cin: "cur s \<in> set (tapes s)" using inv by (simp add: tape_inv_def cur_def)
  show ?thesis using p cl cin pop_cases[OF nb]
    by (auto simp: tape_closed_def set_cur_def split: if_splits
        dest!: set_update_subset_insert[THEN subsetD])
qed

lemma run_closed:
  assumes "tape_inv s" "tape_closed s" "ops_respect ops" "run ops s = Some (Inr s')"
  shows "tape_closed s'"
  using assms
proof (induction ops arbitrary: s)
  case Nil
  then show ?case by simp
next
  case (Cons opn ops)
  show ?case
  proof (cases opn)
    case (Push fn t r)
    from Cons.prems(4) Push obtain s1 where p: "push fn t r s = Some (Inr s1)"
      and r1: "run ops s1 = Some (Inr s')"
      by (auto split: option.splits sum.splits)
    have i1: "tape_inv s1" using push_inv_total[OF Cons.prems(1), of fn t r] p by auto
    have rd: "respects_dummy fn" and rs: "ops_respect ops" using Cons.prems(3) Push by auto
    have c1: "tape_closed s1" using push_closed[OF Cons.prems(1,2) rd p] .
    show ?thesis using Cons.IH[OF i1 c1 rs r1] .
  next
    case Pop
    from Cons.prems(4) Pop obtain s1 where p: "pop s = Inr s1" and r1: "run ops s1 = Some (Inr s')"
      by (auto split: sum.splits)
    have i1: "tape_inv s1" using pop_inv[OF Cons.prems(1) p] .
    have c1: "tape_closed s1" using pop_closed[OF Cons.prems(1,2) p] .
    have rs: "ops_respect ops" using Cons.prems(3) Pop by auto
    show ?thesis using Cons.IH[OF i1 c1 rs r1] .
  qed
qed

lemma ex_run3: "run ex_ops3 ex_tape = Some (Inr ex_pruned)"
  by code_simp

lemma ex_ops3_respect: "ops_respect ex_ops3"
  by (simp add: ex_ops3_def respects_dummy_def keep_min_a_def hasDummyChildren_def)

subsection \<open>The walk over the LOAD/DROP tape\<close>

lemma insert_new_fresh: "k \<notin> fst ` set m \<Longrightarrow> insert_new k v m = m @ [(k, v)]"
proof -
  assume "k \<notin> fst ` set m"
  then have "map_of m k = None" by (simp add: map_of_eq_None_iff)
  then show ?thesis by (simp add: insert_new_def)
qed

lemma reg_step_skip: "snd ev = 0 \<Longrightarrow> reg_step ev st = Inr st"
  by (simp add: reg_step_def)

lemma reg_step_load:
  assumes inv: "regs_inv st" and ld: "is_load ev k" "k \<noteq> 0" and fresh: "k \<notin> fst ` set (assigned st)"
  shows "\<exists>c. reg_step ev st =
            Inr (st \<lparr> active := active st @ [(k, c)], assigned := assigned st @ [(k, c)],
                     inactive := inactive st - {c} \<rparr>)
          \<and> c \<notin> snd ` set (active st)
          \<and> c = (if inactive st \<noteq> {} then Min (inactive st) else length (active st))
          \<and> regs_inv (st \<lparr> active := active st @ [(k, c)], assigned := assigned st @ [(k, c)],
                     inactive := inactive st - {c} \<rparr>)"
proof -
  have fa: "k \<notin> fst ` set (active st)" using inv fresh by (auto simp: regs_inv_def)
  have op: "snd ev = k" "snd (fst ev) \<noteq> DROP" using ld by (auto simp: is_load_def)
  have fin: "finite (inactive st)" and disj: "snd ` set (active st) \<inter> inactive st = {}"
    and un: "snd ` set (active st) \<union> inactive st = {0 ..< length (active st) + card (inactive st)}"
    using inv by (auto simp: regs_inv_def)
  show ?thesis
  proof (cases "inactive st = {}")
    case True
    let ?c = "length (active st)"
    have ran: "snd ` set (active st) = {0 ..< ?c}" using un True by simp
    have step: "reg_step ev st =
            Inr (st \<lparr> active := active st @ [(k, ?c)], assigned := assigned st @ [(k, ?c)],
                     inactive := inactive st - {?c} \<rparr>)"
      using True op ld(2) fa fresh by (simp add: reg_step_def insert_new_fresh)
    have nin: "?c \<notin> snd ` set (active st)" using ran by simp
    have "regs_inv (st \<lparr> active := active st @ [(k, ?c)], assigned := assigned st @ [(k, ?c)],
                     inactive := inactive st - {?c} \<rparr>)"
      using inv fa fresh nin True ran by (auto simp: regs_inv_def)
    then show ?thesis using step nin True by auto
  next
    case False
    let ?c = "Min (inactive st)"
    have cin: "?c \<in> inactive st" using fin False by simp
    have step: "reg_step ev st =
            Inr (st \<lparr> active := active st @ [(k, ?c)], assigned := assigned st @ [(k, ?c)],
                     inactive := inactive st - {?c} \<rparr>)"
      using False op ld(2) fa fresh by (simp add: reg_step_def insert_new_fresh)
    have nin: "?c \<notin> snd ` set (active st)" using disj cin by auto
    have card: "card (inactive st - {?c}) = card (inactive st) - 1" "0 < card (inactive st)"
      using fin cin by (auto simp: card_gt_0_iff)
    have "snd ` set (active st @ [(k, ?c)]) \<union> (inactive st - {?c})
            = snd ` set (active st) \<union> inactive st" using cin by auto
    then have "regs_inv (st \<lparr> active := active st @ [(k, ?c)], assigned := assigned st @ [(k, ?c)],
                     inactive := inactive st - {?c} \<rparr>)"
      using inv fa fresh nin card un disj by (auto simp: regs_inv_def)
    then show ?thesis using step nin False by auto
  qed
qed

lemma filter_remove_key:
  assumes "distinct (map fst xs)" "(k, v) \<in> set xs"
  shows "\<exists>ys zs. xs = ys @ (k, v) # zs \<and> filter (\<lambda>p. fst p \<noteq> k) xs = ys @ zs"
proof -
  from assms(2) obtain ys zs where xs: "xs = ys @ (k, v) # zs" by (auto dest: split_list)
  then have "k \<notin> fst ` set ys" "k \<notin> fst ` set zs" using assms(1) by auto
  then have "filter (\<lambda>p. fst p \<noteq> k) ys = ys" "filter (\<lambda>p. fst p \<noteq> k) zs = zs"
    by (auto simp: filter_id_conv)
  then show ?thesis using xs by auto
qed

lemma reg_step_drop:
  assumes inv: "regs_inv st" and dr: "is_drop ev k" "k \<noteq> 0" and st: "reg_step ev st = Inr st'"
  shows "regs_inv st' \<and> assigned st' = assigned st
         \<and> set (active st') = {p \<in> set (active st). fst p \<noteq> k}
         \<and> (\<exists>slot. map_of (active st) k = Some slot \<and> slot \<in> inactive st')"
proof -
  have op: "snd ev = k" "snd (fst ev) = DROP" using dr by (auto simp: is_drop_def)
  from st op dr(2) obtain slot where m: "map_of (active st) k = Some slot"
    and s': "st' = st \<lparr> active := filter (\<lambda>p. fst p \<noteq> k) (active st),
                         inactive := insert slot (inactive st) \<rparr>"
    by (auto simp: reg_step_def split: option.splits)
  have kin: "(k, slot) \<in> set (active st)" using m by (rule map_of_SomeD)
  have d1: "distinct (map fst (active st))" and d2: "distinct (map snd (active st))"
    and fin: "finite (inactive st)" and disj: "snd ` set (active st) \<inter> inactive st = {}"
    and un: "snd ` set (active st) \<union> inactive st = {0 ..< length (active st) + card (inactive st)}"
    using inv by (auto simp: regs_inv_def)
  from filter_remove_key[OF d1 kin] obtain ys zs where
    xs: "active st = ys @ (k, slot) # zs" and f: "filter (\<lambda>p. fst p \<noteq> k) (active st) = ys @ zs"
    by blast
  have nin: "slot \<notin> inactive st" using disj kin by force
  have nran: "slot \<notin> snd ` set (ys @ zs)" using d2 xs by auto
  have "snd ` set (ys @ zs) \<union> insert slot (inactive st) = snd ` set (active st) \<union> inactive st"
    using xs by auto
  moreover have "length (ys @ zs) + card (insert slot (inactive st))
                 = length (active st) + card (inactive st)"
    using xs fin nin by simp
  ultimately have un': "snd ` set (ys @ zs) \<union> insert slot (inactive st)
      = {0 ..< length (ys @ zs) + card (insert slot (inactive st))}" using un by simp
  have disj': "snd ` set (ys @ zs) \<inter> insert slot (inactive st) = {}"
    using disj nran xs by auto
  have "regs_inv st'"
    unfolding regs_inv_def s' using inv f un' disj' d1 d2 xs fin
    by (auto simp: regs_inv_def)
  then show ?thesis using s' m by auto
qed

lemma event_cases:
  obtains (skip) "snd ev = 0"
  | (load) "snd ev \<noteq> 0" "is_load ev (snd ev)"
  | (drop) "snd ev \<noteq> 0" "is_drop ev (snd ev)"
  by (cases "snd (fst ev)") (auto simp: is_load_def is_drop_def)

lemma load_ids_Cons:
  "load_ids (ev # evs) = (if snd ev \<noteq> 0 \<and> snd (fst ev) = LOAD then snd ev # load_ids evs else load_ids evs)"
  by (simp add: load_ids_def)

lemma reg_step_general:
  assumes inv: "regs_inv st" and d: "distinct (load_ids (ev # evs))"
    and fr: "set (load_ids (ev # evs)) \<inter> fst ` set (assigned st) = {}"
    and st: "reg_step ev st = Inr st'"
  shows "regs_inv st' \<and> distinct (load_ids evs)
         \<and> set (load_ids evs) \<inter> fst ` set (assigned st') = {}
         \<and> set (assigned st) \<subseteq> set (assigned st')
         \<and> (\<forall>k. \<not> is_load ev k \<or> k = 0 \<longrightarrow> k \<notin> fst ` set (assigned st) \<longrightarrow> k \<notin> fst ` set (assigned st'))
         \<and> (\<forall>p \<in> set (active st). \<not> is_drop ev (fst p) \<longrightarrow> p \<in> set (active st'))"
proof (cases ev rule: event_cases)
  case skip
  then have "st' = st" using st by (simp add: reg_step_def)
  then show ?thesis using inv d fr by (auto simp: load_ids_Cons split: if_splits)
next
  case load
  then have l: "load_ids (ev # evs) = snd ev # load_ids evs"
    by (simp add: load_ids_Cons is_load_def)
  have fresh: "snd ev \<notin> fst ` set (assigned st)" using fr l by auto
  from reg_step_load[OF inv load(2,1) fresh] st obtain c where
    s': "st' = st \<lparr> active := active st @ [(snd ev, c)], assigned := assigned st @ [(snd ev, c)],
                     inactive := inactive st - {c} \<rparr>" and i': "regs_inv st'" by auto
  show ?thesis using i' d fr l load unfolding s' by (auto simp: is_load_def)
next
  case drop
  then have l: "load_ids (ev # evs) = load_ids evs"
    by (simp add: load_ids_Cons is_drop_def)
  from reg_step_drop[OF inv drop(2,1) st]
  have "regs_inv st'" "assigned st' = assigned st"
    "set (active st') = {p \<in> set (active st). fst p \<noteq> snd ev}" by auto
  then show ?thesis using d fr l drop by (auto simp: is_drop_def is_load_def)
qed

lemma run_reg_ops_keeps:
  assumes "regs_inv st" "distinct (load_ids evs)"
    "set (load_ids evs) \<inter> fst ` set (assigned st) = {}" "run_reg_ops evs st = Inr st'"
  shows "regs_inv st' \<and> set (assigned st) \<subseteq> set (assigned st')"
  using assms
proof (induction evs arbitrary: st)
  case Nil
  then show ?case by simp
next
  case (Cons ev evs)
  from Cons.prems(4) obtain st1 where s1: "reg_step ev st = Inr st1"
    and s2: "run_reg_ops evs st1 = Inr st'" by (auto simp: and_then_def split: sum.splits)
  from reg_step_general[OF Cons.prems(1,2,3) s1]
  have i1: "regs_inv st1" and d1: "distinct (load_ids evs)"
    and f1: "set (load_ids evs) \<inter> fst ` set (assigned st1) = {}"
    and sub: "set (assigned st) \<subseteq> set (assigned st1)" by auto
  from Cons.IH[OF i1 d1 f1 s2] sub show ?case by auto
qed

lemma assigned_lookup:
  "regs_inv st \<Longrightarrow> (k, v) \<in> set (assigned st) \<Longrightarrow> map_of (assigned st) k = Some v"
  by (simp add: regs_inv_def)

lemma loads_while_differ:
  assumes "regs_inv st" "distinct (load_ids evs)"
    "set (load_ids evs) \<inter> fst ` set (assigned st) = {}" "run_reg_ops evs st = Inr st'"
    "(i, v) \<in> set (active st)" "j \<notin> fst ` set (assigned st)" "j \<noteq> 0" "loads_while i j evs"
  shows "\<exists>w. map_of (assigned st') i = Some v \<and> map_of (assigned st') j = Some w \<and> w \<noteq> v"
  using assms
proof (induction evs arbitrary: st)
  case Nil
  then show ?case by simp
next
  case (Cons ev evs)
  from Cons.prems(4) obtain st1 where s1: "reg_step ev st = Inr st1"
    and s2: "run_reg_ops evs st1 = Inr st'" by (auto simp: and_then_def split: sum.splits)
  from reg_step_general[OF Cons.prems(1,2,3) s1]
  have i1: "regs_inv st1" and d1: "distinct (load_ids evs)"
    and f1: "set (load_ids evs) \<inter> fst ` set (assigned st1) = {}"
    and sub: "set (assigned st) \<subseteq> set (assigned st1)"
    and keepj: "\<not> is_load ev j \<Longrightarrow> j \<notin> fst ` set (assigned st1)"
    and keepa: "\<not> is_drop ev i \<Longrightarrow> (i, v) \<in> set (active st1)"
    using Cons.prems(5,6) by auto
  from run_reg_ops_keeps[OF i1 d1 f1 s2] have i': "regs_inv st'"
    and sub': "set (assigned st1) \<subseteq> set (assigned st')" by auto
  have iv: "(i, v) \<in> set (assigned st)" using Cons.prems(1,5) by (auto simp: regs_inv_def)
  show ?case
  proof (cases "is_load ev j")
    case True
    from reg_step_load[OF Cons.prems(1) True Cons.prems(7,6)] s1 obtain c where
      c: "c \<notin> snd ` set (active st)" and a1: "assigned st1 = assigned st @ [(j, c)]" by auto
    have "c \<noteq> v" using c Cons.prems(5) by force
    moreover have "(j, c) \<in> set (assigned st')" "(i, v) \<in> set (assigned st')"
      using a1 sub' iv by auto
    ultimately show ?thesis using assigned_lookup[OF i'] by blast
  next
    case False
    then have nd: "\<not> is_drop ev i" and lw: "loads_while i j evs" using Cons.prems(8)
      by (auto split: if_splits)
    show ?thesis
      using Cons.IH[OF i1 d1 f1 s2 keepa[OF nd] keepj[OF False] Cons.prems(7) lw] .
  qed
qed

lemma overlap_differ:
  assumes "regs_inv st" "distinct (load_ids evs)"
    "set (load_ids evs) \<inter> fst ` set (assigned st) = {}" "run_reg_ops evs st = Inr st'"
    "i \<notin> fst ` set (assigned st)" "j \<notin> fst ` set (assigned st)" "i \<noteq> 0" "j \<noteq> 0"
    "overlap_in i j evs" "i \<noteq> j"
  shows "\<exists>v w. map_of (assigned st') i = Some v \<and> map_of (assigned st') j = Some w \<and> w \<noteq> v"
  using assms
proof (induction evs arbitrary: st)
  case Nil
  then show ?case by simp
next
  case (Cons ev evs)
  from Cons.prems(4) obtain st1 where s1: "reg_step ev st = Inr st1"
    and s2: "run_reg_ops evs st1 = Inr st'" by (auto simp: and_then_def split: sum.splits)
  from reg_step_general[OF Cons.prems(1,2,3) s1]
  have i1: "regs_inv st1" and d1: "distinct (load_ids evs)"
    and f1: "set (load_ids evs) \<inter> fst ` set (assigned st1) = {}"
    and keep: "\<And>k. \<not> is_load ev k \<Longrightarrow> k \<notin> fst ` set (assigned st) \<Longrightarrow> k \<notin> fst ` set (assigned st1)"
    by auto
  have both: "\<And>a b. is_load ev a \<Longrightarrow> a \<noteq> 0 \<Longrightarrow> a \<notin> fst ` set (assigned st) \<Longrightarrow>
       b \<notin> fst ` set (assigned st) \<Longrightarrow> b \<noteq> 0 \<Longrightarrow> b \<noteq> a \<Longrightarrow> loads_while a b evs \<Longrightarrow>
       \<exists>v w. map_of (assigned st') a = Some v \<and> map_of (assigned st') b = Some w \<and> w \<noteq> v"
  proof -
    fix a b assume a: "is_load ev a" "a \<noteq> 0" "a \<notin> fst ` set (assigned st)"
      "b \<notin> fst ` set (assigned st)" "b \<noteq> 0" "b \<noteq> a" "loads_while a b evs"
    from reg_step_load[OF Cons.prems(1) a(1,2,3)] s1 obtain c where
      act: "active st1 = active st @ [(a, c)]" by auto
    have nb: "\<not> is_load ev b" using a(1,6) by (auto simp: is_load_def)
    have "(a, c) \<in> set (active st1)" using act by simp
    from loads_while_differ[OF i1 d1 f1 s2 this keep[OF nb a(4)] a(5,7)]
    show "\<exists>v w. map_of (assigned st') a = Some v \<and> map_of (assigned st') b = Some w \<and> w \<noteq> v"
      by blast
  qed
  show ?case
  proof (cases "is_load ev i")
    case True
    then have "loads_while i j evs" using Cons.prems(9) by simp
    moreover have "j \<noteq> i" using Cons.prems(10) by simp
    ultimately show ?thesis using both[OF True Cons.prems(7,5,6,8)] by blast
  next
    case ni: False
    show ?thesis
    proof (cases "is_load ev j")
      case True
      then have "loads_while j i evs" using Cons.prems(9) ni by simp
      moreover have "i \<noteq> j" using True ni by auto
      ultimately have "\<exists>v w. map_of (assigned st') j = Some v \<and> map_of (assigned st') i = Some w \<and> w \<noteq> v"
        using both[OF True Cons.prems(8,6,5,7)] by blast
      then show ?thesis by metis
    next
      case False
      then have "overlap_in i j evs" using Cons.prems(9) ni by simp
      from Cons.IH[OF i1 d1 f1 s2 keep[OF ni Cons.prems(5)] keep[OF False Cons.prems(6)]
          Cons.prems(7,8) this Cons.prems(10)] show ?thesis .
    qed
  qed
qed

lemma key_less_asym: "key_less a b \<Longrightarrow> \<not> key_less b a"
  by (auto simp: key_less_def)

lemma key_less_trans: "key_less a b \<Longrightarrow> key_less b c \<Longrightarrow> key_less a c"
  by (auto simp: key_less_def)

lemma mm_insert_set: "set (mm_insert x xs) = insert x (set xs)"
  by (induction xs) auto

lemma mm_insert_sorted: "sorted_events xs \<Longrightarrow> sorted_events (mm_insert x xs)"
proof (induction xs)
  case Nil
  then show ?case by (simp add: sorted_events_def)
next
  case (Cons y ys)
  have tl: "sorted_events ys" and hd: "\<forall>z \<in> set ys. \<not> key_less (fst z) (fst y)"
    using Cons.prems by (auto simp: sorted_events_def)
  show ?case
  proof (cases "key_less (fst x) (fst y)")
    case True
    have "\<forall>z \<in> set (y # ys). \<not> key_less (fst z) (fst x)"
      using True hd key_less_asym key_less_trans by (metis set_ConsD)
    then show ?thesis using True Cons.prems by (simp add: sorted_events_def)
  next
    case False
    have "sorted_events (mm_insert x ys)" using Cons.IH[OF tl] .
    then show ?thesis using False hd by (auto simp: sorted_events_def mm_insert_set)
  qed
qed

lemma mm_insert_load_ids:
  "set (load_ids (mm_insert x xs)) = set (load_ids (x # xs))
   \<and> (distinct (load_ids (mm_insert x xs)) \<longleftrightarrow> distinct (load_ids (x # xs)))"
  by (induction xs) (auto simp: load_ids_Cons)

lemma load_ids_drop:
  "set (load_ids (mm_insert ((l, DROP), k) xs)) = set (load_ids xs)"
  "distinct (load_ids (mm_insert ((l, DROP), k) xs)) \<longleftrightarrow> distinct (load_ids xs)"
  using mm_insert_load_ids[of "((l, DROP), k)" xs] by (simp_all add: load_ids_Cons)

lemma load_ids_load:
  "set (load_ids (mm_insert ((f, LOAD), k) xs)) = (if k = 0 then {} else {k}) \<union> set (load_ids xs)"
  "distinct (load_ids (mm_insert ((f, LOAD), k) xs)) \<longleftrightarrow>
     (k = 0 \<or> k \<notin> set (load_ids xs)) \<and> distinct (load_ids xs)"
  using mm_insert_load_ids[of "((f, LOAD), k)" xs] by (auto simp: load_ids_Cons)

lemma make_reg_ops_props:
  assumes "sorted_events ev" "distinct (map fst rs)" "distinct (load_ids ev)"
    "set (load_ids ev) \<inter> fst ` set rs = {}"
  shows "sorted_events (make_reg_ops rs ev)
         \<and> set (make_reg_ops rs ev) = set ev \<union> events_of rs
         \<and> distinct (load_ids (make_reg_ops rs ev))"
  using assms
proof (induction rs arbitrary: ev)
  case Nil
  then show ?case by (simp add: events_of_def)
next
  case (Cons r rs)
  let ?ev1 = "mm_insert ((snd (snd r), DROP), fst r) (mm_insert ((fst (snd r), LOAD), fst r) ev)"
  have s1: "sorted_events ?ev1" using Cons.prems(1) by (simp add: mm_insert_sorted)
  have d1: "distinct (load_ids ?ev1)"
    using Cons.prems(3,4) by (auto simp: load_ids_drop load_ids_load)
  have f1: "set (load_ids ?ev1) \<inter> fst ` set rs = {}"
    using Cons.prems(2,4) by (auto simp: load_ids_drop load_ids_load)
  have dr: "distinct (map fst rs)" using Cons.prems(2) by simp
  from Cons.IH[OF s1 dr d1 f1] show ?case
    by (auto simp: mm_insert_set events_of_def)
qed

lemma sorted_loads_while:
  assumes "sorted_events evs" "\<exists>ev \<in> set evs. is_load ev j"
    "\<forall>ev \<in> set evs. \<forall>ev' \<in> set evs. is_drop ev i \<longrightarrow> is_load ev' j \<longrightarrow> key_less (fst ev') (fst ev)"
  shows "loads_while i j evs"
  using assms
proof (induction evs)
  case Nil
  then show ?case by simp
next
  case (Cons ev evs)
  show ?case
  proof (cases "is_load ev j")
    case True
    then show ?thesis by simp
  next
    case False
    then obtain ev' where ev': "ev' \<in> set evs" "is_load ev' j" using Cons.prems(2) by auto
    have nd: "\<not> is_drop ev i"
    proof
      assume "is_drop ev i"
      then have "key_less (fst ev') (fst ev)" using Cons.prems(3) ev' by auto
      moreover have "\<not> key_less (fst ev') (fst ev)"
        using Cons.prems(1) ev'(1) by (auto simp: sorted_events_def)
      ultimately show False by simp
    qed
    have "sorted_events evs" using Cons.prems(1) by (simp add: sorted_events_def)
    then have "loads_while i j evs" using Cons.IH ev' Cons.prems(3) by auto
    then show ?thesis using False nd by simp
  qed
qed

lemma sorted_overlap_in:
  assumes "sorted_events evs" "i \<noteq> j" "\<exists>ev \<in> set evs. is_load ev i" "\<exists>ev \<in> set evs. is_load ev j"
    "\<forall>ev \<in> set evs. \<forall>ev' \<in> set evs. is_drop ev i \<longrightarrow> is_load ev' j \<longrightarrow> key_less (fst ev') (fst ev)"
    "\<forall>ev \<in> set evs. \<forall>ev' \<in> set evs. is_drop ev j \<longrightarrow> is_load ev' i \<longrightarrow> key_less (fst ev') (fst ev)"
  shows "overlap_in i j evs"
  using assms
proof (induction evs)
  case Nil
  then show ?case by simp
next
  case (Cons ev evs)
  have tl: "sorted_events evs" using Cons.prems(1) by (simp add: sorted_events_def)
  show ?case
  proof (cases "is_load ev i")
    case True
    then have "\<not> is_load ev j" using Cons.prems(2) by (auto simp: is_load_def)
    then have "\<exists>ev \<in> set evs. is_load ev j" using Cons.prems(4) by auto
    then have "loads_while i j evs" using sorted_loads_while[OF tl] Cons.prems(5) by auto
    then show ?thesis using True by simp
  next
    case ni: False
    then have li: "\<exists>ev \<in> set evs. is_load ev i" using Cons.prems(3) by auto
    show ?thesis
    proof (cases "is_load ev j")
      case True
      have "loads_while j i evs" using sorted_loads_while[OF tl li] Cons.prems(6) by auto
      then show ?thesis using True ni by simp
    next
      case False
      then have "\<exists>ev \<in> set evs. is_load ev j" using Cons.prems(4) by auto
      then have "overlap_in i j evs" using Cons.IH[OF tl Cons.prems(2) li] Cons.prems(5,6) by auto
      then show ?thesis using ni False by simp
    qed
  qed
qed

lemma set_second_keys: "set_second ptr e rs = Inr rs' \<Longrightarrow> map fst rs' = map fst rs"
  by (auto simp: set_second_def split: option.splits)

lemma insert_new_distinct: "distinct (map fst m) \<Longrightarrow> distinct (map fst (insert_new k v m))"
  by (auto simp: insert_new_def map_of_eq_None_iff split: option.splits)

lemma find_ranges_distinct:
  "distinct (map fst rs) \<Longrightarrow> find_ranges cs i rs = Inr rs' \<Longrightarrow> distinct (map fst rs')"
proof (induction cs arbitrary: i rs)
  case Nil
  then show ?case by simp
next
  case (Cons c cs)
  let ?rs1 = "insert_new (c_id c) (i, i + 1) rs"
  have d1: "distinct (map fst ?rs1)" using Cons.prems(1) by (rule insert_new_distinct)
  show ?case
  proof (cases "hasDummyChildren (c_op c)")
    case True
    then have "find_ranges cs (i + 1) ?rs1 = Inr rs'"
      using Cons.prems(2) by (auto split: if_splits)
    then show ?thesis using Cons.IH[OF d1] by blast
  next
    case False
    then obtain rs2 rs3 where "set_second (c_a c) (i + 1) ?rs1 = Inr rs2"
      "set_second (c_b c) (i + 1) rs2 = Inr rs3" "find_ranges cs (i + 1) rs3 = Inr rs'"
      using Cons.prems(2) by (auto simp: and_then_def split: if_splits sum.splits)
    moreover then have "distinct (map fst rs3)" using d1 by (simp add: set_second_keys)
    ultimately show ?thesis using Cons.IH by blast
  qed
qed

lemma store_slots_frame:
  "store_slots ps m = Inr m' \<Longrightarrow> length m' = length m \<and> (\<forall>k. k \<notin> fst ` set ps \<longrightarrow> m' ! k = m ! k)"
proof (induction ps arbitrary: m)
  case Nil
  then show ?case by simp
next
  case (Cons p ps)
  then obtain m1 where w: "wr m (fst p) (snd p) = Inr m1" and r: "store_slots ps m1 = Inr m'"
    by (auto simp: and_then_def split: sum.splits)
  have "m1 = m[fst p := snd p]" using w by (auto simp: wr_def split: if_splits)
  then show ?case using Cons.IH[OF r] by auto
qed

lemma store_slots_values:
  "distinct (map fst ps) \<Longrightarrow> store_slots ps m = Inr m' \<Longrightarrow> \<forall>p \<in> set ps. m' ! fst p = snd p"
proof (induction ps arbitrary: m)
  case Nil
  then show ?case by simp
next
  case (Cons p ps)
  then obtain m1 where w: "wr m (fst p) (snd p) = Inr m1" and r: "store_slots ps m1 = Inr m'"
    by (auto simp: and_then_def split: sum.splits)
  have m1: "m1 = m[fst p := snd p]" "fst p < length m" using w by (auto simp: wr_def split: if_splits)
  have "fst p \<notin> fst ` set ps" using Cons.prems(1) by auto
  then have "m' ! fst p = m1 ! fst p" using store_slots_frame[OF r] by blast
  then have "m' ! fst p = snd p" using m1 by simp
  moreover have "\<forall>q \<in> set ps. m' ! fst q = snd q" using Cons.IH[OF _ r] Cons.prems(1) by simp
  ultimately show ?case by simp
qed

lemma regs_init_inv: "regs_inv regs_init"
  by (simp add: regs_inv_def regs_init_def)

lemma Tape_new_slots:
  assumes "Tape_new flat = Inr s"
  shows "\<exists>rs regs. slot_ranges s = Inr rs
           \<and> run_reg_ops (make_reg_ops rs []) regs_init = Inr regs
           \<and> slot_regs s = Inr regs
           \<and> store_slots (assigned regs) (replicate (num_clauses s) 0) = Inr (st_m (cur s))"
proof -
  from assms obtain st where w: "write_flat flat Flat_init = Inr st" and
    a: "and_then (assignSlots
         \<lparr> constants = f_constants st, vars = f_vars st, oracles = f_oracles st,
           tapes = [Subtape_new \<lparr> st_t := f_tape st \<rparr>], tape = 0,
           num_clauses = length (f_ids st), disabled = [], remap = [] \<rparr>) (\<lambda>s.
       Inr (s \<lparr> disabled := resize (num_clauses s) False (disabled s),
                remap := resize (num_clauses s) 0 (remap s) \<rparr>)) = Inr s"
    by (auto simp: Tape_new_def and_then_def split: sum.splits)
  let ?s1 = "\<lparr> constants = f_constants st, vars = f_vars st, oracles = f_oracles st,
           tapes = [Subtape_new \<lparr> st_t := f_tape st \<rparr>], tape = 0,
           num_clauses = length (f_ids st), disabled = [], remap = [] \<rparr>"
  from a obtain s2 where a2: "assignSlots ?s1 = Inr s2"
    and s: "s = s2 \<lparr> disabled := resize (num_clauses s2) False (disabled s2),
                remap := resize (num_clauses s2) 0 (remap s2) \<rparr>"
    by (auto simp: and_then_def split: sum.splits)
  from a2 obtain regs m where r: "slot_regs ?s1 = Inr regs"
    and m: "store_slots (assigned regs) (resize (num_clauses ?s1) 0 (st_m (cur ?s1))) = Inr m"
    and s2: "s2 = set_cur ((cur ?s1) \<lparr> st_m := m \<rparr>) ?s1"
    by (auto simp: assignSlots_def and_then_def split: sum.splits)
  have t: "st_t (cur s) = st_t (cur ?s1)" "st_m (cur s) = m" "num_clauses s = num_clauses ?s1"
    by (simp_all add: s s2 cur_def set_cur_def)
  have rz: "resize (num_clauses ?s1) 0 (st_m (cur ?s1)) = replicate (num_clauses s) 0"
    by (simp add: resize_def cur_def Subtape_new_def t(3))
  have sr: "slot_ranges s = slot_ranges ?s1" using t(1) by (simp add: slot_ranges_def)
  then have sg: "slot_regs s = slot_regs ?s1" by (simp add: slot_regs_def)
  from r sg obtain rs where "slot_ranges s = Inr rs"
    "run_reg_ops (make_reg_ops rs []) regs_init = Inr regs"
    by (auto simp: slot_regs_def and_then_def regs_init_def split: sum.splits)
  then show ?thesis using r sg m rz t(2) by auto
qed

subsection \<open>The ranges are the live ranges\<close>

lemma set_second_map_of:
  assumes "set_second ptr e rs = Inr rs'"
  shows "map_of rs ptr \<noteq> None
         \<and> map_of rs' k = (if k = ptr then map_option (\<lambda>p. (fst p, e)) (map_of rs k) else map_of rs k)"
proof -
  have d: "map_of rs ptr \<noteq> None" using assms by (auto simp: set_second_def split: option.splits)
  have e: "rs' = map (\<lambda>(k, p). if k = ptr then (k, (fst p, e)) else (k, p)) rs"
    using assms by (auto simp: set_second_def split: option.splits)
  have "map_of (map (\<lambda>(k, p). if k = ptr then (k, (fst p, e)) else (k, p)) rs) k
          = (if k = ptr then map_option (\<lambda>p. (fst p, e)) (map_of rs k) else map_of rs k)"
    by (induction rs) auto
  then show ?thesis using d e by simp
qed

lemma find_ranges_step:
  assumes "find_ranges (c # cs) i rs = Inr rs'" "map_of rs (c_id c) = None"
  shows "\<exists>rs3. find_ranges cs (i + 1) rs3 = Inr rs'
           \<and> (\<forall>k. map_of rs3 k =
                 (if k = c_id c then Some (i, i + 1)
                  else if uses c k then map_option (\<lambda>p. (fst p, i + 1)) (map_of rs k)
                  else map_of rs k))
           \<and> (\<forall>k. uses c k \<longrightarrow> k \<noteq> c_id c \<longrightarrow> map_of rs k \<noteq> None)"
proof -
  let ?rs1 = "insert_new (c_id c) (i, i + 1) rs"
  have rs1: "?rs1 = rs @ [(c_id c, (i, i + 1))]"
    using assms(2) by (simp add: insert_new_def)
  have m1: "\<And>k. map_of ?rs1 k = (if k = c_id c then Some (i, i + 1) else map_of rs k)"
    unfolding rs1 using assms(2) by (auto simp: map_add_def split: option.splits)
  show ?thesis
  proof (cases "hasDummyChildren (c_op c)")
    case True
    then have f: "find_ranges cs (i + 1) ?rs1 = Inr rs'"
      using assms(1) by (simp split: if_splits)
    have u: "\<And>k. uses c k = (k = c_id c)" using True by (auto simp: uses_def)
    show ?thesis using f m1 u by auto
  next
    case False
    have id0: "c_id c \<noteq> 0" using assms(1) by (auto split: if_splits)
    obtain rs2 where s2: "set_second (c_a c) (i + 1) ?rs1 = Inr rs2"
      using assms(1) False id0
      by (cases "set_second (c_a c) (i + 1) ?rs1") (auto simp: and_then_def)
    obtain rs3 where s3: "set_second (c_b c) (i + 1) rs2 = Inr rs3"
      using assms(1) False id0 s2
      by (cases "set_second (c_b c) (i + 1) rs2") (auto simp: and_then_def)
    have f: "find_ranges cs (i + 1) rs3 = Inr rs'"
      using assms(1) False id0 s2 s3 by (simp add: and_then_def)
    note a2 = set_second_map_of[OF s2]
    note a3 = set_second_map_of[OF s3]
    have u: "\<And>k. uses c k = (k = c_id c \<or> k = c_a c \<or> k = c_b c)"
      using False by (auto simp: uses_def)
    have m3: "\<forall>k. map_of rs3 k =
                 (if k = c_id c then Some (i, i + 1)
                  else if uses c k then map_option (\<lambda>p. (fst p, i + 1)) (map_of rs k)
                  else map_of rs k)"
    proof
      fix k
      have q3: "map_of rs3 k = (if k = c_b c then map_option (\<lambda>p. (fst p, i + 1)) (map_of rs2 k) else map_of rs2 k)"
        "map_of rs2 k = (if k = c_a c then map_option (\<lambda>p. (fst p, i + 1)) (map_of ?rs1 k) else map_of ?rs1 k)"
        using a3 a2 by blast+
      show "map_of rs3 k =
                 (if k = c_id c then Some (i, i + 1)
                  else if uses c k then map_option (\<lambda>p. (fst p, i + 1)) (map_of rs k)
                  else map_of rs k)"
      proof (cases "k = c_id c")
        case True
        have r1: "map_of ?rs1 k = Some (i, i + 1)" using m1[of k] True by simp
        have r2: "map_of rs2 k = Some (i, i + 1)" unfolding q3(2) r1 by simp
        have r3: "map_of rs3 k = Some (i, i + 1)" unfolding q3(1) r2 by simp
        show ?thesis using r3 True by simp
      next
        case False
        have idem: "map_option (\<lambda>p. (fst p, i + 1)) (map_option (\<lambda>p. (fst p, i + 1)) (map_of rs k))
                      = map_option (\<lambda>p. (fst p, i + 1)) (map_of rs k)"
          by (cases "map_of rs k") simp_all
        have r1: "map_of ?rs1 k = map_of rs k" using m1[of k] False by simp
        show ?thesis
        proof (cases "k = c_a c")
          case ka: True
          show ?thesis
          proof (cases "k = c_b c")
            case True
            then show ?thesis using q3 ka False r1 u[of k] idem by simp
          next
            case kb: False
            then show ?thesis using q3 ka False r1 u[of k] by simp
          qed
        next
          case ka: False
          show ?thesis
          proof (cases "k = c_b c")
            case True
            then show ?thesis using q3 ka False r1 u[of k] by simp
          next
            case kb: False
            then show ?thesis using q3 ka False r1 u[of k] by simp
          qed
        qed
      qed
    qed
    have da: "map_of ?rs1 (c_a c) \<noteq> None" using a2 by blast
    have "map_of rs2 (c_b c) \<noteq> None" using a3 by blast
    then have db: "map_of ?rs1 (c_b c) \<noteq> None"
      using a2[of "c_b c"] by (auto split: if_splits)
    have dom: "\<forall>k. uses c k \<longrightarrow> k \<noteq> c_id c \<longrightarrow> map_of rs k \<noteq> None"
      using da db m1 u by (metis)
    show ?thesis using f m3 dom by blast
  qed
qed


lemma find_ranges_live:
  assumes "find_ranges cs i rs = Inr rs'" "distinct (map c_id cs)"
    "\<forall>c \<in> set cs. map_of rs (c_id c) = None"
  shows "(\<forall>k f l. map_of rs k = Some (f, l) \<longrightarrow>
            map_of rs' k = Some (f, last_or l (use_positions i cs k)))
         \<and> (\<forall>c \<in> set cs. map_of rs' (c_id c) =
               Some (hd (use_positions i cs (c_id c)), last (use_positions i cs (c_id c)) + 1))"
  using assms
proof (induction cs arbitrary: i rs)
  case Nil
  then show ?case by (simp add: last_or_def)
next
  case (Cons c cs)
  have fresh: "map_of rs (c_id c) = None" using Cons.prems(3) by simp
  from find_ranges_step[OF Cons.prems(1) fresh] obtain rs3 where
    f: "find_ranges cs (i + 1) rs3 = Inr rs'"
    and m3: "\<forall>k. map_of rs3 k =
                 (if k = c_id c then Some (i, i + 1)
                  else if uses c k then map_option (\<lambda>p. (fst p, i + 1)) (map_of rs k)
                  else map_of rs k)"
    and dom: "\<forall>k. uses c k \<longrightarrow> k \<noteq> c_id c \<longrightarrow> map_of rs k \<noteq> None"
    by blast
  have d: "distinct (map c_id cs)" "c_id c \<notin> c_id ` set cs" using Cons.prems(2) by simp_all
  have fr3: "\<forall>c' \<in> set cs. map_of rs3 (c_id c') = None"
  proof
    fix c' assume c': "c' \<in> set cs"
    then have "c_id c' \<in> c_id ` set cs" by (rule imageI)
    then have ne: "c_id c' \<noteq> c_id c" using d(2) by metis
    have n: "map_of rs (c_id c') = None" using Cons.prems(3) c' by simp
    show "map_of rs3 (c_id c') = None" using m3 ne n by simp
  qed
  note IH = Cons.IH[OF f d(1) fr3]
  have A: "\<forall>k f l. map_of rs3 k = Some (f, l) \<longrightarrow>
            map_of rs' k = Some (f, last_or l (use_positions (i + 1) cs k))"
    using IH by (rule conjunct1)
  have B: "\<forall>c' \<in> set cs. map_of rs' (c_id c') =
               Some (hd (use_positions (i + 1) cs (c_id c')),
                     last (use_positions (i + 1) cs (c_id c')) + 1)"
    using IH by (rule conjunct2)
  have g1: "\<forall>k f l. map_of rs k = Some (f, l) \<longrightarrow>
            map_of rs' k = Some (f, last_or l (use_positions i (c # cs) k))"
  proof (intro allI impI)
    fix k f l assume h: "map_of rs k = Some (f, l)"
    then have ne: "k \<noteq> c_id c" using fresh by auto
    show "map_of rs' k = Some (f, last_or l (use_positions i (c # cs) k))"
    proof (cases "uses c k")
      case True
      have "map_of rs3 k = Some (f, i + 1)" using m3 ne True h by simp
      then have "map_of rs' k = Some (f, last_or (i + 1) (use_positions (i + 1) cs k))"
        using A by blast
      then show ?thesis using True by (simp add: last_or_def)
    next
      case False
      have "map_of rs3 k = Some (f, l)" using m3 ne False h by simp
      then have "map_of rs' k = Some (f, last_or l (use_positions (i + 1) cs k))"
        using A by blast
      then show ?thesis using False by (simp add: last_or_def)
    qed
  qed
  have g2: "\<forall>c' \<in> set (c # cs). map_of rs' (c_id c') =
               Some (hd (use_positions i (c # cs) (c_id c')),
                     last (use_positions i (c # cs) (c_id c')) + 1)"
  proof
    fix c' assume c': "c' \<in> set (c # cs)"
    show "map_of rs' (c_id c') =
               Some (hd (use_positions i (c # cs) (c_id c')),
                     last (use_positions i (c # cs) (c_id c')) + 1)"
    proof (cases "c_id c' = c_id c")
      case True
      have u: "uses c (c_id c')" using True by (simp add: uses_def)
      have "map_of rs3 (c_id c') = Some (i, i + 1)" using m3 True by simp
      then have "map_of rs' (c_id c') = Some (i, last_or (i + 1) (use_positions (i + 1) cs (c_id c')))"
        using A by blast
      then show ?thesis using u by (simp add: last_or_def)
    next
      case False
      then have in_cs: "c' \<in> set cs" using c' by auto
      have n: "map_of rs (c_id c') = None" using Cons.prems(3) c' by blast
      have nu: "\<not> uses c (c_id c')" using dom False n by blast
      have "map_of rs' (c_id c') =
               Some (hd (use_positions (i + 1) cs (c_id c')),
                     last (use_positions (i + 1) cs (c_id c')) + 1)"
        using B in_cs by blast
      then show ?thesis using nu by simp
    qed
  qed
  show ?case by (intro conjI g1 g2)
qed

lemma sorted_gt_distinct: "sorted_wrt (>) (xs::nat list) \<Longrightarrow> distinct xs"
  by (induction xs) auto

lemma slot_ranges_live:
  assumes "slot_ranges s = Inr rs" "clauses_ok n (st_t (cur s))"
  shows "\<forall>c \<in> set (st_t (cur s)).
           map_of rs (c_id c) = Some (live_range (rev (st_t (cur s))) (c_id c))"
proof -
  let ?xs = "rev (st_t (cur s))"
  have "distinct (map c_id (st_t (cur s)))"
    using assms(2) by (simp add: clauses_ok_def sorted_gt_distinct)
  then have d: "distinct (map c_id ?xs)" by (simp add: rev_map[symmetric])
  have z: "\<forall>c \<in> set ?xs. map_of [(0::nat, (0::nat, 0::nat))] (c_id c) = None"
    using assms(2) by (auto simp: clauses_ok_def clause_ok_def)
  have f: "find_ranges ?xs 0 [(0, (0, 0))] = Inr rs" using assms(1) by (simp add: slot_ranges_def)
  from find_ranges_live[OF f d z]
  have "\<forall>c \<in> set ?xs. map_of rs (c_id c) =
               Some (hd (use_positions 0 ?xs (c_id c)), last (use_positions 0 ?xs (c_id c)) + 1)"
    by (rule conjunct2)
  then show ?thesis by (simp add: live_range_def first_use_def last_use_def)
qed

subsection \<open>Slots of overlapping ranges\<close>

lemma slots_by_range:
  assumes "Tape_new flat = Inr s"
  shows "(\<exists>rs regs. slot_ranges s = Inr rs
            \<and> sorted_events (make_reg_ops rs [])
            \<and> run_reg_ops (make_reg_ops rs []) regs_init = Inr regs
            \<and> slot_regs s = Inr regs
            \<and> (\<forall>i j p q.
                  i \<noteq> j \<and> i \<noteq> 0 \<and> j \<noteq> 0
                  \<and> map_of rs i = Some p \<and> map_of rs j = Some q \<and> overlap_halfopen p q
                  \<longrightarrow> st_m (cur s) ! i \<noteq> st_m (cur s) ! j))
       \<and> (is_drop ev k \<and> k \<noteq> 0 \<and> map_of (active st) k = Some slot
            \<longrightarrow> (\<exists>st'. reg_step ev st = Inr st' \<and> slot \<in> inactive st'
                    \<and> k \<notin> fst ` set (active st') \<and> assigned st' = assigned st))
       \<and> (regs_inv st \<and> is_load ev k \<and> k \<noteq> 0 \<and> k \<notin> fst ` set (assigned st)
            \<longrightarrow> (\<exists>st'. reg_step ev st = Inr st' \<and> regs_inv st'
                    \<and> (if inactive st \<noteq> {}
                        then map_of (active st') k = Some (Min (inactive st))
                             \<and> (\<forall>x \<in> inactive st. Min (inactive st) \<le> x)
                             \<and> inactive st' = inactive st - {Min (inactive st)}
                             \<and> file_size st' = file_size st
                        else map_of (active st') k = Some (file_size st)
                             \<and> inactive st' = {}
                             \<and> file_size st' = file_size st + 1)))"
proof -
  from Tape_new_slots[OF assms] obtain rs regs where
    rs: "slot_ranges s = Inr rs" and run: "run_reg_ops (make_reg_ops rs []) regs_init = Inr regs"
    and sg: "slot_regs s = Inr regs"
    and m: "store_slots (assigned regs) (replicate (num_clauses s) 0) = Inr (st_m (cur s))"
    by blast
  let ?E = "make_reg_ops rs []"
  have dk: "distinct (map fst rs)"
    using find_ranges_distinct[of "[(0, (0, 0))]"] rs by (simp add: slot_ranges_def)
  have E: "sorted_events ?E" "set ?E = events_of rs" "distinct (load_ids ?E)"
    using make_reg_ops_props[of "[]" rs] dk by (simp_all add: sorted_events_def load_ids_def)
  have fr0: "set (load_ids ?E) \<inter> fst ` set (assigned regs_init) = {}"
    by (simp add: regs_init_def)
  have inv': "regs_inv regs"
    using run_reg_ops_keeps[OF regs_init_inv E(3) fr0 run] by simp
  have dm: "distinct (map fst (assigned regs))" using inv' by (simp add: regs_inv_def)
  have differ: "\<forall>i j fi li fj lj.
                  i \<noteq> j \<and> i \<noteq> 0 \<and> j \<noteq> 0
                  \<and> map_of rs i = Some (fi, li) \<and> map_of rs j = Some (fj, lj)
                  \<and> fi < lj \<and> fj < li
                  \<longrightarrow> st_m (cur s) ! i \<noteq> st_m (cur s) ! j"
  proof (intro allI impI)
    fix i j fi li fj lj
    assume h: "i \<noteq> j \<and> i \<noteq> 0 \<and> j \<noteq> 0
                  \<and> map_of rs i = Some (fi, li) \<and> map_of rs j = Some (fj, lj)
                  \<and> fi < lj \<and> fj < li"
    then have ri: "(i, (fi, li)) \<in> set rs" and rj: "(j, (fj, lj)) \<in> set rs"
      by (auto dest: map_of_SomeD)
    have uniq: "\<And>k p q. (k, p) \<in> set rs \<Longrightarrow> (k, q) \<in> set rs \<Longrightarrow> p = q"
      using dk by (meson eq_key_imp_eq_value)
    have li: "\<exists>ev \<in> set ?E. is_load ev i"
      unfolding E(2) events_of_def is_load_def using ri by force
    have lj: "\<exists>ev \<in> set ?E. is_load ev j"
      unfolding E(2) events_of_def is_load_def using rj by force
    have ev_load: "\<And>ev k. ev \<in> set ?E \<Longrightarrow> is_load ev k \<Longrightarrow> \<exists>f l. (k, (f, l)) \<in> set rs \<and> fst ev = (f, LOAD)"
      unfolding E(2) events_of_def is_load_def by (auto simp: prod_eq_iff)
    have ev_drop: "\<And>ev k. ev \<in> set ?E \<Longrightarrow> is_drop ev k \<Longrightarrow> \<exists>f l. (k, (f, l)) \<in> set rs \<and> fst ev = (l, DROP)"
      unfolding E(2) events_of_def is_drop_def by (auto simp: prod_eq_iff)
    have o1: "\<forall>ev \<in> set ?E. \<forall>ev' \<in> set ?E. is_drop ev i \<longrightarrow> is_load ev' j \<longrightarrow> key_less (fst ev') (fst ev)"
    proof (intro ballI impI)
      fix ev ev' assume a: "ev \<in> set ?E" "ev' \<in> set ?E" "is_drop ev i" "is_load ev' j"
      from ev_drop[OF a(1,3)] uniq[OF ri] have "fst ev = (li, DROP)" by blast
      moreover from ev_load[OF a(2,4)] uniq[OF rj] have "fst ev' = (fj, LOAD)" by blast
      ultimately show "key_less (fst ev') (fst ev)" using h by (simp add: key_less_def)
    qed
    have o2: "\<forall>ev \<in> set ?E. \<forall>ev' \<in> set ?E. is_drop ev j \<longrightarrow> is_load ev' i \<longrightarrow> key_less (fst ev') (fst ev)"
    proof (intro ballI impI)
      fix ev ev' assume a: "ev \<in> set ?E" "ev' \<in> set ?E" "is_drop ev j" "is_load ev' i"
      from ev_drop[OF a(1,3)] uniq[OF rj] have "fst ev = (lj, DROP)" by blast
      moreover from ev_load[OF a(2,4)] uniq[OF ri] have "fst ev' = (fi, LOAD)" by blast
      ultimately show "key_less (fst ev') (fst ev)" using h by (simp add: key_less_def)
    qed
    have ov: "overlap_in i j ?E" using sorted_overlap_in[OF E(1) _ li lj o1 o2] h by simp
    have "i \<notin> fst ` set (assigned regs_init)" "j \<notin> fst ` set (assigned regs_init)"
      by (simp_all add: regs_init_def)
    from overlap_differ[OF regs_init_inv E(3) fr0 run this _ _ ov] h obtain v w where
      vw: "map_of (assigned regs) i = Some v" "map_of (assigned regs) j = Some w" "w \<noteq> v" by blast
    then have "(i, v) \<in> set (assigned regs)" "(j, w) \<in> set (assigned regs)"
      by (auto dest: map_of_SomeD)
    then have "st_m (cur s) ! i = v" "st_m (cur s) ! j = w"
      using store_slots_values[OF dm m] by force+
    then show "st_m (cur s) ! i \<noteq> st_m (cur s) ! j" using vw(3) by simp
  qed
  have drop: "is_drop ev k \<and> k \<noteq> 0 \<and> map_of (active st) k = Some slot
            \<longrightarrow> (\<exists>st'. reg_step ev st = Inr st' \<and> slot \<in> inactive st'
                    \<and> k \<notin> fst ` set (active st') \<and> assigned st' = assigned st)"
    by (auto simp: is_drop_def reg_step_def)
  have load: "regs_inv st \<and> is_load ev k \<and> k \<noteq> 0 \<and> k \<notin> fst ` set (assigned st)
            \<longrightarrow> (\<exists>st'. reg_step ev st = Inr st' \<and> regs_inv st'
                    \<and> (if inactive st \<noteq> {}
                        then map_of (active st') k = Some (Min (inactive st))
                             \<and> (\<forall>x \<in> inactive st. Min (inactive st) \<le> x)
                             \<and> inactive st' = inactive st - {Min (inactive st)}
                             \<and> file_size st' = file_size st
                        else map_of (active st') k = Some (file_size st)
                             \<and> inactive st' = {}
                             \<and> file_size st' = file_size st + 1))"
  proof
    assume h: "regs_inv st \<and> is_load ev k \<and> k \<noteq> 0 \<and> k \<notin> fst ` set (assigned st)"
    then have inv: "regs_inv st" and ld: "is_load ev k" and k0: "k \<noteq> 0"
      and fresh: "k \<notin> fst ` set (assigned st)" by auto
    have fa: "k \<notin> fst ` set (active st)" using inv fresh by (auto simp: regs_inv_def)
    have fin: "finite (inactive st)" using inv by (simp add: regs_inv_def)
    from reg_step_load[OF inv ld k0 fresh] obtain c where
      st: "reg_step ev st =
            Inr (st \<lparr> active := active st @ [(k, c)], assigned := assigned st @ [(k, c)],
                     inactive := inactive st - {c} \<rparr>)"
      and c: "c = (if inactive st \<noteq> {} then Min (inactive st) else length (active st))"
      and i': "regs_inv (st \<lparr> active := active st @ [(k, c)], assigned := assigned st @ [(k, c)],
                     inactive := inactive st - {c} \<rparr>)" by blast
    let ?st' = "st \<lparr> active := active st @ [(k, c)], assigned := assigned st @ [(k, c)],
                     inactive := inactive st - {c} \<rparr>"
    have "map_of (active st) k = None" using fa by (simp add: map_of_eq_None_iff)
    then have look: "map_of (active ?st') k = Some c" by (simp add: map_add_def)
    have "if inactive st \<noteq> {}
          then map_of (active ?st') k = Some (Min (inactive st))
               \<and> (\<forall>x \<in> inactive st. Min (inactive st) \<le> x)
               \<and> inactive ?st' = inactive st - {Min (inactive st)}
               \<and> file_size ?st' = file_size st
          else map_of (active ?st') k = Some (file_size st)
               \<and> inactive ?st' = {}
               \<and> file_size ?st' = file_size st + 1"
    proof (cases "inactive st = {}")
      case True
      then show ?thesis using look c by (simp add: file_size_def)
    next
      case False
      have "Min (inactive st) \<in> inactive st" using fin False by simp
      then have "card (inactive st - {Min (inactive st)}) = card (inactive st) - 1"
        "0 < card (inactive st)" using fin by (auto simp: card_gt_0_iff)
      then show ?thesis using look c False fin by (simp add: file_size_def)
    qed
    then show "\<exists>st'. reg_step ev st = Inr st' \<and> regs_inv st'
                    \<and> (if inactive st \<noteq> {}
                        then map_of (active st') k = Some (Min (inactive st))
                             \<and> (\<forall>x \<in> inactive st. Min (inactive st) \<le> x)
                             \<and> inactive st' = inactive st - {Min (inactive st)}
                             \<and> file_size st' = file_size st
                        else map_of (active st') k = Some (file_size st)
                             \<and> inactive st' = {}
                             \<and> file_size st' = file_size st + 1)"
      using st i' by blast
  qed
  have differ': "\<forall>i j p q.
                  i \<noteq> j \<and> i \<noteq> 0 \<and> j \<noteq> 0
                  \<and> map_of rs i = Some p \<and> map_of rs j = Some q \<and> overlap_halfopen p q
                  \<longrightarrow> st_m (cur s) ! i \<noteq> st_m (cur s) ! j"
  proof (intro allI impI)
    fix i j p q
    assume "i \<noteq> j \<and> i \<noteq> 0 \<and> j \<noteq> 0
                  \<and> map_of rs i = Some p \<and> map_of rs j = Some q \<and> overlap_halfopen p q"
    then have "i \<noteq> j \<and> i \<noteq> 0 \<and> j \<noteq> 0
                  \<and> map_of rs i = Some (fst p, snd p) \<and> map_of rs j = Some (fst q, snd q)
                  \<and> fst p < snd q \<and> fst q < snd p" by (simp add: overlap_halfopen_def)
    then show "st_m (cur s) ! i \<noteq> st_m (cur s) ! j" using differ by blast
  qed
  show ?thesis using rs E(1) run sg differ' drop load by blast
qed

lemma ex_nmin_new: "Tape_new ex_nmin_flat = Inr ex_nmin"
  by code_simp

lemma ex_nmin_ordered: "ordered_flat ex_nmin_flat"
  by code_simp

lemma ex_nmin_ids: "map c_id (st_t (cur ex_nmin)) = [4, 3, 2, 1]"
  by code_simp

lemma ex_nmin_live: "map (live_range (rev (st_t (cur ex_nmin)))) [1, 2, 3, 4] = [(0, 3), (1, 3), (2, 4), (3, 4)]"
  by code_simp

lemma ex_regs1_inv: "regs_inv ex_regs1"
  by (auto simp: regs_inv_def ex_regs1_def)

lemma ex_regs4_inv: "regs_inv ex_regs4"
  by (auto simp: regs_inv_def ex_regs4_def)

section \<open>Properties of Handles\<close>

lemma handle_destructor:
  "Handle_dtor (h \<lparr> h_type := NONE \<rparr>) s = Inr s
   \<and> (h_tape h \<longrightarrow> Handle_dtor (h \<lparr> h_type := BASE \<rparr>) s = Inr (s \<lparr> tape := h_prev h \<rparr>))
   \<and> (h_tape h \<longrightarrow> Handle_dtor (h \<lparr> h_type := PUSH \<rparr>) s = pop s)
   \<and> Handle_dtor (fst (getBase p s0)) s = Inr (s \<lparr> tape := tape s0 \<rparr>)"
  by (simp add: Handle_dtor_def getBase_def Handle_base_def)

lemma handle_transfer:
  assumes "self \<noteq> other"
  shows "h_tape (Handle_assign self other hs self) = h_tape (hs other)
     \<and> h_type (Handle_assign self other hs self) = h_type (hs other)
     \<and> h_prev (Handle_assign self other hs self) = h_prev (hs other)
     \<and> Handle_assign self other hs other = (hs other) \<lparr> h_type := NONE \<rparr>
     \<and> (\<forall>a. a \<noteq> self \<and> a \<noteq> other \<longrightarrow> Handle_assign self other hs a = hs a)
     \<and> Handle_move self other hs self
          = \<lparr> h_tape = h_tape (hs other), h_type = h_type (hs other), h_prev = h_prev (hs other) \<rparr>
     \<and> Handle_move self other hs other = (hs other) \<lparr> h_type := NONE \<rparr>
     \<and> (\<forall>a. a \<noteq> self \<and> a \<noteq> other \<longrightarrow> Handle_move self other hs a = hs a)
     \<and> (h_type (hs other) = PUSH \<and> h_tape (hs other) \<longrightarrow>
          Handle_dtor (Handle_assign self other hs self) s = pop s
          \<and> Handle_dtor (Handle_assign self other hs other) s = Inr s
          \<and> Handle_dtor (Handle_move self other hs self) s = pop s
          \<and> Handle_dtor (Handle_move self other hs other) s = Inr s)"
  using assms by (simp add: Handle_assign_def Handle_move_def Handle_dtor_def Let_def)

lemma handle_self_assign:
  "Handle_assign a a hs a = (hs a) \<lparr> h_type := NONE \<rparr>
   \<and> Handle_dtor (Handle_assign a a hs a) s = Inr s"
  by (simp add: Handle_assign_def Handle_dtor_def Let_def)

section \<open>Lemmas about the simplex tree\<close>

subsection \<open>Field updates\<close>

lemma type_simps [simp]:
  "type (set_type ty t) = ty" "type (set_leaf lf t) = type t" "type (set_children cs t) = type t"
  "type (set_pending n t) = type t" "type (done_cell t) = type t"
  by (simp_all add: set_type_def set_leaf_def set_children_def set_pending_def done_cell_def)

lemma leaf_simps [simp]:
  "leaf (set_type ty t) = leaf t" "leaf (set_leaf lf t) = lf" "leaf (set_children cs t) = leaf t"
  "leaf (set_pending n t) = leaf t" "leaf (done_cell t) = leaf t"
  by (simp_all add: set_type_def set_leaf_def set_children_def set_pending_def done_cell_def)

lemma children_simps [simp]:
  "children (set_type ty t) = children t" "children (set_leaf lf t) = children t"
  "children (set_children cs t) = cs"
  "children (set_pending n t) = children t" "children (done_cell t) = children t"
  by (simp_all add: set_type_def set_leaf_def set_children_def set_pending_def done_cell_def)

lemma pending_simps [simp]:
  "pending (set_type ty t) = pending t" "pending (set_leaf lf t) = pending t"
  "pending (set_children cs t) = pending t"
  "pending (set_pending n t) = n" "pending (done_cell t) = pending t"
  by (simp_all add: set_type_def set_leaf_def set_children_def set_pending_def done_cell_def)

lemma finished_simps [simp]:
  "finished (set_type ty t) = finished t" "finished (set_leaf lf t) = finished t"
  "finished (set_children cs t) = finished t"
  "finished (set_pending n t) = finished t" "finished (done_cell t) = True"
  by (simp_all add: set_type_def set_leaf_def set_children_def set_pending_def done_cell_def)

subsection \<open>The pool counters\<close>

lemma counts_upd_sub [simp]: "counts (upd_sub a f p) = counts p"
  by (simp add: counts_def upd_sub_def)

lemma counts_get_sub [simp]: "counts (snd (get_sub p)) = counts p"
  by (simp add: counts_def get_sub_def split: list.splits)

lemma counts_put_sub [simp]: "counts (put_sub a p) = counts p"
  by (simp add: counts_def put_sub_def)

lemma counts_release_sub [simp]: "counts (release_sub a p) = counts p"
  by (simp add: release_sub_def Let_def)

lemma counts_fold_release_sub [simp]: "counts (fold release_sub sb p) = counts p"
  by (induction sb arbitrary: p) simp_all

lemma counts_fold_upd [simp]: "counts (fold (\<lambda>a. upd_sub a (f a)) sb p) = counts p"
  by (induction sb arbitrary: p) simp_all

lemma counts_corner_qef [simp]: "counts (corner_qef cs ev sb solved i p) = counts p"
  by (simp add: corner_qef_def)

lemma counts_fold_corner_qef [simp]: "counts (fold (corner_qef cs ev sb solved) is p) = counts p"
  by (induction "is" arbitrary: p) simp_all

lemma counts_save_sign [simp]: "counts (save_sign ev sb solved i p) = counts p"
  by (simp add: save_sign_def)

lemma counts_fold_save_sign [simp]: "counts (fold (save_sign ev sb solved) is p) = counts p"
  by (induction "is" arbitrary: p) simp_all

lemma borrow_props:
  "fold (borrow check) is (sb, solved, p) = (sb', solved', p') \<Longrightarrow>
     length sb' = length sb \<and> length solved' = length solved \<and> counts p' = counts p"
proof (induction "is" arbitrary: sb solved p)
  case Nil
  then show ?case by simp
next
  case (Cons i "is")
  obtain sb1 solved1 p1 where b: "borrow check i (sb, solved, p) = (sb1, solved1, p1)"
    by (cases "borrow check i (sb, solved, p)") auto
  then have "length sb1 = length sb \<and> length solved1 = length solved \<and> counts p1 = counts p"
    by (auto simp: borrow_def split: option.splits)
  then show ?case using Cons b by simp
qed

lemma alloc_props:
  "fold alloc_sub is (sb, p) = (sb', p') \<Longrightarrow> length sb' = length sb \<and> counts p' = counts p"
proof (induction "is" arbitrary: sb p)
  case Nil
  then show ?case by simp
next
  case (Cons i "is")
  obtain sb1 p1 where b: "alloc_sub i (sb, p) = (sb1, p1)"
    by (cases "alloc_sub i (sb, p)") auto
  then have "length sb1 = length sb \<and> counts p1 = counts p"
    by (auto simp: alloc_sub_def)
  then show ?case using Cons b by simp
qed

lemma sum_qefs_counts:
  "sum_qefs N ix sb cs ijs p = Inr p' \<Longrightarrow> counts p' = counts p"
proof (induction ijs arbitrary: p)
  case Nil
  then show ?case by simp
next
  case (Cons ij ijs)
  obtain i j where ij: "ij = (i, j)" by (cases ij) auto
  from Cons.prems obtain p1 where a: "add_child_qef N ix sb cs ij p = Inr p1"
    and s: "sum_qefs N ix sb cs ijs p1 = Inr p'"
    by (cases "add_child_qef N ix sb cs ij p") auto
  from a have "counts p1 = counts p"
    by (auto simp: add_child_qef_def ij split: option.splits if_splits)
  then show ?case using Cons.IH[OF s] by simp
qed

lemma counts_Leaf_releaseTo: "counts (Leaf_releaseTo lf p) = (free_leaves p + 1, free_trees p)"
proof -
  have "counts (fold release_sub (sub lf) p) = counts p" by simp
  then show ?thesis by (simp add: Leaf_releaseTo_def put_leaf_def counts_def)
qed

lemma free_trees_Tree_releaseTo: "free_trees (Tree_releaseTo c p) = free_trees p + 1"
proof (cases "leaf c")
  case None
  then show ?thesis by (simp add: Tree_releaseTo_def put_tree_def)
next
  case (Some lf)
  have "counts (Leaf_releaseTo lf p) = (free_leaves p + 1, free_trees p)"
    by (rule counts_Leaf_releaseTo)
  then show ?thesis using Some by (simp add: Tree_releaseTo_def put_tree_def counts_def)
qed

lemma free_trees_fold_Tree_releaseTo:
  "free_trees (fold Tree_releaseTo cs p) = free_trees p + length cs"
  by (induction cs arbitrary: p) (simp_all add: free_trees_Tree_releaseTo)

subsection \<open>The inside flags\<close>

lemma fold_set_inside:
  "heap (fold (\<lambda>a. upd_sub a (\<lambda>s. s \<lparr> inside := v \<rparr>)) sb p) a =
     (if a \<in> set sb then (heap p a) \<lparr> inside := v \<rparr> else heap p a)"
  by (induction sb arbitrary: p) (auto simp: upd_sub_def)

lemma release_sub_inside: "inside (heap (release_sub a p) b) = inside (heap p b)"
  by (simp add: release_sub_def Let_def upd_sub_def put_sub_def)

lemma fold_release_sub_inside: "inside (heap (fold release_sub sb p) b) = inside (heap p b)"
  by (induction sb arbitrary: p) (simp_all add: release_sub_inside)

lemma Tree_releaseTo_inside: "inside (heap (Tree_releaseTo c p) b) = inside (heap p b)"
  by (simp add: Tree_releaseTo_def Leaf_releaseTo_def put_tree_def put_leaf_def
      fold_release_sub_inside split: option.splits)

lemma fold_Tree_releaseTo_inside: "inside (heap (fold Tree_releaseTo cs p) b) = inside (heap p b)"
  by (induction cs arbitrary: p) (simp_all add: Tree_releaseTo_inside)

lemma release_sub_qef: "qef (heap (release_sub a p) b) = qef (heap p b)"
  by (simp add: release_sub_def Let_def upd_sub_def put_sub_def)

lemma fold_release_sub_qef: "qef (heap (fold release_sub sb p) b) = qef (heap p b)"
  by (induction sb arbitrary: p) (simp_all add: release_sub_qef)

lemma Tree_releaseTo_qef: "qef (heap (Tree_releaseTo c p) b) = qef (heap p b)"
  by (simp add: Tree_releaseTo_def Leaf_releaseTo_def put_tree_def put_leaf_def
      fold_release_sub_qef split: option.splits)

lemma fold_Tree_releaseTo_qef: "qef (heap (fold Tree_releaseTo cs p) b) = qef (heap p b)"
  by (induction cs arbitrary: p) (simp_all add: Tree_releaseTo_qef)

lemma save_sign_qef: "qef (heap (save_sign ev sb solved i p) b) = qef (heap p b)"
  by (simp add: save_sign_def upd_sub_def)

lemma fold_save_sign_qef: "qef (heap (fold (save_sign ev sb solved) is p) b) = qef (heap p b)"
  by (induction "is" arbitrary: p) (simp_all add: save_sign_qef)

lemma uniform_signs_cong:
  "(\<And>b. inside (heap p' b) = inside (heap p b)) \<Longrightarrow> uniform_signs v lf p' = uniform_signs v lf p"
  by (simp add: uniform_signs_def)

lemma uniform_signs_exclusive:
  "sub lf \<noteq> [] \<Longrightarrow> \<not> (uniform_signs True lf p \<and> uniform_signs False lf p)"
  by (cases "sub lf") (auto simp: uniform_signs_def)

subsection \<open>findLeafVertices and checkVertexSigns\<close>

lemma findLeafVertices_pure:
  assumes "type t = FILLED \<or> type t = EMPTY" "leaf t = Some lf0"
  shows "\<exists>t' p' lf. findLeafVertices N cs ev check t p = Inr (t', p')
           \<and> type t' = type t \<and> children t' = children t \<and> finished t' = finished t
           \<and> pending t' = pending t
           \<and> leaf t' = Some lf \<and> length (sub lf) = length (sub lf0)
           \<and> level lf = level lf0 \<and> l_tape lf = l_tape lf0
           \<and> uniform_signs (type t = FILLED) lf p' \<and> counts p' = counts p"
proof -
  obtain sb solved p1 where f: "fold (borrow check) [0 ..< 3 ^ N] (sub lf0, replicate (3 ^ N) False, p) = (sb, solved, p1)"
    by (cases "fold (borrow check) [0 ..< 3 ^ N] (sub lf0, replicate (3 ^ N) False, p)") auto
  have len: "length sb = length (sub lf0)" and c1: "counts p1 = counts p"
    using borrow_props[OF f] by simp_all
  let ?p2 = "fold (corner_qef cs ev sb solved) [0 ..< 2 ^ N] p1"
  let ?t' = "set_leaf (Some (lf0 \<lparr> sub := sb \<rparr>)) t"
  let ?p' = "fold (\<lambda>a. upd_sub a (\<lambda>s. s \<lparr> inside := (type t = FILLED) \<rparr>)) sb ?p2"
  have na: "type t \<noteq> AMBIGUOUS" using assms(1) by auto
  have e: "findLeafVertices N cs ev check t p = Inr (?t', ?p')"
    using assms f na by (simp add: findLeafVertices_def Let_def)
  have u: "uniform_signs (type t = FILLED) (lf0 \<lparr> sub := sb \<rparr>) ?p'"
    unfolding uniform_signs_def by (simp add: list_all_iff fold_set_inside)
  have c: "counts ?p' = counts p" using c1 by simp
  show ?thesis using e u c len by simp
qed

lemma findLeafVertices_ambiguous:
  assumes "type t = AMBIGUOUS" "leaf t = Some lf0"
  shows "\<exists>t' p' lf. findLeafVertices N cs ev check t p = Inr (t', p')
           \<and> type t' = AMBIGUOUS \<and> children t' = children t \<and> finished t' = finished t
           \<and> pending t' = pending t
           \<and> leaf t' = Some lf \<and> length (sub lf) = length (sub lf0)
           \<and> level lf = level lf0 \<and> l_tape lf = l_tape lf0 \<and> counts p' = counts p"
proof -
  obtain sb solved p1 where f: "fold (borrow check) [0 ..< 3 ^ N] (sub lf0, replicate (3 ^ N) False, p) = (sb, solved, p1)"
    by (cases "fold (borrow check) [0 ..< 3 ^ N] (sub lf0, replicate (3 ^ N) False, p)") auto
  have len: "length sb = length (sub lf0)" and c1: "counts p1 = counts p"
    using borrow_props[OF f] by simp_all
  let ?p2 = "fold (corner_qef cs ev sb solved) [0 ..< 2 ^ N] p1"
  let ?t' = "set_leaf (Some (lf0 \<lparr> sub := sb \<rparr>)) t"
  let ?p' = "fold (save_sign ev sb solved) [0 ..< 3 ^ N] ?p2"
  have e: "findLeafVertices N cs ev check t p = Inr (?t', ?p')"
    using assms f by (simp add: findLeafVertices_def saveVertexSigns_def Let_def)
  have c: "counts ?p' = counts p" using c1 by simp
  show ?thesis using e c len assms(1) by simp
qed

lemma checkVertexSigns_agree:
  assumes "leaf t = Some lf" "sub lf \<noteq> []"
  shows "\<exists>t'. checkVertexSigns t p = Inr t'
           \<and> leaf t' = Some lf \<and> children t' = children t \<and> finished t' = finished t
           \<and> pending t' = pending t
           \<and> (type t' = FILLED) = uniform_signs True lf p
           \<and> (type t' = EMPTY) = uniform_signs False lf p
           \<and> (type t' = FILLED \<or> type t' = EMPTY \<or> type t' = AMBIGUOUS)"
proof -
  have x: "\<not> (list_all (\<lambda>a. inside (heap p a)) (sub lf) \<and> list_all (\<lambda>a. \<not> inside (heap p a)) (sub lf))"
    using assms(2) by (cases "sub lf") auto
  show ?thesis using assms(1) x
    by (auto simp: checkVertexSigns_def uniform_signs_def Let_def)
qed


subsection \<open>evalInterval and evalLeaf\<close>

lemma evalInterval_pure:
  assumes "ev_safe ev" "ev_state ev = FILLED \<or> ev_state ev = EMPTY"
  shows "\<exists>t' p' lf. evalInterval N cs ev tape_h lvl t p = Inr (t', p', ev_pushed ev)
           \<and> type t' = ev_state ev \<and> finished t' \<and> children t' = children t
           \<and> leaf t' = Some lf \<and> length (sub lf) = 3 ^ N \<and> level lf = lvl
           \<and> uniform_signs (ev_state ev = FILLED) lf p'"
proof -
  let ?lf = "(Leaf_reset N) \<lparr> level := lvl \<rparr>"
  let ?t1 = "set_leaf (Some ?lf) (set_type (ev_state ev) t)"
  let ?p1 = "p \<lparr> free_leaves := free_leaves p - 1 \<rparr>"
  have e: "evalInterval N cs ev tape_h lvl t p =
      (case findLeafVertices N cs ev (\<lambda>i. None) ?t1 ?p1 of
         Inl e \<Rightarrow> Inl e
       | Inr (t2, p2) \<Rightarrow> Inr (done_cell t2, p2, ev_pushed ev))"
    using assms by (simp add: evalInterval_def Let_def get_leaf_def)
  have ty: "type ?t1 = FILLED \<or> type ?t1 = EMPTY" using assms(2) by simp
  have lf: "leaf ?t1 = Some ?lf" by simp
  from findLeafVertices_pure[OF ty lf, of N cs ev "\<lambda>i. None" ?p1]
  obtain t2 p2 lf2 where f: "findLeafVertices N cs ev (\<lambda>i. None) ?t1 ?p1 = Inr (t2, p2)"
    and r: "type t2 = ev_state ev" "children t2 = children t" "leaf t2 = Some lf2"
      "length (sub lf2) = 3 ^ N" "level lf2 = lvl" "uniform_signs (ev_state ev = FILLED) lf2 p2"
    by (auto simp: Leaf_reset_def)
  have "evalInterval N cs ev tape_h lvl t p = Inr (done_cell t2, p2, ev_pushed ev)"
    using f by (simp add: e)
  then show ?thesis using r by simp
qed

lemma evalInterval_other:
  assumes "\<not> ev_safe ev \<or> (ev_state ev \<noteq> FILLED \<and> ev_state ev \<noteq> EMPTY)"
  shows "evalInterval N cs ev tape_h lvl t p =
           Inr (set_type (if \<not> ev_safe ev then AMBIGUOUS else ev_state ev) t, p,
                if \<not> ev_safe ev then tape_h else ev_pushed ev)"
  using assms by (auto simp: evalInterval_def Let_def)

lemma evalInterval_signs:
  assumes "evalInterval N cs ev tape_h lvl t p = Inr (t', p', h)"
  shows "signs_agree t' p' \<and> (type t' = FILLED \<or> type t' = EMPTY \<longrightarrow> has_leaf N t')"
proof (cases "ev_safe ev \<and> (ev_state ev = FILLED \<or> ev_state ev = EMPTY)")
  case True
  from evalInterval_pure[of ev N cs tape_h lvl t p] True
  obtain t2 p2 lf where e: "evalInterval N cs ev tape_h lvl t p = Inr (t2, p2, ev_pushed ev)"
    and r: "type t2 = ev_state ev" "leaf t2 = Some lf" "length (sub lf) = 3 ^ N"
      "uniform_signs (ev_state ev = FILLED) lf p2"
    by blast
  have "t' = t2" "p' = p2" using assms e by simp_all
  then show ?thesis using r True by (auto simp: signs_agree_def has_leaf_def)
next
  case False
  then have c: "\<not> ev_safe ev \<or> (ev_state ev \<noteq> FILLED \<and> ev_state ev \<noteq> EMPTY)" by auto
  have "t' = set_type (if \<not> ev_safe ev then AMBIGUOUS else ev_state ev) t"
    using assms evalInterval_other[OF c, of N cs tape_h lvl t p] by simp
  then have "type t' \<noteq> FILLED \<and> type t' \<noteq> EMPTY" using c by auto
  then show ?thesis by (auto simp: signs_agree_def split: option.splits)
qed

lemma evalLeaf_total:
  "\<exists>t' p' lf. evalLeaf N cs ev check tape_h 0 t p = Inr (t', p')
     \<and> finished t' \<and> children t' = children t
     \<and> leaf t' = Some lf \<and> length (sub lf) = 3 ^ N \<and> level lf = 0 \<and> l_tape lf = Some tape_h
     \<and> (type t' = FILLED) = uniform_signs True lf p'
     \<and> (type t' = EMPTY) = uniform_signs False lf p'
     \<and> (type t' = FILLED \<or> type t' = EMPTY \<or> type t' = AMBIGUOUS)"
proof -
  let ?lf = "(Leaf_reset N) \<lparr> l_tape := Some tape_h, level := 0 \<rparr>"
  let ?t0 = "set_type AMBIGUOUS (set_leaf (Some ?lf) t)"
  let ?p1 = "p \<lparr> free_leaves := free_leaves p - 1 \<rparr>"
  have e: "evalLeaf N cs ev check tape_h 0 t p =
      (case findLeafVertices N cs ev check ?t0 ?p1 of
         Inl e \<Rightarrow> Inl e
       | Inr (t1, p2) \<Rightarrow>
           (case checkVertexSigns t1 p2 of Inl e \<Rightarrow> Inl e | Inr t2 \<Rightarrow> Inr (done_cell t2, p2)))"
    by (simp add: evalLeaf_def get_leaf_def)
  have ty: "type ?t0 = AMBIGUOUS" and lf: "leaf ?t0 = Some ?lf" by simp_all
  from findLeafVertices_ambiguous[OF ty lf, of N cs ev check ?p1]
  obtain t1 p2 lf1 where f: "findLeafVertices N cs ev check ?t0 ?p1 = Inr (t1, p2)"
    and r: "children t1 = children t" "leaf t1 = Some lf1"
      "length (sub lf1) = 3 ^ N" "level lf1 = 0" "l_tape lf1 = Some tape_h"
    by (auto simp: Leaf_reset_def)
  have ne: "sub lf1 \<noteq> []" using r(3) by auto
  from checkVertexSigns_agree[OF r(2) ne, of p2]
  obtain t2 where c: "checkVertexSigns t1 p2 = Inr t2"
    and r2: "leaf t2 = Some lf1" "children t2 = children t1"
      "(type t2 = FILLED) = uniform_signs True lf1 p2"
      "(type t2 = EMPTY) = uniform_signs False lf1 p2"
      "type t2 = FILLED \<or> type t2 = EMPTY \<or> type t2 = AMBIGUOUS"
    by blast
  have "evalLeaf N cs ev check tape_h 0 t p = Inr (done_cell t2, p2)"
    using f c by (simp add: e)
  then show ?thesis using r r2 by simp
qed

lemma evalLeaf_level: "lvl \<noteq> 0 \<Longrightarrow> evalLeaf N cs ev check tape_h lvl t p = Inl AssertionFailed"
  by (simp add: evalLeaf_def get_leaf_def)

lemma evalLeaf_signs:
  assumes "evalLeaf N cs ev check tape_h lvl t p = Inr (t', p')"
  shows "signs_agree t' p' \<and> has_leaf N t'"
proof -
  have l0: "lvl = 0" using assms evalLeaf_level[of lvl N cs ev check tape_h t p] by (cases "lvl = 0") auto
  from evalLeaf_total[of N cs ev check tape_h t p]
  obtain t2 p2 lf where e: "evalLeaf N cs ev check tape_h 0 t p = Inr (t2, p2)"
    and r: "leaf t2 = Some lf" "length (sub lf) = 3 ^ N"
      "(type t2 = FILLED) = uniform_signs True lf p2"
      "(type t2 = EMPTY) = uniform_signs False lf p2"
    by blast
  have "t' = t2" "p' = p2" using assms e l0 by simp_all
  then show ?thesis using r by (auto simp: signs_agree_def has_leaf_def)
qed


subsection \<open>collectChildren\<close>

lemma collectChildren_waiting:
  "pending t \<noteq> 0 \<Longrightarrow>
     collectChildren N ix ev tape_h lvl max_err t p = Inr (False, set_pending (pending t - 1) t, p)"
  by (simp add: collectChildren_def)

lemma collectChildren_null:
  "pending t = 0 \<Longrightarrow> length (children t) \<noteq> 2 ^ N \<Longrightarrow>
     collectChildren N ix ev tape_h lvl max_err t p = Inl NullPointer"
  by (simp add: collectChildren_def Let_def)

lemma collectChildren_branch:
  "pending t = 0 \<Longrightarrow> length (children t) = 2 ^ N \<Longrightarrow> list_ex isBranch (children t) \<Longrightarrow>
     collectChildren N ix ev tape_h lvl max_err t p = Inr (True, done_cell (set_pending (- 1) t), p)"
  by (simp add: collectChildren_def Let_def)

lemma collectChildren_leaf:
  "pending t = 0 \<Longrightarrow> length (children t) = 2 ^ N \<Longrightarrow> \<not> list_ex isBranch (children t) \<Longrightarrow>
     leaf t \<noteq> None \<Longrightarrow>
     collectChildren N ix ev tape_h lvl max_err t p = Inl AssertionFailed"
  by (simp add: collectChildren_def Let_def)

lemma collectChildren_pure:
  assumes "pending t = 0" "length (children t) = 2 ^ N" "\<not> list_ex isBranch (children t)"
    "leaf t = None"
    "list_all (\<lambda>c. type c = EMPTY) (children t) \<or> list_all (\<lambda>c. type c = FILLED) (children t)"
  shows "\<exists>t' p' lf. collectChildren N ix ev tape_h lvl max_err t p = Inr (True, t', p')
           \<and> type t' = (if list_all (\<lambda>c. type c = EMPTY) (children t) then EMPTY else FILLED)
           \<and> children t' = [] \<and> finished t'
           \<and> leaf t' = Some lf \<and> length (sub lf) = 3 ^ N \<and> level lf = lvl
           \<and> l_tape lf = Some tape_h
           \<and> uniform_signs (type t' = FILLED) lf p'
           \<and> free_trees p' = free_trees p + 2 ^ N"
proof -
  let ?ty = "if list_all (\<lambda>c. type c = EMPTY) (children t) then EMPTY else FILLED"
  let ?lf = "(Leaf_reset N) \<lparr> level := lvl, l_tape := Some tape_h \<rparr>"
  let ?t2 = "set_children [] (set_type ?ty (set_leaf (Some ?lf) (set_pending (- 1) t)))"
  let ?p1 = "p \<lparr> free_leaves := free_leaves p - 1 \<rparr>"
  let ?p2 = "fold Tree_releaseTo (children t) ?p1"
  have e: "collectChildren N ix ev tape_h lvl max_err t p =
      (case findLeafVertices N (ix_corner_sub ix) ev (\<lambda>i. None) ?t2 ?p2 of
         Inl e \<Rightarrow> Inl e
       | Inr (t3, p3) \<Rightarrow> Inr (True, done_cell t3, p3))"
    using assms by (auto simp: collectChildren_def Let_def get_leaf_def releaseChildren_def)
  have ty: "type ?t2 = FILLED \<or> type ?t2 = EMPTY" by simp
  have lf: "leaf ?t2 = Some ?lf" by simp
  from findLeafVertices_pure[OF ty lf, of N "ix_corner_sub ix" ev "\<lambda>i. None" ?p2]
  obtain t3 p3 lf3 where f: "findLeafVertices N (ix_corner_sub ix) ev (\<lambda>i. None) ?t2 ?p2 = Inr (t3, p3)"
    and r: "type t3 = ?ty" "children t3 = []" "leaf t3 = Some lf3"
      "length (sub lf3) = 3 ^ N" "level lf3 = lvl" "l_tape lf3 = Some tape_h"
      "uniform_signs (?ty = FILLED) lf3 p3" "counts p3 = counts ?p2"
    by (auto simp: Leaf_reset_def)
  have "free_trees ?p2 = free_trees ?p1 + length (children t)"
    by (rule free_trees_fold_Tree_releaseTo)
  then have ft: "free_trees p3 = free_trees p + 2 ^ N"
    using r(8) assms(2) by (simp add: counts_def)
  have "collectChildren N ix ev tape_h lvl max_err t p = Inr (True, done_cell t3, p3)"
    using f by (simp add: e)
  then show ?thesis using r(1-7) ft by simp
qed

lemma collectChildren_fail:
  assumes "pending t = 0" "length (children t) = 2 ^ N" "\<not> list_ex isBranch (children t)"
    "leaf t = None"
    "\<not> list_all (\<lambda>c. type c = EMPTY) (children t)"
    "\<not> list_all (\<lambda>c. type c = FILLED) (children t)"
    "fold alloc_sub [0 ..< 3 ^ N] (replicate (3 ^ N) 0, p \<lparr> free_leaves := free_leaves p - 1 \<rparr>) = (sb, p2)"
    "sum_qefs N ix sb (children t) (List.product [0 ..< 2 ^ N] [0 ..< 3 ^ N]) p2 = Inl e"
  shows "collectChildren N ix ev tape_h lvl max_err t p = Inl e"
  using assms
  by (simp add: collectChildren_def Let_def get_leaf_def Leaf_reset_def)

lemma collectChildren_reject:
  assumes "pending t = 0" "length (children t) = 2 ^ N" "\<not> list_ex isBranch (children t)"
    "leaf t = None"
    "\<not> list_all (\<lambda>c. type c = EMPTY) (children t)"
    "\<not> list_all (\<lambda>c. type c = FILLED) (children t)"
    "fold alloc_sub [0 ..< 3 ^ N] (replicate (3 ^ N) 0, p \<lparr> free_leaves := free_leaves p - 1 \<rparr>) = (sb, p2)"
    "sum_qefs N ix sb (children t) (List.product [0 ..< 2 ^ N] [0 ..< 3 ^ N]) p2 = Inr p3"
    "\<not> ev_error ev < max_err"
  shows "collectChildren N ix ev tape_h lvl max_err t p =
           Inr (True, SimplexTree AMBIGUOUS None (children t) (- 1) True,
                Leaf_releaseTo \<lparr> level = lvl, l_tape = Some tape_h, sub = sb \<rparr> p3)"
  using assms
  by (simp add: collectChildren_def Let_def get_leaf_def Leaf_reset_def
      set_leaf_def set_type_def set_pending_def done_cell_def)

lemma collectChildren_commit:
  assumes "pending t = 0" "length (children t) = 2 ^ N" "\<not> list_ex isBranch (children t)"
    "leaf t = None"
    "\<not> list_all (\<lambda>c. type c = EMPTY) (children t)"
    "\<not> list_all (\<lambda>c. type c = FILLED) (children t)"
    "fold alloc_sub [0 ..< 3 ^ N] (replicate (3 ^ N) 0, p \<lparr> free_leaves := free_leaves p - 1 \<rparr>) = (sb, p2)"
    "sum_qefs N ix sb (children t) (List.product [0 ..< 2 ^ N] [0 ..< 3 ^ N]) p2 = Inr p3"
    "ev_error ev < max_err"
  shows "\<exists>t' p'. collectChildren N ix ev tape_h lvl max_err t p = Inr (True, t', p')
           \<and> children t' = [] \<and> finished t'
           \<and> leaf t' = Some \<lparr> level = lvl, l_tape = Some tape_h, sub = sb \<rparr>
           \<and> length sb = 3 ^ N
           \<and> (type t' = FILLED) = uniform_signs True \<lparr> level = lvl, l_tape = Some tape_h, sub = sb \<rparr> p'
           \<and> (type t' = EMPTY) = uniform_signs False \<lparr> level = lvl, l_tape = Some tape_h, sub = sb \<rparr> p'
           \<and> (type t' = FILLED \<or> type t' = EMPTY \<or> type t' = AMBIGUOUS)
           \<and> (\<forall>b. inside (heap p' b) =
                  inside (heap (fold (save_sign ev sb (replicate (3 ^ N) False)) [0 ..< 3 ^ N] p3) b))
           \<and> (\<forall>b. qef (heap p' b) = qef (heap p3 b))
           \<and> free_trees p' = free_trees p + 2 ^ N"
proof -
  let ?lf = "\<lparr> level = lvl, l_tape = Some tape_h, sub = sb \<rparr>"
  let ?t2 = "SimplexTree AMBIGUOUS (Some ?lf) (children t) (- 1) (finished t)"
  let ?p4 = "fold (save_sign ev sb (replicate (3 ^ N) False)) [0 ..< 3 ^ N] p3"
  have len: "length sb = 3 ^ N" and c2: "counts p2 = counts (p \<lparr> free_leaves := free_leaves p - 1 \<rparr>)"
    using alloc_props[OF assms(7)] by simp_all
  have c3: "counts p3 = counts p2" using sum_qefs_counts[OF assms(8)] .
  have sv: "saveVertexSigns N ev (replicate (3 ^ N) False) ?t2 p3 = Inr ?p4"
    by (simp add: saveVertexSigns_def)
  have ne: "sub ?lf \<noteq> []" using len by auto
  have lf: "leaf ?t2 = Some ?lf" by simp
  from checkVertexSigns_agree[OF lf ne, of ?p4]
  obtain t3 where c: "checkVertexSigns ?t2 ?p4 = Inr t3"
    and r: "leaf t3 = Some ?lf" "children t3 = children t"
      "(type t3 = FILLED) = uniform_signs True ?lf ?p4"
      "(type t3 = EMPTY) = uniform_signs False ?lf ?p4"
      "type t3 = FILLED \<or> type t3 = EMPTY \<or> type t3 = AMBIGUOUS"
    by auto
  let ?p5 = "fold Tree_releaseTo (children t) ?p4"
  have e: "collectChildren N ix ev tape_h lvl max_err t p =
             Inr (True, done_cell (set_children [] t3), ?p5)"
    using assms sv c r(2)
    by (simp add: collectChildren_def Let_def get_leaf_def Leaf_reset_def releaseChildren_def
        set_leaf_def set_type_def set_pending_def)
  have ins: "\<And>b. inside (heap ?p5 b) = inside (heap ?p4 b)"
    by (rule fold_Tree_releaseTo_inside)
  have u: "\<And>v. uniform_signs v ?lf ?p5 = uniform_signs v ?lf ?p4"
    by (rule uniform_signs_cong) (rule ins)
  have q: "\<And>b. qef (heap ?p5 b) = qef (heap p3 b)"
    by (simp add: fold_Tree_releaseTo_qef fold_save_sign_qef)
  have "counts ?p4 = counts p3" by simp
  then have "free_trees ?p4 = free_trees p" using c3 c2 by (simp add: counts_def)
  then have ft: "free_trees ?p5 = free_trees p + 2 ^ N"
    using free_trees_fold_Tree_releaseTo[of "children t" ?p4] assms(2) by simp
  show ?thesis using e r u ins q ft len by simp
qed


lemma collectChildren_signs:
  assumes "leaf t = None" "collectChildren N ix ev tape_h lvl max_err t p = Inr (b, t', p')"
  shows "signs_agree t' p' \<and> (leaf t' \<noteq> None \<longrightarrow> has_leaf N t')"
proof (cases "pending t \<noteq> 0")
  case True
  have "t' = set_pending (pending t - 1) t"
    using assms(2) collectChildren_waiting[OF True, of N ix ev tape_h lvl max_err p] by simp
  then show ?thesis using assms(1) by (simp add: signs_agree_def)
next
  case False
  then have p0: "pending t = 0" by simp
  have len: "length (children t) = 2 ^ N"
    using assms(2) collectChildren_null[OF p0, of N ix ev tape_h lvl max_err p]
    by (cases "length (children t) = 2 ^ N") auto
  show ?thesis
  proof (cases "list_ex isBranch (children t)")
    case True
    have "t' = done_cell (set_pending (- 1) t)"
      using assms(2) collectChildren_branch[OF p0 len True, of ix ev tape_h lvl max_err p] by simp
    then show ?thesis using assms(1) by (simp add: signs_agree_def)
  next
    case nb: False
    show ?thesis
    proof (cases "list_all (\<lambda>c. type c = EMPTY) (children t) \<or> list_all (\<lambda>c. type c = FILLED) (children t)")
      case True
      from collectChildren_pure[OF p0 len nb assms(1) True, of ix ev tape_h lvl max_err p]
      obtain t2 p2 lf where e: "collectChildren N ix ev tape_h lvl max_err t p = Inr (True, t2, p2)"
        and r: "type t2 = (if list_all (\<lambda>c. type c = EMPTY) (children t) then EMPTY else FILLED)"
          "leaf t2 = Some lf" "length (sub lf) = 3 ^ N" "uniform_signs (type t2 = FILLED) lf p2"
        by blast
      have "t' = t2" "p' = p2" using assms(2) e by simp_all
      then show ?thesis using r by (auto simp: signs_agree_def has_leaf_def split: if_splits)
    next
      case False
      then have ne: "\<not> list_all (\<lambda>c. type c = EMPTY) (children t)"
        and nf: "\<not> list_all (\<lambda>c. type c = FILLED) (children t)" by simp_all
      obtain sb p2 where al: "fold alloc_sub [0 ..< 3 ^ N]
          (replicate (3 ^ N) 0, p \<lparr> free_leaves := free_leaves p - 1 \<rparr>) = (sb, p2)"
        by (cases "fold alloc_sub [0 ..< 3 ^ N]
          (replicate (3 ^ N) 0, p \<lparr> free_leaves := free_leaves p - 1 \<rparr>)") auto
      show ?thesis
      proof (cases "sum_qefs N ix sb (children t) (List.product [0 ..< 2 ^ N] [0 ..< 3 ^ N]) p2")
        case (Inl e)
        show ?thesis
          using assms(2) collectChildren_fail[OF p0 len nb assms(1) ne nf al Inl, of ev tape_h lvl max_err]
          by simp
      next
        case (Inr p3)
        show ?thesis
        proof (cases "ev_error ev < max_err")
          case True
          let ?lf = "\<lparr> level = lvl, l_tape = Some tape_h, sub = sb \<rparr>"
          from collectChildren_commit[OF p0 len nb assms(1) ne nf al Inr True, of tape_h lvl]
          obtain t2 p2' where e: "collectChildren N ix ev tape_h lvl max_err t p = Inr (True, t2, p2')"
            and r: "leaf t2 = Some ?lf" "length sb = 3 ^ N"
              "(type t2 = FILLED) = uniform_signs True ?lf p2'"
              "(type t2 = EMPTY) = uniform_signs False ?lf p2'"
            by blast
          have "t' = t2" "p' = p2'" using assms(2) e by simp_all
          then show ?thesis using r by (auto simp: signs_agree_def has_leaf_def)
        next
          case False
          have "t' = SimplexTree AMBIGUOUS None (children t) (- 1) True"
            using assms(2) collectChildren_reject[OF p0 len nb assms(1) ne nf al Inr False, of tape_h lvl]
            by simp
          then show ?thesis by (simp add: signs_agree_def)
        qed
      qed
    qed
  qed
qed

lemma findLeafVertices_signs:
  assumes "findLeafVertices N cs ev check t p = Inr (t', p')" "type t = FILLED \<or> type t = EMPTY"
  shows "type t' = type t \<and> leaf t' \<noteq> None \<and> signs_agree t' p'"
proof -
  obtain lf0 where l: "leaf t = Some lf0"
    using assms(1) by (cases "leaf t") (auto simp: findLeafVertices_def)
  from findLeafVertices_pure[OF assms(2) l, of N cs ev check p]
  obtain t2 p2 lf where e: "findLeafVertices N cs ev check t p = Inr (t2, p2)"
    and r: "type t2 = type t" "leaf t2 = Some lf" "uniform_signs (type t = FILLED) lf p2"
    by blast
  have "t' = t2" "p' = p2" using assms(1) e by simp_all
  then show ?thesis using r assms(2) by (auto simp: signs_agree_def)
qed

lemma checkVertexSigns_signs:
  assumes "checkVertexSigns t p = Inr t'"
  shows "leaf t' = leaf t \<and> leaf t' \<noteq> None \<and> signs_agree t' p"
  using assms
  by (auto simp: checkVertexSigns_def signs_agree_def uniform_signs_def Let_def
      split: option.splits if_splits)

subsection \<open>The merged leaf\<close>

lemma get_sub_fresh:
  assumes "pool_ok L p"
  shows "fst (get_sub p) \<notin> L \<and> pool_ok (insert (fst (get_sub p)) L) (snd (get_sub p))
         \<and> heap (snd (get_sub p)) = (heap p)(fst (get_sub p) := Sub_reset)"
proof (cases "free_subs p")
  case Nil
  then show ?thesis using assms by (auto simp: get_sub_def pool_ok_def less_Suc_eq)
next
  case (Cons a as)
  then show ?thesis using assms by (auto simp: get_sub_def pool_ok_def)
qed


lemma alloc_fresh:
  assumes "fold alloc_sub is (sb, p) = (sb', p')" "pool_ok L p" "distinct is"
    "\<forall>i \<in> set is. i < length sb"
  shows "pool_ok (L \<union> (\<lambda>i. sb' ! i) ` set is) p'
         \<and> (\<lambda>i. sb' ! i) ` set is \<inter> L = {}
         \<and> inj_on (\<lambda>i. sb' ! i) (set is)
         \<and> (\<forall>i. i \<notin> set is \<longrightarrow> sb' ! i = sb ! i)
         \<and> (\<forall>a. a \<notin> (\<lambda>i. sb' ! i) ` set is \<longrightarrow> heap p' a = heap p a)
         \<and> (\<forall>i \<in> set is. heap p' (sb' ! i) = Sub_reset)
         \<and> length sb' = length sb"
  using assms
proof (induction "is" arbitrary: sb p L)
  case Nil
  then show ?case by simp
next
  case (Cons i "is")
  define a where "a = fst (get_sub p)"
  define p1 where "p1 = snd (get_sub p)"
  define F where "F = (\<lambda>i. sb' ! i) ` set is"
  have st: "alloc_sub i (sb, p) = (sb[i := a], p1)" by (simp add: alloc_sub_def a_def p1_def)
  have f: "fold alloc_sub is (sb[i := a], p1) = (sb', p')" using Cons.prems(1) st by simp
  from get_sub_fresh[OF Cons.prems(2)]
  have g: "a \<notin> L" "pool_ok (insert a L) p1" "heap p1 = (heap p)(a := Sub_reset)"
    by (simp_all add: a_def p1_def)
  have d: "distinct is" "i \<notin> set is" using Cons.prems(3) by simp_all
  have b: "\<forall>j \<in> set is. j < length (sb[i := a])" using Cons.prems(4) by simp
  have il: "i < length sb" using Cons.prems(4) by simp
  note IH = Cons.IH[OF f g(2) d(1) b, folded F_def]
  have ih1: "pool_ok (insert a L \<union> F) p'" using IH by (rule conjunct1)
  have ih2: "F \<inter> insert a L = {}" using IH by (rule conjunct2[THEN conjunct1])
  have ih3: "inj_on (\<lambda>i. sb' ! i) (set is)"
    using IH by (rule conjunct2[THEN conjunct2, THEN conjunct1])
  have ih4: "\<forall>j. j \<notin> set is \<longrightarrow> sb' ! j = sb[i := a] ! j"
    using IH by (rule conjunct2[THEN conjunct2, THEN conjunct2, THEN conjunct1])
  have ih5: "\<forall>x. x \<notin> F \<longrightarrow> heap p' x = heap p1 x"
    using IH by (rule conjunct2[THEN conjunct2, THEN conjunct2, THEN conjunct2, THEN conjunct1])
  have ih6: "\<forall>j \<in> set is. heap p' (sb' ! j) = Sub_reset"
    using IH by (rule conjunct2[THEN conjunct2, THEN conjunct2, THEN conjunct2, THEN conjunct2, THEN conjunct1])
  have ih7: "length sb' = length (sb[i := a])"
    using IH by (rule conjunct2[THEN conjunct2, THEN conjunct2, THEN conjunct2, THEN conjunct2, THEN conjunct2])
  have "sb' ! i = sb[i := a] ! i" using ih4 d(2) by blast
  then have ai: "sb' ! i = a" using il by simp
  have an: "a \<notin> F" using ih2 by blast
  have im: "(\<lambda>i. sb' ! i) ` set (i # is) = insert a F"
    using ai by (simp add: F_def)
  have un: "L \<union> insert a F = insert a L \<union> F" by blast
  have c1: "pool_ok (L \<union> (\<lambda>i. sb' ! i) ` set (i # is)) p'"
    unfolding im un by (rule ih1)
  have c2: "(\<lambda>i. sb' ! i) ` set (i # is) \<inter> L = {}"
    unfolding im using ih2 g(1) by blast
  have "sb' ! i \<notin> (\<lambda>i. sb' ! i) ` (set is - {i})" using an ai d(2) by (simp add: F_def)
  then have c3: "inj_on (\<lambda>i. sb' ! i) (set (i # is))"
    using ih3 by simp
  have c4: "\<forall>j. j \<notin> set (i # is) \<longrightarrow> sb' ! j = sb ! j"
  proof (intro allI impI)
    fix j assume "j \<notin> set (i # is)"
    then have "j \<notin> set is" "j \<noteq> i" by simp_all
    then show "sb' ! j = sb ! j" using ih4 by simp
  qed
  have c5: "\<forall>x. x \<notin> (\<lambda>i. sb' ! i) ` set (i # is) \<longrightarrow> heap p' x = heap p x"
    unfolding im
  proof (intro allI impI)
    fix x assume "x \<notin> insert a F"
    then have "x \<notin> F" "x \<noteq> a" by simp_all
    then show "heap p' x = heap p x" using ih5 g(3) by simp
  qed
  have "heap p' a = heap p1 a" using ih5 an by blast
  then have ha: "heap p' a = Sub_reset" using g(3) by simp
  have c6: "\<forall>j \<in> set (i # is). heap p' (sb' ! j) = Sub_reset"
    using ih6 ai ha by simp
  have c7: "length sb' = length sb" using ih7 by simp
  show ?case by (intro conjI c1 c2 c3 c4 c5 c6 c7)
qed


lemma add_child_qef_cases:
  assumes "add_child_qef N ix sb cs (i, j) p = Inr p1"
  shows "p1 = (if valid_sub N ix i j
               then upd_sub (sb ! target_sub N ix i j)
                      (\<lambda>s. s \<lparr> qef := qef s + qef (heap p (child_sub cs i j)) \<rparr>) p
               else p)"
  using assms
  by (auto simp: add_child_qef_def child_sub_def split: option.splits if_splits)

lemma sum_qefs_sums:
  assumes "sum_qefs N ix sb cs ijs p = Inr p'" "distinct sb"
    "\<forall>(i, j) \<in> set ijs. child_sub cs i j \<notin> set sb"
    "\<forall>(i, j) \<in> set ijs. valid_sub N ix i j \<longrightarrow> target_sub N ix i j < length sb"
  shows "(\<forall>k < length sb. qef (heap p' (sb ! k)) =
            qef (heap p (sb ! k)) + sum_list (map (contribution N ix cs p k) ijs))
         \<and> (\<forall>a. a \<notin> set sb \<longrightarrow> heap p' a = heap p a)
         \<and> (\<forall>a. inside (heap p' a) = inside (heap p a))"
  using assms
proof (induction ijs arbitrary: p)
  case Nil
  then show ?case by simp
next
  case (Cons ij ijs)
  obtain i j where ij: "ij = (i, j)" by (cases ij) auto
  from Cons.prems(1) obtain p1 where a: "add_child_qef N ix sb cs (i, j) p = Inr p1"
    and s: "sum_qefs N ix sb cs ijs p1 = Inr p'"
    unfolding ij by (cases "add_child_qef N ix sb cs (i, j) p") auto
  note p1 = add_child_qef_cases[OF a]
  have tg: "valid_sub N ix i j \<longrightarrow> target_sub N ix i j < length sb"
    using Cons.prems(4) ij by simp
  have h3: "\<forall>(i, j) \<in> set ijs. child_sub cs i j \<notin> set sb" using Cons.prems(3) by simp
  have h4: "\<forall>(i, j) \<in> set ijs. valid_sub N ix i j \<longrightarrow> target_sub N ix i j < length sb"
    using Cons.prems(4) by simp
  have out: "\<And>x. x \<notin> set sb \<Longrightarrow> heap p1 x = heap p x"
  proof -
    fix x assume x: "x \<notin> set sb"
    show "heap p1 x = heap p x"
    proof (cases "valid_sub N ix i j")
      case True
      then have "sb ! target_sub N ix i j \<in> set sb" using tg by simp
      then have "x \<noteq> sb ! target_sub N ix i j" using x by auto
      then show ?thesis using p1 True by (simp add: upd_sub_def)
    next
      case False
      then show ?thesis using p1 by simp
    qed
  qed
  have ins: "\<And>x. inside (heap p1 x) = inside (heap p x)"
    using p1 by (simp add: upd_sub_def)
  have step: "\<And>k. k < length sb \<Longrightarrow>
      qef (heap p1 (sb ! k)) = qef (heap p (sb ! k)) + contribution N ix cs p k (i, j)"
  proof -
    fix k assume k: "k < length sb"
    show "qef (heap p1 (sb ! k)) = qef (heap p (sb ! k)) + contribution N ix cs p k (i, j)"
    proof (cases "valid_sub N ix i j")
      case True
      then have t: "target_sub N ix i j < length sb" using tg by simp
      have "(sb ! k = sb ! target_sub N ix i j) = (k = target_sub N ix i j)"
        using nth_eq_iff_index_eq[OF Cons.prems(2) k t] .
      then show ?thesis using p1 True by (auto simp: upd_sub_def contribution_def)
    next
      case False
      then show ?thesis using p1 by (simp add: contribution_def)
    qed
  qed
  have same: "\<And>k. map (contribution N ix cs p1 k) ijs = map (contribution N ix cs p k) ijs"
  proof -
    fix k
    show "map (contribution N ix cs p1 k) ijs = map (contribution N ix cs p k) ijs"
    proof (rule map_cong[OF refl])
      fix x assume x: "x \<in> set ijs"
      obtain i' j' where xx: "x = (i', j')" by (cases x) auto
      have "child_sub cs i' j' \<notin> set sb" using h3 x xx by auto
      then have "heap p1 (child_sub cs i' j') = heap p (child_sub cs i' j')" by (rule out)
      then show "contribution N ix cs p1 k x = contribution N ix cs p k x"
        by (simp add: contribution_def xx)
    qed
  qed
  note IH = Cons.IH[OF s Cons.prems(2) h3 h4]
  have ih1: "\<forall>k < length sb. qef (heap p' (sb ! k)) =
            qef (heap p1 (sb ! k)) + sum_list (map (contribution N ix cs p1 k) ijs)"
    using IH by (rule conjunct1)
  have ih2: "\<forall>a. a \<notin> set sb \<longrightarrow> heap p' a = heap p1 a"
    using IH by (rule conjunct2[THEN conjunct1])
  have ih3: "\<forall>a. inside (heap p' a) = inside (heap p1 a)"
    using IH by (rule conjunct2[THEN conjunct2])
  have c1: "\<forall>k < length sb. qef (heap p' (sb ! k)) =
            qef (heap p (sb ! k)) + sum_list (map (contribution N ix cs p k) (ij # ijs))"
  proof (intro allI impI)
    fix k assume k: "k < length sb"
    have "qef (heap p' (sb ! k)) =
            qef (heap p1 (sb ! k)) + sum_list (map (contribution N ix cs p1 k) ijs)"
      using ih1 k by blast
    then show "qef (heap p' (sb ! k)) =
            qef (heap p (sb ! k)) + sum_list (map (contribution N ix cs p k) (ij # ijs))"
      using step[OF k] same[of k] by (simp add: ij)
  qed
  have c2: "\<forall>a. a \<notin> set sb \<longrightarrow> heap p' a = heap p a" using ih2 out by simp
  have c3: "\<forall>a. inside (heap p' a) = inside (heap p a)" using ih3 ins by simp
  show ?case by (intro conjI c1 c2 c3)
qed

lemma sum_qefs_total:
  assumes "leaves_ok N cs" "\<forall>(i, j) \<in> set ijs. i < length cs \<and> j < 3 ^ N"
  shows "\<exists>p'. sum_qefs N ix sb cs ijs p = Inr p'"
  using assms(2)
proof (induction ijs arbitrary: p)
  case Nil
  then show ?case by simp
next
  case (Cons ij ijs)
  obtain i j where ij: "ij = (i, j)" by (cases ij) auto
  have b: "i < length cs" "j < 3 ^ N" using Cons.prems ij by simp_all
  have "cs ! i \<in> set cs" using b(1) by simp
  then obtain cl where cl: "leaf (cs ! i) = Some cl" "length (sub cl) = 3 ^ N" "0 \<notin> set (sub cl)"
    using assms(1) by (auto simp: leaves_ok_def list_all_iff split: option.splits)
  have "sub cl ! j \<in> set (sub cl)" using b(2) cl(2) by simp
  then have nz: "sub cl ! j \<noteq> 0" using cl(3) by metis
  obtain p1 where a: "add_child_qef N ix sb cs (i, j) p = Inr p1"
    using cl(1) nz by (cases "valid_sub N ix i j") (simp_all add: add_child_qef_def)
  have "\<forall>(i, j) \<in> set ijs. i < length cs \<and> j < 3 ^ N" using Cons.prems by simp
  from Cons.IH[OF this, of p1] obtain p' where "sum_qefs N ix sb cs ijs p1 = Inr p'" by blast
  then show ?case using a by (simp add: ij)
qed

lemma save_sign_fresh:
  assumes "distinct sb" "distinct is" "\<forall>i \<in> set is. i < length sb \<and> i < length solved \<and> \<not> solved ! i"
  shows "(\<forall>i \<in> set is. inside (heap (fold (save_sign ev sb solved) is p) (sb ! i)) = ev_inside ev i)
         \<and> (\<forall>a. a \<notin> (\<lambda>i. sb ! i) ` set is \<longrightarrow>
               heap (fold (save_sign ev sb solved) is p) a = heap p a)"
  using assms(2,3)
proof (induction "is" arbitrary: p)
  case Nil
  then show ?case by simp
next
  case (Cons i "is")
  let ?p1 = "save_sign ev sb solved i p"
  have i: "i < length sb" "\<not> solved ! i" "i \<notin> set is" using Cons.prems by simp_all
  have d: "distinct is" "\<forall>i \<in> set is. i < length sb \<and> i < length solved \<and> \<not> solved ! i"
    using Cons.prems by simp_all
  note IH = Cons.IH[OF d, of ?p1]
  have ih1: "\<forall>j \<in> set is. inside (heap (fold (save_sign ev sb solved) is ?p1) (sb ! j)) = ev_inside ev j"
    using IH by (rule conjunct1)
  have ih2: "\<forall>a. a \<notin> (\<lambda>i. sb ! i) ` set is \<longrightarrow>
               heap (fold (save_sign ev sb solved) is ?p1) a = heap ?p1 a"
    using IH by (rule conjunct2)
  have ni: "sb ! i \<notin> (\<lambda>i. sb ! i) ` set is"
  proof
    assume "sb ! i \<in> (\<lambda>i. sb ! i) ` set is"
    then obtain j where j: "j \<in> set is" "sb ! i = sb ! j" by auto
    then have "j < length sb" using d(2) by simp
    then have "(sb ! i = sb ! j) = (i = j)" by (rule nth_eq_iff_index_eq[OF assms(1) i(1)])
    then have "i = j" using j(2) by simp
    then show False using j(1) i(3) by simp
  qed
  have h1: "heap ?p1 (sb ! i) = (heap p (sb ! i)) \<lparr> inside := ev_inside ev i \<rparr>"
    using i(2) by (simp add: save_sign_def upd_sub_def)
  have "heap (fold (save_sign ev sb solved) is ?p1) (sb ! i) = heap ?p1 (sb ! i)"
    using ih2 ni by blast
  then have c0: "inside (heap (fold (save_sign ev sb solved) is ?p1) (sb ! i)) = ev_inside ev i"
    using h1 by simp
  have c1: "\<forall>j \<in> set (i # is). inside (heap (fold (save_sign ev sb solved) (i # is) p) (sb ! j)) = ev_inside ev j"
    using c0 ih1 by simp
  have c2: "\<forall>a. a \<notin> (\<lambda>i. sb ! i) ` set (i # is) \<longrightarrow>
               heap (fold (save_sign ev sb solved) (i # is) p) a = heap p a"
  proof (intro allI impI)
    fix a assume a: "a \<notin> (\<lambda>i. sb ! i) ` set (i # is)"
    then have a1: "a \<noteq> sb ! i" "a \<notin> (\<lambda>i. sb ! i) ` set is" by auto
    have "heap ?p1 a = heap p a" using a1(1) by (simp add: save_sign_def upd_sub_def)
    then show "heap (fold (save_sign ev sb solved) (i # is) p) a = heap p a"
      using ih2 a1(2) by simp
  qed
  show ?case by (intro conjI c1 c2)
qed


lemma child_sub_live:
  assumes "leaves_ok N cs" "i < length cs" "j < 3 ^ N"
  shows "child_sub cs i j \<in> live cs"
proof -
  have m: "cs ! i \<in> set cs" using assms(2) by simp
  then obtain cl where cl: "leaf (cs ! i) = Some cl" "length (sub cl) = 3 ^ N"
    using assms(1) by (auto simp: leaves_ok_def list_all_iff split: option.splits)
  have "sub cl ! j \<in> set (sub cl)" using assms(3) cl(2) by simp
  then have "sub cl ! j \<in> live cs" using m cl(1) by (force simp: live_def)
  then show ?thesis using cl(1) by (simp add: child_sub_def)
qed

lemma merged_leaf:
  assumes al: "fold alloc_sub [0 ..< 3 ^ N] (replicate (3 ^ N) 0, p0) = (sb, p2)"
    and sq: "sum_qefs N ix sb cs (List.product [0 ..< 2 ^ N] [0 ..< 3 ^ N]) p2 = Inr p3"
    and pk: "pool_ok (live cs) p0" "targets_ok N ix" "leaves_ok N cs" "length cs = 2 ^ N"
    and h0: "heap p0 = heap p"
  shows "distinct sb \<and> length sb = 3 ^ N \<and> set sb \<inter> live cs = {}
         \<and> (\<forall>k < 3 ^ N. qef (heap p3 (sb ! k)) = qef_sum N ix cs p k)
         \<and> (\<forall>a. a \<notin> set sb \<longrightarrow> heap p3 a = heap p a)"
proof -
  have b: "\<forall>i \<in> set [0 ..< 3 ^ N]. i < length (replicate (3 ^ N) (0::nat))" by simp
  note A = alloc_fresh[OF al pk(1) distinct_upt b]
  have len: "length sb = 3 ^ N" using A by simp
  have "(!) sb ` {0 ..< length sb} = set (take (length sb) sb)" by (rule nth_image) simp
  then have im: "(\<lambda>i. sb ! i) ` set [0 ..< 3 ^ N] = set sb"
    using len by simp
  have a2: "set sb \<inter> live cs = {}" using A im by simp
  have a3: "inj_on (\<lambda>i. sb ! i) (set [0 ..< 3 ^ N])"
    using A by (rule conjunct2[THEN conjunct2, THEN conjunct1])
  have a5: "\<forall>a. a \<notin> set sb \<longrightarrow> heap p2 a = heap p a" using A im h0 by simp
  have a6: "\<forall>i < 3 ^ N. heap p2 (sb ! i) = Sub_reset" using A by simp
  have d: "distinct sb"
    unfolding distinct_conv_nth
  proof (intro allI impI)
    fix i j assume "i < length sb" "j < length sb" "i \<noteq> j"
    then show "sb ! i \<noteq> sb ! j" using a3 len by (auto simp: inj_on_def)
  qed
  have h3: "\<forall>(i, j) \<in> set (List.product [0 ..< 2 ^ N] [0 ..< 3 ^ N]). child_sub cs i j \<notin> set sb"
  proof (clarify)
    fix i j assume ij: "(i, j) \<in> set (List.product [0 ..< 2 ^ N] [0 ..< 3 ^ N])"
      and m: "child_sub cs i j \<in> set sb"
    have "i < length cs" "j < 3 ^ N" using ij pk(4) by simp_all
    then have "child_sub cs i j \<in> live cs" using child_sub_live[OF pk(3)] by blast
    then show False using a2 m by blast
  qed
  have h4: "\<forall>(i, j) \<in> set (List.product [0 ..< 2 ^ N] [0 ..< 3 ^ N]).
              valid_sub N ix i j \<longrightarrow> target_sub N ix i j < length sb"
    using pk(2) len by (simp add: targets_ok_def list_all_iff)
  note S = sum_qefs_sums[OF sq d h3 h4]
  have s1: "\<forall>k < length sb. qef (heap p3 (sb ! k)) =
            qef (heap p2 (sb ! k)) + sum_list (map (contribution N ix cs p2 k) (List.product [0 ..< 2 ^ N] [0 ..< 3 ^ N]))"
    using S by (rule conjunct1)
  have s2: "\<forall>a. a \<notin> set sb \<longrightarrow> heap p3 a = heap p2 a"
    using S by (rule conjunct2[THEN conjunct1])
  have same: "\<And>k. map (contribution N ix cs p2 k) (List.product [0 ..< 2 ^ N] [0 ..< 3 ^ N])
                 = map (contribution N ix cs p k) (List.product [0 ..< 2 ^ N] [0 ..< 3 ^ N])"
  proof -
    fix k
    show "map (contribution N ix cs p2 k) (List.product [0 ..< 2 ^ N] [0 ..< 3 ^ N])
                 = map (contribution N ix cs p k) (List.product [0 ..< 2 ^ N] [0 ..< 3 ^ N])"
    proof (rule map_cong[OF refl])
      fix x assume x: "x \<in> set (List.product [0 ..< 2 ^ N] [0 ..< 3 ^ N])"
      obtain i j where xx: "x = (i, j)" by (cases x) auto
      have "child_sub cs i j \<notin> set sb" using h3 x xx by blast
      then have "heap p2 (child_sub cs i j) = heap p (child_sub cs i j)" using a5 by blast
      then show "contribution N ix cs p2 k x = contribution N ix cs p k x"
        by (simp add: contribution_def xx)
    qed
  qed
  have c4: "\<forall>k < 3 ^ N. qef (heap p3 (sb ! k)) = qef_sum N ix cs p k"
  proof (intro allI impI)
    fix k assume k: "k < (3::nat) ^ N"
    have "qef (heap p2 (sb ! k)) = 0" using a6 k by (simp add: Sub_reset_def)
    moreover have "qef (heap p3 (sb ! k)) =
            qef (heap p2 (sb ! k)) + sum_list (map (contribution N ix cs p2 k) (List.product [0 ..< 2 ^ N] [0 ..< 3 ^ N]))"
      using s1 k len by simp
    ultimately show "qef (heap p3 (sb ! k)) = qef_sum N ix cs p k"
      by (simp add: qef_sum_def same)
  qed
  have c5: "\<forall>a. a \<notin> set sb \<longrightarrow> heap p3 a = heap p a" using s2 a5 by simp
  show ?thesis by (intro conjI d len a2 c4 c5)
qed

lemma collectChildren_returns:
  assumes "pending t = 0" "length (children t) = 2 ^ N" "\<not> list_ex isBranch (children t)"
    "leaf t = None" "leaves_ok N (children t)"
  shows "\<exists>t' p'. collectChildren N ix ev tape_h lvl max_err t p = Inr (True, t', p')"
proof (cases "pure_children (children t)")
  case True
  then have pc: "list_all (\<lambda>c. type c = EMPTY) (children t) \<or> list_all (\<lambda>c. type c = FILLED) (children t)"
    by (simp add: pure_children_def)
  from collectChildren_pure[OF assms(1-4) pc, of ix ev tape_h lvl max_err p]
  show ?thesis by blast
next
  case False
  then have ne: "\<not> list_all (\<lambda>c. type c = EMPTY) (children t)"
    and nf: "\<not> list_all (\<lambda>c. type c = FILLED) (children t)"
    by (simp_all add: pure_children_def)
  obtain sb p2 where al: "fold alloc_sub [0 ..< 3 ^ N]
      (replicate (3 ^ N) 0, p \<lparr> free_leaves := free_leaves p - 1 \<rparr>) = (sb, p2)"
    by (cases "fold alloc_sub [0 ..< 3 ^ N]
      (replicate (3 ^ N) 0, p \<lparr> free_leaves := free_leaves p - 1 \<rparr>)") auto
  have "\<forall>(i, j) \<in> set (List.product [0 ..< 2 ^ N] [0 ..< 3 ^ N]). i < length (children t) \<and> j < 3 ^ N"
    using assms(2) by simp
  from sum_qefs_total[OF assms(5) this, of ix sb p2]
  obtain p3 where sq: "sum_qefs N ix sb (children t) (List.product [0 ..< 2 ^ N] [0 ..< 3 ^ N]) p2 = Inr p3"
    by blast
  show ?thesis
  proof (cases "ev_error ev < max_err")
    case True
    from collectChildren_commit[OF assms(1-4) ne nf al sq True, of tape_h lvl]
    show ?thesis by blast
  next
    case False
    from collectChildren_reject[OF assms(1-4) ne nf al sq False, of tape_h lvl]
    show ?thesis by blast
  qed
qed


lemma collectChildren_merged:
  assumes "pending t = 0" "length (children t) = 2 ^ N" "\<not> list_ex isBranch (children t)"
    "leaf t = None" "\<not> pure_children (children t)" "ev_error ev < max_err"
    "pool_ok (live (children t)) p" "targets_ok N ix" "leaves_ok N (children t)"
    "collectChildren N ix ev tape_h lvl max_err t p = Inr (b, t', p')"
  shows "merged N ix ev (children t) p t' p'"
proof -
  have ne: "\<not> list_all (\<lambda>c. type c = EMPTY) (children t)"
    and nf: "\<not> list_all (\<lambda>c. type c = FILLED) (children t)"
    using assms(5) by (simp_all add: pure_children_def)
  let ?p0 = "p \<lparr> free_leaves := free_leaves p - 1 \<rparr>"
  obtain sb p2 where al: "fold alloc_sub [0 ..< 3 ^ N] (replicate (3 ^ N) 0, ?p0) = (sb, p2)"
    by (cases "fold alloc_sub [0 ..< 3 ^ N] (replicate (3 ^ N) 0, ?p0)") auto
  have "\<forall>(i, j) \<in> set (List.product [0 ..< 2 ^ N] [0 ..< 3 ^ N]). i < length (children t) \<and> j < 3 ^ N"
    using assms(2) by simp
  from sum_qefs_total[OF assms(9) this, of ix sb p2]
  obtain p3 where sq: "sum_qefs N ix sb (children t) (List.product [0 ..< 2 ^ N] [0 ..< 3 ^ N]) p2 = Inr p3"
    by blast
  have pk: "pool_ok (live (children t)) ?p0" using assms(7) by (simp add: pool_ok_def)
  have h0: "heap ?p0 = heap p" by simp
  note M = merged_leaf[OF al sq pk assms(8) assms(9) assms(2) h0]
  have d: "distinct sb" and len: "length sb = 3 ^ N"
    and q3: "\<forall>k < 3 ^ N. qef (heap p3 (sb ! k)) = qef_sum N ix (children t) p k"
    using M by simp_all
  let ?lf = "\<lparr> level = lvl, l_tape = Some tape_h, sub = sb \<rparr>"
  let ?p4 = "fold (save_sign ev sb (replicate (3 ^ N) False)) [0 ..< 3 ^ N] p3"
  from collectChildren_commit[OF assms(1-4) ne nf al sq assms(6), of tape_h lvl]
  obtain t2 p2' where e: "collectChildren N ix ev tape_h lvl max_err t p = Inr (True, t2, p2')"
    and r: "leaf t2 = Some ?lf"
      "\<forall>b. inside (heap p2' b) = inside (heap ?p4 b)"
      "\<forall>b. qef (heap p2' b) = qef (heap p3 b)"
    by blast
  have tp: "t' = t2" "p' = p2'" using assms(10) e by simp_all
  have b: "\<forall>i \<in> set [0 ..< 3 ^ N]. i < length sb \<and> i < length (replicate (3 ^ N) False)
             \<and> \<not> replicate (3 ^ N) False ! i"
    using len by simp
  from save_sign_fresh[OF d distinct_upt b, of ev p3]
  have sg: "\<forall>i < 3 ^ N. inside (heap ?p4 (sb ! i)) = ev_inside ev i" by simp
  have "list_all (\<lambda>k. qef (heap p2' (sb ! k)) = qef_sum N ix (children t) p k
                          \<and> inside (heap p2' (sb ! k)) = ev_inside ev k) [0 ..< 3 ^ N]"
    using r(2,3) q3 sg by (simp add: list_all_iff)
  then show ?thesis using tp r(1) d by (simp add: merged_def)
qed

section \<open>The claims\<close>

text \<open>
  C1. On every Tape reached from the constructor by pushes and pops, a push with any
  classifier followed by a pop succeeds and restores the cursor to its previous position
  (and the Subtape under it); the stack \<open>tapes\<close> never shrinks, and after a sequence of
  pushes and pops of maximum nesting depth \<open>d\<close> it holds at most \<open>d + 1\<close> Subtapes.
\<close>

theorem push_pop_restores_cursor:
  assumes "ordered_flat flat" "Tape_new flat = Inr s0" "run ops s0 = Some (Inr s)"
  shows "(\<exists>s' s''. push fn t r s = Some (Inr s') \<and> pop s' = Inr s''
            \<and> tape s'' = tape s \<and> cur s'' = cur s \<and> tape s' \<noteq> 0
            \<and> length (tapes s) \<le> length (tapes s') \<and> length (tapes s'') = length (tapes s'))
         \<and> length (tapes s0) \<le> length (tapes s)
         \<and> length (tapes s) \<le> max_depth 0 ops + 1"
proof -
  have i0: "tape_inv s0" and t0: "tape s0 = 0" and l0: "length (tapes s0) = 1"
    using Tape_new_inv[OF assms(1,2)] by auto
  have d0: "depth_of s0 = 0" using i0 t0 by (simp add: depth_zero)
  from run_inv[OF i0 assms(3)] have inv: "tape_inv s"
    and mono: "length (tapes s0) \<le> length (tapes s)"
    and bound: "length (tapes s) \<le> max_depth 0 ops + 1"
    using d0 l0 by auto
  have z: "dummy (tapes s ! 0) = 0" using inv by (simp add: tape_inv_def)
  from push_shape[OF inv, of fn t r] obtain s' where
    p: "push fn t r s = Some (Inr s')" and inv': "tape_inv s'"
    and sh: "if dummy (cur s) \<noteq> 0
         then tape s' = tape s \<and> length (tapes s') = length (tapes s)
              \<and> cur s' = (cur s) \<lparr> dummy := dummy (cur s) + 1 \<rparr>
         else tape s' = tape s + 1 \<and> length (tapes s') = max (length (tapes s)) (tape s + 2)
              \<and> dummy (cur s') \<le> 1 \<and> tapes s' ! tape s = cur s"
    by (auto split: if_splits)
  have nb: "tape s' \<noteq> 0"
  proof (cases "dummy (cur s) = 0")
    case True
    then show ?thesis using sh by simp
  next
    case False
    have "tape s \<noteq> 0"
    proof
      assume "tape s = 0"
      then show False using z False by (simp add: cur_def)
    qed
    then show ?thesis using sh False by simp
  qed
  from pop_shape[OF inv' nb] obtain s'' where
    q: "pop s' = Inr s''" and len'': "length (tapes s'') = length (tapes s')"
    and sh': "if dummy (cur s') > 1
         then tape s'' = tape s' \<and> cur s'' = (cur s') \<lparr> dummy := dummy (cur s') - 1 \<rparr>
         else tape s'' = tape s' - 1 \<and> tapes s'' = tapes s'"
    by blast
  have "tape s'' = tape s \<and> cur s'' = cur s"
  proof (cases "dummy (cur s) = 0")
    case True
    then show ?thesis using sh sh' by (auto simp: cur_def)
  next
    case False
    then show ?thesis using sh sh' by auto
  qed
  moreover have "length (tapes s) \<le> length (tapes s')" using sh by (auto split: if_splits)
  ultimately show ?thesis using p q nb len'' mono bound by blast
qed

theorem push_pop_restores_cursor_witness:
  "ordered_flat ex_flat \<and> Tape_new ex_flat = Inr ex_tape \<and> run ex_ops ex_tape = Some (Inr ex_mid)
   \<and> (\<exists>s' s''. push keep_a INTERVAL unit_box ex_mid = Some (Inr s') \<and> pop s' = Inr s''
            \<and> tape s'' = tape ex_mid \<and> cur s'' = cur ex_mid \<and> tape s' \<noteq> 0
            \<and> length (tapes ex_mid) \<le> length (tapes s') \<and> length (tapes s'') = length (tapes s'))
   \<and> length (tapes ex_tape) \<le> length (tapes ex_mid)
   \<and> length (tapes ex_mid) \<le> max_depth 0 ex_ops + 1"
  using push_pop_restores_cursor[OF ex_flat_ordered ex_tape_new ex_run, of keep_a INTERVAL unit_box]
    ex_flat_ordered ex_tape_new ex_run by simp

text \<open>
  C2, as the code has it. The constructor pushes every clause to the front of the list, so
  the root comes first. In the base Subtape and in every Subtape on the stack after any
  sequence of pops and of pushes whose classifiers answer \<open>KEEP_BOTH\<close> or
  \<open>KEEP_ALWAYS\<close> on opcodes with dummy children, the ids strictly decrease along the
  forward walk and each operand of a clause without dummy children is \<open>0\<close> or the id of a
  clause that comes later in the forward walk (earlier in the walk from \<open>rbegin\<close>).
\<close>

theorem operands_follow_clause:
  assumes "ordered_flat flat" "Tape_new flat = Inr s0" "ops_respect ops"
    "run ops s0 = Some (Inr s)"
  shows "operands_later (st_t (hd (tapes s0)))
         \<and> (\<forall>st \<in> set (tapes s). operands_later (st_t st)
               \<and> sorted_wrt (>) (map c_id (st_t st)))"
proof -
  have i0: "tape_inv s0" and l0: "length (tapes s0) = 1" using Tape_new_inv[OF assms(1,2)] by auto
  have c0: "tape_closed s0" using Tape_new_closed[OF assms(1,2)] .
  have inv: "tape_inv s" using reachable_inv[OF assms(1,2,4)] .
  have cl: "tape_closed s" using run_closed[OF i0 c0 assms(3,4)] .
  have "\<And>s st. tape_inv s \<Longrightarrow> tape_closed s \<Longrightarrow> st \<in> set (tapes s) \<Longrightarrow>
      operands_later (st_t st) \<and> sorted_wrt (>) (map c_id (st_t st))"
    using closed_operands_later by (auto simp: tape_inv_def tape_closed_def clauses_ok_def)
  moreover have "hd (tapes s0) \<in> set (tapes s0)" using l0 by (cases "tapes s0") auto
  ultimately show ?thesis using i0 c0 inv cl by blast
qed

theorem operands_follow_clause_witness:
  "ordered_flat ex_flat \<and> Tape_new ex_flat = Inr ex_tape \<and> ops_respect ex_ops3
   \<and> run ex_ops3 ex_tape = Some (Inr ex_pruned)
   \<and> operands_later (st_t (hd (tapes ex_tape)))
   \<and> list_all (\<lambda>st. operands_later (st_t st) \<and> sorted_wrt (>) (map c_id (st_t st)))
        (tapes ex_pruned)
   \<and> map (\<lambda>st. map c_id (st_t st)) (tapes ex_pruned) = [[3, 2, 1], [1]]"
proof -
  have "map (\<lambda>st. map c_id (st_t st)) (tapes ex_pruned) = [[3, 2, 1], [1]]" by code_simp
  then show ?thesis
    using operands_follow_clause[OF ex_flat_ordered ex_tape_new ex_ops3_respect ex_run3]
      ex_flat_ordered ex_tape_new ex_ops3_respect ex_run3
    unfolding list_all_iff by blast
qed

text \<open>
  The claim as stated puts the operands before the clause in the forward walk. In the base
  tape of \<open>min(x, y)\<close> the clause \<open>min\<close> (id 3) is first and its operands (ids 1 and 2)
  follow it.
\<close>

theorem operands_not_earlier:
  "Tape_new ex_flat = Inr ex_tape
   \<and> st_t (cur ex_tape) =
       [\<lparr> c_op = OP_MIN, c_id = 3, c_a = 1, c_b = 2 \<rparr>,
        \<lparr> c_op = VAR_Y, c_id = 2, c_a = 0, c_b = 0 \<rparr>,
        \<lparr> c_op = VAR_X, c_id = 1, c_a = 0, c_b = 0 \<rparr>]
   \<and> \<not> hasDummyChildren OP_MIN
   \<and> \<not> operands_earlier (st_t (cur ex_tape))
   \<and> operands_later (st_t (cur ex_tape))"
  by code_simp





text \<open>
  C5, as the code has it. For every Tape the constructor returns (on a topologically
  ordered list of nodes): the range that \<open>assignSlots\<close> records for a clause is its live
  range \<open>(first_use, last_use + 1)\<close> in the order of evaluation; the LOAD/DROP tape built
  from the ranges is ordered by position, with the drops of a position before its loads;
  two clauses whose live ranges overlap as half-open intervals \<open>[first_use, last_use + 1)\<close>
  get different slots in the slot map \<open>m\<close>. A drop returns the slot of its clause to the
  free set; a load takes the smallest free slot and leaves the size of the register file as
  it is, or, when no slot is free, takes the next slot after the file and grows it by one.
\<close>

theorem slots_of_live_clauses_differ:
  assumes "ordered_flat flat" "Tape_new flat = Inr s"
  shows "(\<exists>rs regs. slot_ranges s = Inr rs
            \<and> (\<forall>c \<in> set (st_t (cur s)).
                  map_of rs (c_id c) = Some (live_range (rev (st_t (cur s))) (c_id c)))
            \<and> sorted_events (make_reg_ops rs [])
            \<and> run_reg_ops (make_reg_ops rs []) regs_init = Inr regs
            \<and> slot_regs s = Inr regs)
       \<and> (\<forall>c1 \<in> set (st_t (cur s)). \<forall>c2 \<in> set (st_t (cur s)).
             c_id c1 \<noteq> c_id c2
             \<and> overlap_halfopen (live_range (rev (st_t (cur s))) (c_id c1))
                                (live_range (rev (st_t (cur s))) (c_id c2))
             \<longrightarrow> st_m (cur s) ! c_id c1 \<noteq> st_m (cur s) ! c_id c2)
       \<and> (is_drop ev k \<and> k \<noteq> 0 \<and> map_of (active st) k = Some slot
            \<longrightarrow> (\<exists>st'. reg_step ev st = Inr st' \<and> slot \<in> inactive st'
                    \<and> k \<notin> fst ` set (active st') \<and> assigned st' = assigned st))
       \<and> (regs_inv st \<and> is_load ev k \<and> k \<noteq> 0 \<and> k \<notin> fst ` set (assigned st)
            \<longrightarrow> (\<exists>st'. reg_step ev st = Inr st' \<and> regs_inv st'
                    \<and> (if inactive st \<noteq> {}
                        then map_of (active st') k = Some (Min (inactive st))
                             \<and> (\<forall>x \<in> inactive st. Min (inactive st) \<le> x)
                             \<and> inactive st' = inactive st - {Min (inactive st)}
                             \<and> file_size st' = file_size st
                        else map_of (active st') k = Some (file_size st)
                             \<and> inactive st' = {}
                             \<and> file_size st' = file_size st + 1)))"
proof -
  note R = slots_by_range[OF assms(2), of ev k st slot]
  from R obtain rs regs where
    rs: "slot_ranges s = Inr rs" and se: "sorted_events (make_reg_ops rs [])"
    and run: "run_reg_ops (make_reg_ops rs []) regs_init = Inr regs"
    and sg: "slot_regs s = Inr regs"
    and differ: "\<forall>i j p q.
                  i \<noteq> j \<and> i \<noteq> 0 \<and> j \<noteq> 0
                  \<and> map_of rs i = Some p \<and> map_of rs j = Some q \<and> overlap_halfopen p q
                  \<longrightarrow> st_m (cur s) ! i \<noteq> st_m (cur s) ! j"
    by blast
  have inv: "tape_inv s" and t0: "tape s = 0" using Tape_new_inv[OF assms] by simp_all
  have "cur s \<in> set (tapes s)" using inv by (simp add: tape_inv_def cur_def)
  then have ok: "clauses_ok (num_clauses s) (st_t (cur s))" using inv by (simp add: tape_inv_def)
  let ?xs = "rev (st_t (cur s))"
  have live: "\<forall>c \<in> set (st_t (cur s)). map_of rs (c_id c) = Some (live_range ?xs (c_id c))"
    by (rule slot_ranges_live[OF rs ok])
  have nz: "\<forall>c \<in> set (st_t (cur s)). c_id c \<noteq> 0"
    using ok by (auto simp: clauses_ok_def clause_ok_def)
  have a: "\<exists>rs regs. slot_ranges s = Inr rs
            \<and> (\<forall>c \<in> set (st_t (cur s)).
                  map_of rs (c_id c) = Some (live_range ?xs (c_id c)))
            \<and> sorted_events (make_reg_ops rs [])
            \<and> run_reg_ops (make_reg_ops rs []) regs_init = Inr regs
            \<and> slot_regs s = Inr regs"
    using rs live se run sg by blast
  have b: "\<forall>c1 \<in> set (st_t (cur s)). \<forall>c2 \<in> set (st_t (cur s)).
             c_id c1 \<noteq> c_id c2
             \<and> overlap_halfopen (live_range ?xs (c_id c1)) (live_range ?xs (c_id c2))
             \<longrightarrow> st_m (cur s) ! c_id c1 \<noteq> st_m (cur s) ! c_id c2"
  proof (intro ballI impI)
    fix c1 c2 assume c: "c1 \<in> set (st_t (cur s))" "c2 \<in> set (st_t (cur s))"
      and h: "c_id c1 \<noteq> c_id c2
             \<and> overlap_halfopen (live_range ?xs (c_id c1)) (live_range ?xs (c_id c2))"
    have m: "map_of rs (c_id c1) = Some (live_range ?xs (c_id c1))"
      "map_of rs (c_id c2) = Some (live_range ?xs (c_id c2))"
      using live c by blast+
    have z: "c_id c1 \<noteq> 0" "c_id c2 \<noteq> 0" using nz c by blast+
    show "st_m (cur s) ! c_id c1 \<noteq> st_m (cur s) ! c_id c2"
      using differ[rule_format, of "c_id c1" "c_id c2" "live_range ?xs (c_id c1)" "live_range ?xs (c_id c2)"]
        h m z by blast
  qed
  have d: "is_drop ev k \<and> k \<noteq> 0 \<and> map_of (active st) k = Some slot
            \<longrightarrow> (\<exists>st'. reg_step ev st = Inr st' \<and> slot \<in> inactive st'
                    \<and> k \<notin> fst ` set (active st') \<and> assigned st' = assigned st)"
    using R by (rule conjunct2[THEN conjunct1])
  have l: "regs_inv st \<and> is_load ev k \<and> k \<noteq> 0 \<and> k \<notin> fst ` set (assigned st)
            \<longrightarrow> (\<exists>st'. reg_step ev st = Inr st' \<and> regs_inv st'
                    \<and> (if inactive st \<noteq> {}
                        then map_of (active st') k = Some (Min (inactive st))
                             \<and> (\<forall>x \<in> inactive st. Min (inactive st) \<le> x)
                             \<and> inactive st' = inactive st - {Min (inactive st)}
                             \<and> file_size st' = file_size st
                        else map_of (active st') k = Some (file_size st)
                             \<and> inactive st' = {}
                             \<and> file_size st' = file_size st + 1))"
    using R by (rule conjunct2[THEN conjunct2])
  show ?thesis by (intro conjI a b d l)
qed

theorem slots_of_live_clauses_differ_witness:
  "ordered_flat ex_nmin_flat \<and> Tape_new ex_nmin_flat = Inr ex_nmin
   \<and> map c_id (st_t (cur ex_nmin)) = [4, 3, 2, 1]
   \<and> map (live_range (rev (st_t (cur ex_nmin)))) [1, 2, 3, 4] = [(0, 3), (1, 3), (2, 4), (3, 4)]
   \<and> overlap_halfopen (0, 3) (1, 3) \<and> overlap_halfopen (0, 3) (2, 4)
   \<and> overlap_halfopen (1, 3) (2, 4) \<and> overlap_halfopen (2, 4) (3, 4)
   \<and> st_m (cur ex_nmin) ! 1 \<noteq> st_m (cur ex_nmin) ! 2
   \<and> st_m (cur ex_nmin) ! 1 \<noteq> st_m (cur ex_nmin) ! 3
   \<and> st_m (cur ex_nmin) ! 2 \<noteq> st_m (cur ex_nmin) ! 3
   \<and> st_m (cur ex_nmin) ! 3 \<noteq> st_m (cur ex_nmin) ! 4
   \<and> is_drop ((3, DROP), 1) 1 \<and> map_of (active ex_regs3) 1 = Some 0
   \<and> (\<exists>st'. reg_step ((3, DROP), 1) ex_regs3 = Inr st' \<and> 0 \<in> inactive st'
          \<and> 1 \<notin> fst ` set (active st') \<and> assigned st' = assigned ex_regs3)
   \<and> regs_inv ex_regs4 \<and> is_load ((3, LOAD), 4) 4 \<and> 4 \<notin> fst ` set (assigned ex_regs4)
   \<and> inactive ex_regs4 \<noteq> {}
   \<and> (\<exists>st'. reg_step ((3, LOAD), 4) ex_regs4 = Inr st' \<and> regs_inv st'
          \<and> map_of (active st') 4 = Some (Min (inactive ex_regs4))
          \<and> inactive st' = inactive ex_regs4 - {Min (inactive ex_regs4)}
          \<and> file_size st' = file_size ex_regs4)
   \<and> regs_inv ex_regs1 \<and> is_load ((2, LOAD), 3) 3 \<and> 3 \<notin> fst ` set (assigned ex_regs1)
   \<and> inactive ex_regs1 = {}
   \<and> (\<exists>st'. reg_step ((2, LOAD), 3) ex_regs1 = Inr st' \<and> regs_inv st'
          \<and> map_of (active st') 3 = Some (file_size ex_regs1)
          \<and> file_size st' = file_size ex_regs1 + 1)"
proof -
  note t1 = slots_of_live_clauses_differ[OF ex_nmin_ordered ex_nmin_new, of "((3, DROP), 1)" 1 ex_regs3 0]
  note t2 = slots_of_live_clauses_differ[OF ex_nmin_ordered ex_nmin_new, of "((3, LOAD), 4)" 4 ex_regs4 0]
  note t3 = slots_of_live_clauses_differ[OF ex_nmin_ordered ex_nmin_new, of "((2, LOAD), 3)" 3 ex_regs1 0]
  let ?xs = "rev (st_t (cur ex_nmin))"
  have o: "overlap_halfopen (0, 3) (1, 3)" "overlap_halfopen (0, 3) (2, 4)"
    "overlap_halfopen (1, 3) (2, 4)" "overlap_halfopen (2, 4) (3, 4)"
    by (simp_all add: overlap_halfopen_def)
  have lr: "live_range ?xs 1 = (0, 3)" "live_range ?xs 2 = (1, 3)" "live_range ?xs 3 = (2, 4)"
    "live_range ?xs 4 = (3, 4)"
    using ex_nmin_live by simp_all
  have "c_id ` set (st_t (cur ex_nmin)) = set [4, 3, 2, 1]"
    using ex_nmin_ids by (metis set_map)
  then obtain c1 c2 c3 c4 where
    c: "c1 \<in> set (st_t (cur ex_nmin))" "c_id c1 = 1" "c2 \<in> set (st_t (cur ex_nmin))" "c_id c2 = 2"
      "c3 \<in> set (st_t (cur ex_nmin))" "c_id c3 = 3" "c4 \<in> set (st_t (cur ex_nmin))" "c_id c4 = 4"
    by (auto simp: image_iff set_eq_iff) (metis)
  from t1 have all: "\<forall>c1 \<in> set (st_t (cur ex_nmin)). \<forall>c2 \<in> set (st_t (cur ex_nmin)).
             c_id c1 \<noteq> c_id c2
             \<and> overlap_halfopen (live_range ?xs (c_id c1)) (live_range ?xs (c_id c2))
             \<longrightarrow> st_m (cur ex_nmin) ! c_id c1 \<noteq> st_m (cur ex_nmin) ! c_id c2"
    by (rule conjunct2[THEN conjunct1])
  have a1: "st_m (cur ex_nmin) ! 1 \<noteq> st_m (cur ex_nmin) ! 2"
    using all[rule_format, OF c(1) c(3)] c(2,4) lr o by simp
  have a2: "st_m (cur ex_nmin) ! 1 \<noteq> st_m (cur ex_nmin) ! 3"
    using all[rule_format, OF c(1) c(5)] c(2,6) lr o by simp
  have a3: "st_m (cur ex_nmin) ! 2 \<noteq> st_m (cur ex_nmin) ! 3"
    using all[rule_format, OF c(3) c(5)] c(4,6) lr o by simp
  have a4: "st_m (cur ex_nmin) ! 3 \<noteq> st_m (cur ex_nmin) ! 4"
    using all[rule_format, OF c(5) c(7)] c(6,8) lr o by simp
  have d: "is_drop ((3, DROP), 1) 1" "map_of (active ex_regs3) 1 = Some 0"
    by (simp_all add: is_drop_def ex_regs3_def)
  have l: "is_load ((3, LOAD), 4) 4" "4 \<notin> fst ` set (assigned ex_regs4)" "inactive ex_regs4 \<noteq> {}"
    "is_load ((2, LOAD), 3) 3" "3 \<notin> fst ` set (assigned ex_regs1)" "inactive ex_regs1 = {}"
    by (simp_all add: is_load_def ex_regs4_def ex_regs1_def)
  have e1: "\<exists>st'. reg_step ((3, DROP), 1) ex_regs3 = Inr st' \<and> 0 \<in> inactive st'
          \<and> 1 \<notin> fst ` set (active st') \<and> assigned st' = assigned ex_regs3"
    using t1 d by simp
  have e2: "\<exists>st'. reg_step ((3, LOAD), 4) ex_regs4 = Inr st' \<and> regs_inv st'
          \<and> map_of (active st') 4 = Some (Min (inactive ex_regs4))
          \<and> inactive st' = inactive ex_regs4 - {Min (inactive ex_regs4)}
          \<and> file_size st' = file_size ex_regs4"
    using t2 l(1-3) ex_regs4_inv by auto
  have e3: "\<exists>st'. reg_step ((2, LOAD), 3) ex_regs1 = Inr st' \<and> regs_inv st'
          \<and> map_of (active st') 3 = Some (file_size ex_regs1)
          \<and> file_size st' = file_size ex_regs1 + 1"
    using t3 l(4-6) ex_regs1_inv by auto
  show ?thesis
    by (intro conjI ex_nmin_ordered ex_nmin_new ex_nmin_ids ex_nmin_live o a1 a2 a3 a4 d e1
        ex_regs4_inv l e2 ex_regs1_inv e3)
qed

text \<open>
  With the live ranges read as the closed intervals \<open>[first_use, last_use + 1]\<close> the claim
  fails: in the tape of \<open>-min(x, y)\<close> the live range of \<open>x\<close> is \<open>(0, 3)\<close>, since \<open>min\<close>
  reads it at position 2, and the live range of the negation is \<open>(3, 4)\<close>; they share
  position 3, where the slot of \<open>x\<close> is dropped before the negation is loaded, and both
  clauses get slot 0.
\<close>

theorem slots_shared_at_endpoint:
  "ordered_flat ex_nmin_flat \<and> Tape_new ex_nmin_flat = Inr ex_nmin
   \<and> map c_id (st_t (cur ex_nmin)) = [4, 3, 2, 1]
   \<and> live_range (rev (st_t (cur ex_nmin))) 1 = (0, 3)
   \<and> live_range (rev (st_t (cur ex_nmin))) 4 = (3, 4)
   \<and> overlap_closed (live_range (rev (st_t (cur ex_nmin))) 1) (live_range (rev (st_t (cur ex_nmin))) 4)
   \<and> st_m (cur ex_nmin) = [0, 0, 1, 2, 0]
   \<and> st_m (cur ex_nmin) ! 1 = st_m (cur ex_nmin) ! 4"
  by code_simp

text \<open>
  C6. For every region whose interval evaluation was not numerically safe (\<open>isSafe()\<close>
  false), \<open>evalInterval\<close> sets the type of the cell to \<open>AMBIGUOUS\<close> whatever the computed
  interval is, and returns the caller's handle, not the handle of the pushed tape. The call
  returns normally (no error value); it allocates no leaf, leaves the pool as it was and does
  not finish the cell. The build then continues by subdivision: intervals are evaluated at
  levels above 0 only, and there the step of the build gives the cell \<open>2^N\<close> children and
  recurses into them, one level down, with the caller's handle, again without any error.
\<close>

theorem unsafe_interval_is_ambiguous:
  assumes "\<not> ev_safe ev"
  shows "(\<exists>t'. evalInterval N cs ev tape_h lvl t p = Inr (t', p, tape_h)
            \<and> type t' = AMBIGUOUS \<and> leaf t' = leaf t \<and> children t' = children t
            \<and> finished t' = finished t \<and> pending t' = pending t)
         \<and> (0 < lvl \<longrightarrow>
              build_step N cs ev check new tape_h lvl t p =
                Inr (Recurse (set_children (replicate (2 ^ N) new) (set_type AMBIGUOUS t)) p tape_h
                       (lvl - 1)))"
  using assms by (simp add: build_step_def evalInterval_def Let_def)

theorem unsafe_interval_is_ambiguous_witness:
  "\<not> ev_safe ex_unsafe \<and> ev_state ex_unsafe = FILLED \<and> ev_pushed ex_unsafe \<noteq> 1
   \<and> (\<exists>t'. evalInterval 1 id ex_unsafe 1 3 ex_cell ex_pools = Inr (t', ex_pools, 1)
          \<and> type t' = AMBIGUOUS \<and> leaf t' = None \<and> children t' = []
          \<and> \<not> finished t')
   \<and> (0::nat) < 3
   \<and> build_step 1 id ex_unsafe (\<lambda>i. None) ex_cell 1 3 ex_cell ex_pools =
        Inr (Recurse (SimplexTree AMBIGUOUS None [ex_cell, ex_cell] 0 False) ex_pools 1 2)
   \<and> (\<exists>t' p'. build_step 1 id ex_filled (\<lambda>i. None) ex_cell 1 3 ex_cell ex_pools = Inr (Done t' p')
          \<and> type t' = FILLED)"
proof -
  have u: "\<not> ev_safe ex_unsafe" by (simp add: ex_unsafe_def)
  note th = unsafe_interval_is_ambiguous[OF u, of 1 id 1 3 ex_cell ex_pools "\<lambda>i. None" ex_cell]
  from th obtain t' where e: "evalInterval 1 id ex_unsafe 1 3 ex_cell ex_pools = Inr (t', ex_pools, 1)"
    "type t' = AMBIGUOUS" "leaf t' = leaf ex_cell" "children t' = children ex_cell"
    "finished t' = finished ex_cell"
    by blast
  have w1: "\<exists>t'. evalInterval 1 id ex_unsafe 1 3 ex_cell ex_pools = Inr (t', ex_pools, 1)
          \<and> type t' = AMBIGUOUS \<and> leaf t' = None \<and> children t' = []
          \<and> \<not> finished t'"
    using e by (auto simp: ex_cell_def)
  have "build_step 1 id ex_unsafe (\<lambda>i. None) ex_cell 1 3 ex_cell ex_pools =
          Inr (Recurse (set_children (replicate (2 ^ 1) ex_cell) (set_type AMBIGUOUS ex_cell))
                 ex_pools 1 (3 - 1))"
    using th by simp
  then have w2: "build_step 1 id ex_unsafe (\<lambda>i. None) ex_cell 1 3 ex_cell ex_pools =
        Inr (Recurse (SimplexTree AMBIGUOUS None [ex_cell, ex_cell] 0 False) ex_pools 1 2)"
    by (simp add: set_children_def set_type_def ex_cell_def numeral_2_eq_2)
  have sf: "ev_safe ex_filled" "ev_state ex_filled = FILLED \<or> ev_state ex_filled = EMPTY"
    "ev_state ex_filled = FILLED"
    by (simp_all add: ex_filled_def ex_unsafe_def)
  from evalInterval_pure[OF sf(1,2), of 1 id 1 3 ex_cell ex_pools]
  obtain t5 p5 where f3: "evalInterval 1 id ex_filled 1 3 ex_cell ex_pools = Inr (t5, p5, ev_pushed ex_filled)"
    and ty5: "type t5 = FILLED"
    using sf(3) by auto
  have w3: "\<exists>t' p'. build_step 1 id ex_filled (\<lambda>i. None) ex_cell 1 3 ex_cell ex_pools = Inr (Done t' p')
          \<and> type t' = FILLED"
    using f3 ty5 by (simp add: build_step_def)
  have s: "ev_state ex_unsafe = FILLED" "ev_pushed ex_unsafe \<noteq> 1" by (simp_all add: ex_unsafe_def)
  show ?thesis using u s w1 w2 w3 by simp
qed

text \<open>
  C7, as the code has it. \<open>collectChildren\<close> returns true exactly for the caller that finds
  \<open>pending = 0\<close>, the last sibling to arrive; every other caller only decrements the counter.
  For the last sibling the cell is finished, and: if a child is a branch, the parent stays a
  branch, no leaf is allocated and the pools stay as they are. Otherwise a leaf is
  allocated. If all children are \<open>EMPTY\<close>, or all are \<open>FILLED\<close>, the merge commits without any
  test of the error: the children are released to the pool, the parent is a leaf of that
  type and \<open>findLeafVertices\<close> places its vertices. Otherwise the leaf is built by summing
  the QEFs of the children's subspaces; if the largest residual error is strictly less than
  \<open>max_err\<close> the merge commits (the signs are computed and the type is read off them, the
  children are released to the pool, the parent is a leaf), and else it is rejected: the
  leaf goes back to the pool and the children are kept.
\<close>

theorem collect_children_merge:
  assumes "collectChildren N ix ev tape_h lvl max_err t p = Inr (b, t', p')"
  shows "b = (pending t = 0)
     \<and> (pending t \<noteq> 0 \<longrightarrow> t' = set_pending (pending t - 1) t \<and> p' = p)
     \<and> (pending t = 0 \<longrightarrow> finished t' \<and> length (children t) = 2 ^ N)
     \<and> (pending t = 0 \<and> list_ex isBranch (children t) \<longrightarrow>
          isBranch t' \<and> children t' = children t \<and> leaf t' = leaf t \<and> type t' = type t
          \<and> p' = p)
     \<and> (pending t = 0 \<and> \<not> list_ex isBranch (children t) \<and> pure_children (children t) \<longrightarrow>
          \<not> isBranch t' \<and> has_leaf N t'
          \<and> type t' = (if list_all (\<lambda>c. type c = EMPTY) (children t) then EMPTY else FILLED)
          \<and> signs_agree t' p' \<and> free_trees p' = free_trees p + 2 ^ N)
     \<and> (pending t = 0 \<and> \<not> list_ex isBranch (children t) \<and> \<not> pure_children (children t)
          \<and> ev_error ev < max_err \<longrightarrow>
          \<not> isBranch t' \<and> has_leaf N t' \<and> sign_type t' p'
          \<and> free_trees p' = free_trees p + 2 ^ N
          \<and> (pool_ok (live (children t)) p \<and> targets_ok N ix \<and> leaves_ok N (children t) \<longrightarrow>
               merged N ix ev (children t) p t' p'))
     \<and> (pending t = 0 \<and> \<not> list_ex isBranch (children t) \<and> \<not> pure_children (children t)
          \<and> \<not> ev_error ev < max_err \<longrightarrow>
          isBranch t' \<and> children t' = children t \<and> leaf t' = None \<and> type t' = AMBIGUOUS
          \<and> counts p' = (free_leaves p - 1 + 1, free_trees p))"
proof (cases "pending t \<noteq> 0")
  case True
  have "b = False \<and> t' = set_pending (pending t - 1) t \<and> p' = p"
    using assms collectChildren_waiting[OF True, of N ix ev tape_h lvl max_err p] by simp
  then show ?thesis using True by simp
next
  case False
  then have p0: "pending t = 0" by simp
  have len: "length (children t) = 2 ^ N"
    using assms collectChildren_null[OF p0, of N ix ev tape_h lvl max_err p]
    by (cases "length (children t) = 2 ^ N") auto
  show ?thesis
  proof (cases "list_ex isBranch (children t)")
    case True
    have r: "b = True \<and> t' = done_cell (set_pending (- 1) t) \<and> p' = p"
      using assms collectChildren_branch[OF p0 len True, of ix ev tape_h lvl max_err p] by simp
    have "children t \<noteq> []" using True by auto
    then have "isBranch t'" using r by (simp add: isBranch_def)
    then show ?thesis using r p0 len True by simp
  next
    case nb: False
    have l0: "leaf t = None"
      using assms collectChildren_leaf[OF p0 len nb, of ix ev tape_h lvl max_err p]
      by (cases "leaf t") auto
    show ?thesis
    proof (cases "pure_children (children t)")
      case True
      then have pc: "list_all (\<lambda>c. type c = EMPTY) (children t) \<or> list_all (\<lambda>c. type c = FILLED) (children t)"
        by (simp add: pure_children_def)
      from collectChildren_pure[OF p0 len nb l0 pc, of ix ev tape_h lvl max_err p]
      obtain t2 p2 lf where e: "collectChildren N ix ev tape_h lvl max_err t p = Inr (True, t2, p2)"
        and r: "type t2 = (if list_all (\<lambda>c. type c = EMPTY) (children t) then EMPTY else FILLED)"
          "children t2 = []" "finished t2"
          "leaf t2 = Some lf" "length (sub lf) = 3 ^ N" "uniform_signs (type t2 = FILLED) lf p2"
          "free_trees p2 = free_trees p + 2 ^ N"
        by blast
      have tp: "b = True" "t' = t2" "p' = p2" using assms e by simp_all
      have sa: "signs_agree t' p'" using tp r(1,4,6) by (auto simp: signs_agree_def split: if_splits)
      have hl: "has_leaf N t'" using tp r(4,5) by (simp add: has_leaf_def)
      have ib: "\<not> isBranch t'" using tp r(2) by (simp add: isBranch_def)
      show ?thesis using tp r(1,3,7) sa hl ib p0 len nb True by simp
    next
      case False
      then have ne: "\<not> list_all (\<lambda>c. type c = EMPTY) (children t)"
        and nf: "\<not> list_all (\<lambda>c. type c = FILLED) (children t)"
        by (simp_all add: pure_children_def)
      obtain sb p2 where al: "fold alloc_sub [0 ..< 3 ^ N]
          (replicate (3 ^ N) 0, p \<lparr> free_leaves := free_leaves p - 1 \<rparr>) = (sb, p2)"
        by (cases "fold alloc_sub [0 ..< 3 ^ N]
          (replicate (3 ^ N) 0, p \<lparr> free_leaves := free_leaves p - 1 \<rparr>)") auto
      have c2: "counts p2 = counts (p \<lparr> free_leaves := free_leaves p - 1 \<rparr>)"
        using alloc_props[OF al] by simp
      show ?thesis
      proof (cases "sum_qefs N ix sb (children t) (List.product [0 ..< 2 ^ N] [0 ..< 3 ^ N]) p2")
        case (Inl e)
        show ?thesis
          using assms collectChildren_fail[OF p0 len nb l0 ne nf al Inl, of ev tape_h lvl max_err]
          by simp
      next
        case (Inr p3)
        have c3: "counts p3 = counts p2" using sum_qefs_counts[OF Inr] .
        show ?thesis
        proof (cases "ev_error ev < max_err")
          case True
          let ?lf = "\<lparr> level = lvl, l_tape = Some tape_h, sub = sb \<rparr>"
          from collectChildren_commit[OF p0 len nb l0 ne nf al Inr True, of tape_h lvl]
          obtain t2 p2' where e: "collectChildren N ix ev tape_h lvl max_err t p = Inr (True, t2, p2')"
            and r: "children t2 = []" "finished t2" "leaf t2 = Some ?lf" "length sb = 3 ^ N"
              "(type t2 = FILLED) = uniform_signs True ?lf p2'"
              "(type t2 = EMPTY) = uniform_signs False ?lf p2'"
              "type t2 = FILLED \<or> type t2 = EMPTY \<or> type t2 = AMBIGUOUS"
              "free_trees p2' = free_trees p + 2 ^ N"
            by blast
          have tp: "b = True" "t' = t2" "p' = p2'" using assms e by simp_all
          have st: "sign_type t' p'" using tp r(3,5,6,7) by (simp add: sign_type_def)
          have hl: "has_leaf N t'" using tp r(3,4) by (simp add: has_leaf_def)
          have ib: "\<not> isBranch t'" using tp r(1) by (simp add: isBranch_def)
          have mg: "pool_ok (live (children t)) p \<and> targets_ok N ix \<and> leaves_ok N (children t) \<longrightarrow>
               merged N ix ev (children t) p t' p'"
            using collectChildren_merged[OF p0 len nb l0 False True _ _ _ assms] by blast
          show ?thesis using tp r(2,8) st hl ib mg p0 len nb False True by simp
        next
          case nerr: False
          have e: "collectChildren N ix ev tape_h lvl max_err t p =
             Inr (True, SimplexTree AMBIGUOUS None (children t) (- 1) True,
                  Leaf_releaseTo \<lparr> level = lvl, l_tape = Some tape_h, sub = sb \<rparr> p3)"
            by (rule collectChildren_reject[OF p0 len nb l0 ne nf al Inr nerr])
          have tp: "b = True" "t' = SimplexTree AMBIGUOUS None (children t) (- 1) True"
            "p' = Leaf_releaseTo \<lparr> level = lvl, l_tape = Some tape_h, sub = sb \<rparr> p3"
            using assms e by simp_all
          have "counts p' = (free_leaves p3 + 1, free_trees p3)"
            unfolding tp by (rule counts_Leaf_releaseTo)
          then have cn: "counts p' = (free_leaves p - 1 + 1, free_trees p)"
            using c3 c2 by (simp add: counts_def)
          have "children t \<noteq> []" using len by auto
          then have ib: "isBranch t'" using tp by (simp add: isBranch_def)
          show ?thesis using tp cn ib p0 len nb False nerr by simp
        qed
      qed
    qed
  qed
qed

theorem collect_children_merge_witness:
  "(\<exists>t' p'. collectChildren 1 ex_ix ex_filled 1 1 1 (set_pending 1 ex_parent) ex_pools2 = Inr (False, t', p')
        \<and> t' = set_pending 0 ex_parent \<and> p' = ex_pools2)
   \<and> (\<exists>t' p'. collectChildren 1 ex_ix ex_filled 1 2 1 ex_grand ex_pools2 = Inr (True, t', p')
        \<and> finished t' \<and> isBranch t' \<and> leaf t' = None \<and> p' = ex_pools2)
   \<and> (\<exists>t' p'. collectChildren 1 ex_ix ex_filled 1 1 1 ex_parent_empty ex_pools2 = Inr (True, t', p')
        \<and> \<not> isBranch t' \<and> has_leaf 1 t' \<and> type t' = EMPTY \<and> signs_agree t' p'
        \<and> free_trees p' = 2)
   \<and> ev_error ex_filled < 1 \<and> pool_ok (live (children ex_parent)) ex_pools2
   \<and> targets_ok 1 ex_ix \<and> leaves_ok 1 (children ex_parent)
   \<and> (\<exists>t' p'. collectChildren 1 ex_ix ex_filled 1 1 1 ex_parent ex_pools2 = Inr (True, t', p')
        \<and> \<not> isBranch t' \<and> has_leaf 1 t' \<and> sign_type t' p'
        \<and> merged 1 ex_ix ex_filled (children ex_parent) ex_pools2 t' p'
        \<and> free_trees p' = 2)
   \<and> map (qef_sum 1 ex_ix (children ex_parent) ex_pools2) [0, 1, 2] = [1, 5, 11]
   \<and> (\<exists>t' p'. collectChildren 1 ex_ix ex_filled 1 1 0 ex_parent ex_pools2 = Inr (True, t', p')
        \<and> isBranch t' \<and> children t' = children ex_parent \<and> leaf t' = None
        \<and> type t' = AMBIGUOUS \<and> counts p' = (1, 0))"
proof -
  have w1: "\<exists>t' p'. collectChildren 1 ex_ix ex_filled 1 1 1 (set_pending 1 ex_parent) ex_pools2 = Inr (False, t', p')
        \<and> t' = set_pending 0 ex_parent \<and> p' = ex_pools2"
  proof -
    have pn: "pending (set_pending 1 ex_parent) \<noteq> 0" by simp
    obtain b t' p' where e: "collectChildren 1 ex_ix ex_filled 1 1 1 (set_pending 1 ex_parent) ex_pools2 = Inr (b, t', p')"
      using collectChildren_waiting[OF pn, of 1 ex_ix ex_filled 1 1 1 ex_pools2] by blast
    from collect_children_merge[OF e] pn
    have "b = False \<and> t' = set_pending (pending (set_pending 1 ex_parent) - 1) (set_pending 1 ex_parent)
          \<and> p' = ex_pools2"
      by blast
    then show ?thesis using e by (simp add: set_pending_def)
  qed
  have w2: "\<exists>t' p'. collectChildren 1 ex_ix ex_filled 1 2 1 ex_grand ex_pools2 = Inr (True, t', p')
        \<and> finished t' \<and> isBranch t' \<and> leaf t' = None \<and> p' = ex_pools2"
  proof -
    have c: "pending ex_grand = 0" "length (children ex_grand) = 2 ^ 1"
      "list_ex isBranch (children ex_grand)" "leaf ex_grand = None"
      by (simp_all add: ex_grand_def ex_parent_def isBranch_def)
    obtain b t' p' where e: "collectChildren 1 ex_ix ex_filled 1 2 1 ex_grand ex_pools2 = Inr (b, t', p')"
      using collectChildren_branch[OF c(1-3), of ex_ix ex_filled 1 2 1 ex_pools2] by blast
    from collect_children_merge[OF e] c
    have "b = True \<and> finished t' \<and> isBranch t' \<and> leaf t' = None \<and> p' = ex_pools2"
      by simp
    then show ?thesis using e by blast
  qed
  have w3: "\<exists>t' p'. collectChildren 1 ex_ix ex_filled 1 1 1 ex_parent_empty ex_pools2 = Inr (True, t', p')
        \<and> \<not> isBranch t' \<and> has_leaf 1 t' \<and> type t' = EMPTY \<and> signs_agree t' p'
        \<and> free_trees p' = 2"
  proof -
    have c: "pending ex_parent_empty = 0" "length (children ex_parent_empty) = 2 ^ 1"
      "\<not> list_ex isBranch (children ex_parent_empty)" "leaf ex_parent_empty = None"
      "leaves_ok 1 (children ex_parent_empty)" "pure_children (children ex_parent_empty)"
      "list_all (\<lambda>c. type c = EMPTY) (children ex_parent_empty)"
      by (simp_all add: ex_parent_empty_def ex_lo_def ex_lo2_def isBranch_def leaves_ok_def
          pure_children_def)
    from collectChildren_returns[OF c(1-5), of ex_ix ex_filled 1 1 1 ex_pools2]
    obtain t' p' where e: "collectChildren 1 ex_ix ex_filled 1 1 1 ex_parent_empty ex_pools2 = Inr (True, t', p')"
      by blast
    from collect_children_merge[OF e] c(1,3,6,7)
    have "\<not> isBranch t' \<and> has_leaf 1 t' \<and> type t' = EMPTY \<and> signs_agree t' p'
        \<and> free_trees p' = free_trees ex_pools2 + 2 ^ 1"
      by simp
    then show ?thesis using e by (auto simp: ex_pools2_def)
  qed
  have c: "pending ex_parent = 0" "length (children ex_parent) = 2 ^ 1"
    "\<not> list_ex isBranch (children ex_parent)" "leaf ex_parent = None"
    "\<not> pure_children (children ex_parent)"
    by (simp_all add: ex_parent_def ex_lo_def ex_hi_def isBranch_def pure_children_def)
  have lo: "leaves_ok 1 (children ex_parent)" by code_simp
  have po: "pool_ok (live (children ex_parent)) ex_pools2" by code_simp
  have tk: "targets_ok 1 ex_ix" by code_simp
  have qs: "map (qef_sum 1 ex_ix (children ex_parent) ex_pools2) [0, 1, 2] = [1, 5, 11]"
    by code_simp
  have er: "ev_error ex_filled < 1" "\<not> ev_error ex_filled < 0"
    by (simp_all add: ex_filled_def ex_unsafe_def)
  have w4: "\<exists>t' p'. collectChildren 1 ex_ix ex_filled 1 1 1 ex_parent ex_pools2 = Inr (True, t', p')
        \<and> \<not> isBranch t' \<and> has_leaf 1 t' \<and> sign_type t' p'
        \<and> merged 1 ex_ix ex_filled (children ex_parent) ex_pools2 t' p'
        \<and> free_trees p' = 2"
  proof -
    from collectChildren_returns[OF c(1-4) lo, of ex_ix ex_filled 1 1 1 ex_pools2]
    obtain t' p' where e: "collectChildren 1 ex_ix ex_filled 1 1 1 ex_parent ex_pools2 = Inr (True, t', p')"
      by blast
    from collect_children_merge[OF e] c(1,3,5) er(1) lo po tk
    have "\<not> isBranch t' \<and> has_leaf 1 t' \<and> sign_type t' p'
        \<and> free_trees p' = free_trees ex_pools2 + 2 ^ 1
        \<and> merged 1 ex_ix ex_filled (children ex_parent) ex_pools2 t' p'"
      by simp
    then show ?thesis using e by (auto simp: ex_pools2_def)
  qed
  have w5: "\<exists>t' p'. collectChildren 1 ex_ix ex_filled 1 1 0 ex_parent ex_pools2 = Inr (True, t', p')
        \<and> isBranch t' \<and> children t' = children ex_parent \<and> leaf t' = None
        \<and> type t' = AMBIGUOUS \<and> counts p' = (1, 0)"
  proof -
    from collectChildren_returns[OF c(1-4) lo, of ex_ix ex_filled 1 1 0 ex_pools2]
    obtain t' p' where e: "collectChildren 1 ex_ix ex_filled 1 1 0 ex_parent ex_pools2 = Inr (True, t', p')"
      by blast
    from collect_children_merge[OF e] c(1,3,5) er(2)
    have "isBranch t' \<and> children t' = children ex_parent \<and> leaf t' = None
        \<and> type t' = AMBIGUOUS \<and> counts p' = (free_leaves ex_pools2 - 1 + 1, free_trees ex_pools2)"
      by simp
    then show ?thesis using e by (auto simp: ex_pools2_def)
  qed
  show ?thesis by (intro conjI w1 w2 w3 w4 w5 er(1) po tk lo qs)
qed

text \<open>
  The claim as stated lets every merge depend on the error test. For a parent of two \<open>EMPTY\<close>
  leaf cells and \<open>max_err = 0\<close>, where the residual error \<open>0\<close> is not below \<open>max_err\<close>,
  \<open>collectChildren\<close> nevertheless releases the children and makes the parent an \<open>EMPTY\<close>
  leaf.
\<close>

theorem pure_children_merge_without_error_test:
  "pending ex_parent_empty = 0 \<and> \<not> list_ex isBranch (children ex_parent_empty)
   \<and> \<not> ev_error ex_filled < 0
   \<and> (\<exists>t' p'. collectChildren 1 ex_ix ex_filled 1 1 0 ex_parent_empty ex_pools2 = Inr (True, t', p')
          \<and> children t' = [] \<and> leaf t' \<noteq> None \<and> type t' = EMPTY
          \<and> free_trees p' = free_trees ex_pools2 + 2)"
proof -
  have c: "pending ex_parent_empty = 0" "length (children ex_parent_empty) = 2 ^ 1"
    "\<not> list_ex isBranch (children ex_parent_empty)" "leaf ex_parent_empty = None"
    "list_all (\<lambda>c. type c = EMPTY) (children ex_parent_empty)
     \<or> list_all (\<lambda>c. type c = FILLED) (children ex_parent_empty)"
    "list_all (\<lambda>c. type c = EMPTY) (children ex_parent_empty)"
    by (simp_all add: ex_parent_empty_def ex_lo_def ex_lo2_def isBranch_def)
  have e: "\<not> ev_error ex_filled < 0" by (simp add: ex_filled_def ex_unsafe_def)
  from collectChildren_pure[OF c(1-5), of ex_ix ex_filled 1 1 0 ex_pools2]
  obtain t' p' where "collectChildren 1 ex_ix ex_filled 1 1 0 ex_parent_empty ex_pools2 = Inr (True, t', p')"
    "children t' = []" "leaf t' \<noteq> None" "type t' = EMPTY" "free_trees p' = free_trees ex_pools2 + 2"
    using c(6) by auto
  then show ?thesis using c(1,3) e by blast
qed

text \<open>
  C8. Every cell that is \<open>EMPTY\<close> or \<open>FILLED\<close> after its leaf has been built has \<open>inside\<close>
  flags that agree with its type, all false for \<open>EMPTY\<close> and all true for \<open>FILLED\<close>, on all
  \<open>3^N\<close> subspaces: \<open>findLeafVertices\<close> sets the flags uniformly for a pure cell,
  \<open>checkVertexSigns\<close> gives a cell the type \<open>EMPTY\<close> or \<open>FILLED\<close> only when all flags agree,
  and the three functions that build a leaf (\<open>evalInterval\<close>, \<open>evalLeaf\<close> and
  \<open>collectChildren\<close>, the latter on a cell that has no leaf yet) return cells with agreeing
  flags.
\<close>

theorem inside_flags_agree_with_type:
  "(findLeafVertices N cs ev check t0 p0 = Inr (t1, p1) \<and> (type t0 = FILLED \<or> type t0 = EMPTY)
      \<longrightarrow> type t1 = type t0 \<and> leaf t1 \<noteq> None \<and> signs_agree t1 p1)
   \<and> (checkVertexSigns t2 p2 = Inr t3
      \<longrightarrow> leaf t3 = leaf t2 \<and> leaf t3 \<noteq> None \<and> signs_agree t3 p2)
   \<and> (evalInterval N cs ev tape_h lvl t4 p4 = Inr (t5, p5, h)
      \<longrightarrow> signs_agree t5 p5 \<and> (type t5 = FILLED \<or> type t5 = EMPTY \<longrightarrow> has_leaf N t5))
   \<and> (evalLeaf N cs ev check tape_h lvl t6 p6 = Inr (t7, p7)
      \<longrightarrow> signs_agree t7 p7 \<and> has_leaf N t7)
   \<and> (leaf t8 = None \<and> collectChildren N ix ev tape_h lvl' max_err t8 p8 = Inr (b, t9, p9)
      \<longrightarrow> signs_agree t9 p9 \<and> (leaf t9 \<noteq> None \<longrightarrow> has_leaf N t9))"
proof -
  have a: "findLeafVertices N cs ev check t0 p0 = Inr (t1, p1) \<and> (type t0 = FILLED \<or> type t0 = EMPTY)
      \<longrightarrow> type t1 = type t0 \<and> leaf t1 \<noteq> None \<and> signs_agree t1 p1"
    using findLeafVertices_signs[of N cs ev check t0 p0 t1 p1] by blast
  have b: "checkVertexSigns t2 p2 = Inr t3
      \<longrightarrow> leaf t3 = leaf t2 \<and> leaf t3 \<noteq> None \<and> signs_agree t3 p2"
    using checkVertexSigns_signs[of t2 p2 t3] by blast
  have c: "evalInterval N cs ev tape_h lvl t4 p4 = Inr (t5, p5, h)
      \<longrightarrow> signs_agree t5 p5 \<and> (type t5 = FILLED \<or> type t5 = EMPTY \<longrightarrow> has_leaf N t5)"
    using evalInterval_signs[of N cs ev tape_h lvl t4 p4 t5 p5 h] by blast
  have d: "evalLeaf N cs ev check tape_h lvl t6 p6 = Inr (t7, p7)
      \<longrightarrow> signs_agree t7 p7 \<and> has_leaf N t7"
    using evalLeaf_signs[of N cs ev check tape_h lvl t6 p6 t7 p7] by blast
  have e: "leaf t8 = None \<and> collectChildren N ix ev tape_h lvl' max_err t8 p8 = Inr (b, t9, p9)
      \<longrightarrow> signs_agree t9 p9 \<and> (leaf t9 \<noteq> None \<longrightarrow> has_leaf N t9)"
    using collectChildren_signs[of t8 N ix ev tape_h lvl' max_err p8 b t9 p9] by blast
  show ?thesis using a b c d e by blast
qed

theorem inside_flags_agree_with_type_witness:
  "(\<exists>t1 p1. findLeafVertices 1 id ex_filled (\<lambda>i. None) ex_hi ex_pools2 = Inr (t1, p1)
        \<and> type ex_hi = FILLED \<and> type t1 = FILLED \<and> leaf t1 \<noteq> None \<and> signs_agree t1 p1)
   \<and> (\<exists>t3. checkVertexSigns (set_type AMBIGUOUS ex_hi) ex_pools2 = Inr t3
        \<and> type t3 = FILLED \<and> leaf t3 = leaf ex_hi \<and> signs_agree t3 ex_pools2)
   \<and> (\<exists>t5 p5 h. evalInterval 1 id ex_filled 1 0 ex_cell ex_pools = Inr (t5, p5, h)
        \<and> type t5 = FILLED \<and> signs_agree t5 p5 \<and> has_leaf 1 t5)
   \<and> (\<exists>t7 p7. evalLeaf 1 id ex_filled (\<lambda>i. None) 1 0 ex_cell ex_pools = Inr (t7, p7)
        \<and> signs_agree t7 p7 \<and> has_leaf 1 t7)
   \<and> (\<exists>t9 p9. leaf ex_parent_empty = None
        \<and> collectChildren 1 ex_ix ex_filled 1 1 0 ex_parent_empty ex_pools2 = Inr (True, t9, p9)
        \<and> type t9 = EMPTY \<and> signs_agree t9 p9 \<and> has_leaf 1 t9)"
proof -
  have ty: "type ex_hi = FILLED \<or> type ex_hi = EMPTY" and ty': "type ex_hi = FILLED"
    by (simp_all add: ex_hi_def)
  have lf: "leaf ex_hi = Some \<lparr> level = 0, l_tape = Some 1, sub = [4, 5, 6] \<rparr>"
    by (simp add: ex_hi_def)
  from findLeafVertices_pure[OF ty lf, of 1 id ex_filled "\<lambda>i. None" ex_pools2]
  obtain t1 p1 where f1: "findLeafVertices 1 id ex_filled (\<lambda>i. None) ex_hi ex_pools2 = Inr (t1, p1)"
    by blast
  obtain t3 where f2: "checkVertexSigns (set_type AMBIGUOUS ex_hi) ex_pools2 = Inr t3"
    and ty3: "type t3 = FILLED"
    by (simp add: checkVertexSigns_def ex_hi_def ex_pools2_def ex_heap_def set_type_def)
  have sf: "ev_safe ex_filled" "ev_state ex_filled = FILLED \<or> ev_state ex_filled = EMPTY"
    "ev_state ex_filled = FILLED"
    by (simp_all add: ex_filled_def ex_unsafe_def)
  from evalInterval_pure[OF sf(1,2), of 1 id 1 0 ex_cell ex_pools]
  obtain t5 p5 where f3: "evalInterval 1 id ex_filled 1 0 ex_cell ex_pools = Inr (t5, p5, ev_pushed ex_filled)"
    and ty5: "type t5 = FILLED"
    using sf(3) by auto
  from evalLeaf_total[of 1 id ex_filled "\<lambda>i. None" 1 ex_cell ex_pools]
  obtain t7 p7 where f4: "evalLeaf 1 id ex_filled (\<lambda>i. None) 1 0 ex_cell ex_pools = Inr (t7, p7)"
    by blast
  have c: "pending ex_parent_empty = 0" "length (children ex_parent_empty) = 2 ^ 1"
    "\<not> list_ex isBranch (children ex_parent_empty)" "leaf ex_parent_empty = None"
    "list_all (\<lambda>c. type c = EMPTY) (children ex_parent_empty)
     \<or> list_all (\<lambda>c. type c = FILLED) (children ex_parent_empty)"
    "list_all (\<lambda>c. type c = EMPTY) (children ex_parent_empty)"
    by (simp_all add: ex_parent_empty_def ex_lo_def ex_lo2_def isBranch_def)
  from collectChildren_pure[OF c(1-5), of ex_ix ex_filled 1 1 0 ex_pools2]
  obtain t9 p9 where f5: "collectChildren 1 ex_ix ex_filled 1 1 0 ex_parent_empty ex_pools2 = Inr (True, t9, p9)"
    and r9: "type t9 = EMPTY" "leaf t9 \<noteq> None"
    using c(6) by auto
  note th = inside_flags_agree_with_type[where N = 1 and cs = id and ev = ex_filled
      and check = "\<lambda>i. None" and ?t0.0 = ex_hi and ?p0.0 = ex_pools2 and ?t1.0 = t1 and ?p1.0 = p1
      and ?t2.0 = "set_type AMBIGUOUS ex_hi" and ?p2.0 = ex_pools2 and ?t3.0 = t3
      and tape_h = 1 and lvl = 0 and lvl' = 1 and ?t4.0 = ex_cell and ?p4.0 = ex_pools and ?t5.0 = t5
      and ?p5.0 = p5 and h = "ev_pushed ex_filled"
      and ?t6.0 = ex_cell and ?p6.0 = ex_pools and ?t7.0 = t7 and ?p7.0 = p7
      and ?t8.0 = ex_parent_empty and ix = ex_ix and max_err = 0 and ?p8.0 = ex_pools2
      and b = True and ?t9.0 = t9 and ?p9.0 = p9]
  have g1: "type t1 = FILLED \<and> leaf t1 \<noteq> None \<and> signs_agree t1 p1"
    using th f1 ty ty' by simp
  have g2: "leaf t3 = leaf ex_hi \<and> signs_agree t3 ex_pools2"
    using th f2 by simp
  have g3: "signs_agree t5 p5 \<and> has_leaf 1 t5"
    using th f3 ty5 by simp
  have g4: "signs_agree t7 p7 \<and> has_leaf 1 t7"
    using th f4 by simp
  have g5: "signs_agree t9 p9 \<and> has_leaf 1 t9"
    using th f5 c(4) r9(2) by simp
  show ?thesis using f1 ty' g1 f2 ty3 g2 f3 ty5 g3 f4 g4 c(4) f5 r9(1) g5 by blast
qed

text \<open>
  C10. On every Tape reached from the constructor (on a topologically ordered node list) by
  pushes and pops, \<open>push\<close> returns, with any classifier: every clause of the current
  Subtape has both operand fields strictly below its id, the remap table written by the
  first loop maps a clause id to 0 or to one of the clause's operands, so every entry of
  the table is 0 or strictly below its index, and the loops that follow the remap chain
  from either operand of any clause return.
\<close>

theorem remap_chains_terminate:
  assumes "ordered_flat flat" "Tape_new flat = Inr s0" "run ops s0 = Some (Inr s)"
  shows "\<exists>s'. push fn t r s = Some (Inr s')
           \<and> (\<forall>i < length (remap s'). remap s' ! i = 0 \<or> remap s' ! i < i)
           \<and> (\<forall>c \<in> set (st_t (cur s)).
                 c_a c < c_id c \<and> c_b c < c_id c
                 \<and> (dummy (cur s) = 0 \<longrightarrow>
                      remap s' ! c_id c = 0 \<or> remap s' ! c_id c = c_a c \<or> remap s' ! c_id c = c_b c)
                 \<and> (\<exists>ra rb. follow (remap s') (c_a c) = Some (Inr ra)
                       \<and> follow (remap s') (c_b c) = Some (Inr rb)))"
proof -
  have inv: "tape_inv s" using reachable_inv[OF assms] .
  obtain s' where p: "push fn t r s = Some (Inr s')" and inv': "tape_inv s'"
    and n: "num_clauses s' = num_clauses s"
    using push_inv_total[OF inv, of fn t r] by blast
  have ab: "dummy (cur s) = 0 \<Longrightarrow> \<forall>c \<in> set (st_t (cur s)). remap s' ! c_id c = 0
              \<or> remap s' ! c_id c = c_a c \<or> remap s' ! c_id c = c_b c"
    using push_fresh[OF inv, of fn t r] p by auto
  have dec: "decreasing (remap s')" and len: "length (remap s') = num_clauses s'"
    using inv' by (simp_all add: tape_inv_def)
  have "cur s \<in> set (tapes s)" using inv by (simp add: tape_inv_def cur_def)
  then have ok: "\<forall>c \<in> set (st_t (cur s)). clause_ok (num_clauses s) c"
    using inv by (simp add: tape_inv_def clauses_ok_def)
  have "\<forall>c \<in> set (st_t (cur s)).
          c_a c < c_id c \<and> c_b c < c_id c
          \<and> (dummy (cur s) = 0 \<longrightarrow>
                 remap s' ! c_id c = 0 \<or> remap s' ! c_id c = c_a c \<or> remap s' ! c_id c = c_b c)
          \<and> (\<exists>ra rb. follow (remap s') (c_a c) = Some (Inr ra)
                \<and> follow (remap s') (c_b c) = Some (Inr rb))"
  proof
    fix c assume cin: "c \<in> set (st_t (cur s))"
    then have c: "clause_ok (num_clauses s) c" using ok by blast
    then have la: "c_a c < length (remap s')" and lb: "c_b c < length (remap s')"
      using len n by (auto simp: clause_ok_def)
    obtain ra where ra: "follow (remap s') (c_a c) = Some (Inr ra)"
      using follow_terminates[OF dec la] by blast
    obtain rb where rb: "follow (remap s') (c_b c) = Some (Inr rb)"
      using follow_terminates[OF dec lb] by blast
    show "c_a c < c_id c \<and> c_b c < c_id c
          \<and> (dummy (cur s) = 0 \<longrightarrow>
                 remap s' ! c_id c = 0 \<or> remap s' ! c_id c = c_a c \<or> remap s' ! c_id c = c_b c)
          \<and> (\<exists>ra rb. follow (remap s') (c_a c) = Some (Inr ra)
                \<and> follow (remap s') (c_b c) = Some (Inr rb))"
      using c ra rb ab cin by (simp add: clause_ok_def)
  qed
  moreover have "\<forall>i < length (remap s'). remap s' ! i = 0 \<or> remap s' ! i < i"
    using dec by (simp add: decreasing_def)
  ultimately show ?thesis using p by blast
qed

theorem remap_chains_terminate_witness:
  "ordered_flat ex_flat \<and> Tape_new ex_flat = Inr ex_tape \<and> run [] ex_tape = Some (Inr ex_tape)
   \<and> (\<exists>s'. push keep_a INTERVAL unit_box ex_tape = Some (Inr s')
           \<and> (\<forall>i < length (remap s'). remap s' ! i = 0 \<or> remap s' ! i < i)
           \<and> (\<forall>c \<in> set (st_t (cur ex_tape)).
                 c_a c < c_id c \<and> c_b c < c_id c
                 \<and> (dummy (cur ex_tape) = 0 \<longrightarrow>
                      remap s' ! c_id c = 0 \<or> remap s' ! c_id c = c_a c \<or> remap s' ! c_id c = c_b c)
                 \<and> (\<exists>ra rb. follow (remap s') (c_a c) = Some (Inr ra)
                       \<and> follow (remap s') (c_b c) = Some (Inr rb))))
   \<and> dummy (cur ex_tape) = 0 \<and> st_t (cur ex_tape) \<noteq> []"
proof -
  have d: "dummy (cur ex_tape) = 0" by code_simp
  have ne: "st_t (cur ex_tape) \<noteq> []" by code_simp
  show ?thesis
    using remap_chains_terminate[OF ex_flat_ordered ex_tape_new ex_run_nil, of keep_a INTERVAL unit_box]
      ex_flat_ordered ex_tape_new ex_run_nil d ne by simp
qed

end
